(* ===== verification/Prelude.thy ===== *)
theory Prelude
  imports "HOL-Library.Word"
begin

text \<open>
  What every component of the model shares: bytes and the big-endian integers of
  \<open>encoding/binary\<close>, Go strings as byte strings, computations that carry a state and may
  fail, the input side of a connection as \<open>io.ReadFull\<close> sees it, the output side as
  \<open>Write\<close> and \<open>writeFull\<close> see it, and the three interfaces: \<open>codec\<close> and
  \<open>byte_source\<close>, which the wire formats and the buffered readers of the program implement, and
  \<open>state_machine\<close>, which its concurrent components do.
\<close>

unbundle bit_operations_syntax

named_theorems wire \<open>lengths and decodings of wire encodings\<close>

section \<open>Bytes, big-endian integers and strings\<close>

type_synonym byte = "8 word"
type_synonym bytes = "byte list"
type_synonym u16 = "16 word"

definition be16 :: "u16 \<Rightarrow> bytes" where
  "be16 w = [ucast (drop_bit 8 w), ucast w]"

definition de16 :: "byte \<Rightarrow> byte \<Rightarrow> u16" where
  "de16 a b = push_bit 8 (ucast a) OR ucast b"

definition be64 :: "64 word \<Rightarrow> bytes" where
  "be64 w = map (\<lambda>i. ucast (drop_bit (8 * i) w)) [7, 6, 5, 4, 3, 2, 1, 0]"

definition de64 :: "bytes \<Rightarrow> 64 word" where
  "de64 bs = foldl (\<lambda>acc b. push_bit 8 acc OR ucast b) 0 bs"

lemma de16_be16 [simp]: "de16 (ucast (drop_bit 8 w)) (ucast w) = w"
  unfolding de16_def
  by (rule bit_eqI) (auto simp: bit_simps)

lemma be16_de16: "be16 (de16 a b) = [a, b]"
  by (auto simp: be16_def de16_def bit_eq_iff bit_simps dest: bit_imp_le_length)

lemma de16_be16_nth [simp]: "de16 (be16 w ! 0) (be16 w ! Suc 0) = w"
  by (simp add: be16_def)

lemma length_be16 [simp, wire]: "length (be16 w) = 2"
  by (simp add: be16_def)

lemma length_be64 [simp, wire]: "length (be64 w) = 8"
  by (simp add: be64_def)

lemma unat_byte_less: "unat (b :: byte) < 256"
  using unsigned_less [of b] by simp

lemma unat_u16_less: "unat (w :: u16) < 65536"
  using unsigned_less [of w] by simp

lemma unat_ucast_16: "unat (ucast (a :: byte) :: u16) = unat a"
  using unat_byte_less [of a] by (simp add: unsigned_ucast_eq take_bit_nat_eq_self)

lemma unat_de16: "unat (de16 a b) = 256 * unat a + unat b"
proof -
  have a: "unat (ucast a :: u16) = unat a" and b: "unat (ucast b :: u16) = unat b"
    by (simp_all add: unat_ucast_16)
  have "de16 a b = push_bit 8 (ucast a) + (ucast b :: u16)"
    unfolding de16_def
    by (rule disjunctive_add [symmetric]) (auto simp: bit_simps dest: bit_imp_le_length)
  moreover have "unat (push_bit 8 (ucast a) :: u16) = 256 * unat a"
    using a unat_byte_less [of a]
    by (simp add: push_bit_eq_mult unat_word_ariths)
  ultimately show ?thesis
    using b unat_byte_less [of a] unat_byte_less [of b]
    by (simp add: unat_word_ariths)
qed

text \<open>Go strings are byte strings; the model writes them as HOL strings.\<close>

definition byte_of :: "char \<Rightarrow> byte" where
  "byte_of c = word_of_nat (of_char c)"

definition char_at :: "byte \<Rightarrow> char" where
  "char_at b = char_of (unat b)"

definition str_bytes :: "string \<Rightarrow> bytes" where
  "str_bytes s = map byte_of s"

definition bytes_str :: "bytes \<Rightarrow> string" where
  "bytes_str bs = map char_at bs"

lemma of_char_less_256: "(of_char c :: nat) < 256"
  by (cases c) (simp split: bool.split)

lemma char_at_byte_of [simp]: "char_at (byte_of c) = c"
  by (simp add: char_at_def byte_of_def unat_of_nat of_char_less_256)

lemma byte_of_char_at [simp]: "byte_of (char_at b) = b"
  using unat_byte_less [of b] by (simp add: char_at_def byte_of_def)

lemma bytes_str_str_bytes [simp]: "bytes_str (str_bytes s) = s"
  by (simp add: bytes_str_def str_bytes_def comp_def)

lemma str_bytes_bytes_str [simp]: "str_bytes (bytes_str b) = b"
  by (simp add: bytes_str_def str_bytes_def comp_def)

lemma length_str_bytes [simp]: "length (str_bytes s) = length s"
  by (simp add: str_bytes_def)

lemma length_bytes_str [simp]: "length (bytes_str b) = length b"
  by (simp add: bytes_str_def)

lemma str_bytes_inj [simp]: "str_bytes s = str_bytes t \<longleftrightarrow> s = t"
  by (metis bytes_str_str_bytes)

lemma bytes_str_inj [simp]: "bytes_str s = bytes_str t \<longleftrightarrow> s = t"
  by (metis str_bytes_bytes_str)

definition slice :: "'a list \<Rightarrow> nat \<Rightarrow> nat \<Rightarrow> 'a list" where
  \<comment> \<open>Go's \<open>xs[i:j]\<close> for \<open>i <= j <= len(xs)\<close>\<close>
  "slice xs i j = take (j - i) (drop i xs)"

lemma length_slice [simp]: "j \<le> length xs \<Longrightarrow> length (slice xs i j) = j - i"
  by (simp add: slice_def)

lemma slice_append_drop: "i \<le> j \<Longrightarrow> slice xs i j @ drop j xs = drop i xs"
  by (simp add: slice_def) (metis append_take_drop_id drop_drop le_add_diff_inverse2)

section \<open>Computations with a state and an error\<close>

definition ebind :: "('s \<Rightarrow> ('e + 'a) \<times> 's) \<Rightarrow> ('a \<Rightarrow> 's \<Rightarrow> ('e + 'b) \<times> 's) \<Rightarrow> 's \<Rightarrow> ('e + 'b) \<times> 's" where
  "ebind m f s = (case m s of (Inl e, s') \<Rightarrow> (Inl e, s') | (Inr a, s') \<Rightarrow> f a s')"

lemma ebind_Inr: "m s = (Inr a, s') \<Longrightarrow> ebind m f s = f a s'"
  by (simp add: ebind_def)

lemma ebind_Inl: "m s = (Inl e, s') \<Longrightarrow> ebind m f s = (Inl e, s')"
  by (simp add: ebind_def)

lemma ebind_eq_Inr:
  "ebind m f s = (Inr b, t) \<longleftrightarrow> (\<exists>a s'. m s = (Inr a, s') \<and> f a s' = (Inr b, t))"
  by (auto simp: ebind_def split: prod.splits sum.splits)

text \<open>The same without a state.\<close>

definition sbind :: "'e + 'a \<Rightarrow> ('a \<Rightarrow> 'e + 'b) \<Rightarrow> 'e + 'b" where
  "sbind m f = (case m of Inl e \<Rightarrow> Inl e | Inr a \<Rightarrow> f a)"

lemma sbind_simps [simp]: "sbind (Inl e) f = Inl e" "sbind (Inr a) f = f a"
  by (simp_all add: sbind_def)

lemma sbind_cong [fundef_cong]:
  "m = m' \<Longrightarrow> (\<And>a. m' = Inr a \<Longrightarrow> f a = g a) \<Longrightarrow> sbind m f = sbind m' g"
  by (cases m') auto

lemma sbind_eq_Inr: "sbind m f = Inr b \<longleftrightarrow> (\<exists>a. m = Inr a \<and> f a = Inr b)"
  by (cases m) auto

lemma sbind_eq_Inl: "sbind m f = Inl e \<longleftrightarrow> m = Inl e \<or> (\<exists>a. m = Inr a \<and> f a = Inl e)"
  by (cases m) auto

section \<open>The input side of a connection\<close>

datatype io_err = EOF | UnexpectedEOF | ErrShortWrite | SysErr nat

text \<open>
  Everything the peer will ever deliver, and the error every read meets after that
  (\<open>EOF\<close> for an orderly close, a timeout or reset otherwise).
\<close>

record source =
  src_data :: bytes
  src_end :: io_err

definition readFull :: "nat \<Rightarrow> source \<Rightarrow> (io_err + bytes) \<times> source" where
  \<comment> \<open>\<open>io.ReadFull\<close> into a buffer of \<open>n\<close> bytes\<close>
  "readFull n s =
     (if n \<le> length (src_data s)
      then (Inr (take n (src_data s)), s\<lparr>src_data := drop n (src_data s)\<rparr>)
      else (Inl (if src_end s = EOF \<and> src_data s \<noteq> [] then UnexpectedEOF else src_end s),
            s\<lparr>src_data := []\<rparr>))"

lemma readFull_append [simp]:
  "length a = n \<Longrightarrow> readFull n \<lparr>src_data = a @ b, src_end = e\<rparr> = (Inr a, \<lparr>src_data = b, src_end = e\<rparr>)"
  by (simp add: readFull_def)

lemma readFull_append' [simp]:
  "readFull (length a) \<lparr>src_data = a @ b, src_end = e\<rparr> = (Inr a, \<lparr>src_data = b, src_end = e\<rparr>)"
  by (rule readFull_append) simp

lemma readFull_InrD:
  "readFull n s = (Inr d, s') \<Longrightarrow> src_data s = d @ src_data s' \<and> length d = n \<and> src_end s' = src_end s"
  by (auto simp: readFull_def split: if_splits)

lemma readFull_shrinks: "length (src_data (snd (readFull n s))) \<le> length (src_data s)"
  by (simp add: readFull_def)

section \<open>The output side of a connection\<close>

text \<open>
  What each coming \<open>Write\<close> call does: accept (at most) \<open>n\<close> bytes, or fail after \<open>n\<close> bytes.
  With an empty script every write is accepted whole.
\<close>

datatype wr_outcome = Accept nat | Fail nat io_err

record sink =
  snk_data :: bytes
  snk_script :: "wr_outcome list"

definition conn_write :: "bytes \<Rightarrow> sink \<Rightarrow> (io_err + nat) \<times> sink" where
  "conn_write b s =
     (case snk_script s of
        [] \<Rightarrow> (Inr (length b), s\<lparr>snk_data := snk_data s @ b\<rparr>)
      | Accept n # t \<Rightarrow>
          (Inr (min n (length b)), s\<lparr>snk_data := snk_data s @ take n b, snk_script := t\<rparr>)
      | Fail n e # t \<Rightarrow>
          (Inl e, s\<lparr>snk_data := snk_data s @ take n b, snk_script := t\<rparr>))"

lemma conn_write_prefix:
  "conn_write b s = (r, s') \<Longrightarrow>
     \<exists>k \<le> length b. snk_data s' = snk_data s @ take k b \<and> (\<forall>n. r = Inr n \<longrightarrow> n = k)"
proof -
  assume a: "conn_write b s = (r, s')"
  show ?thesis
  proof (cases "snk_script s")
    case Nil
    with a show ?thesis by (intro exI [of _ "length b"]) (auto simp: conn_write_def)
  next
    case (Cons x t)
    show ?thesis
    proof (cases x)
      case (Accept n)
      with Cons a show ?thesis
        by (intro exI [of _ "min n (length b)"]) (auto simp: conn_write_def min_def)
    next
      case (Fail n e)
      with Cons a show ?thesis
        by (intro exI [of _ "min n (length b)"]) (auto simp: conn_write_def min_def)
    qed
  qed
qed

section \<open>Interfaces\<close>

text \<open>
  A wire format: what the encoder writes, the decoder reads back, and it leaves what
  follows untouched.
\<close>

locale codec =
  fixes enc :: "'a \<Rightarrow> bytes"
    and dec :: "bytes \<Rightarrow> ('a \<times> bytes) option"
    and ok :: "'a \<Rightarrow> bool"
  assumes dec_enc: "ok x \<Longrightarrow> dec (enc x @ rest) = Some (x, rest)"
begin

lemma dec_enc_all: "ok x \<Longrightarrow> dec (enc x) = Some (x, [])"
  using dec_enc [of x "[]"] by simp

lemma enc_unique:
  assumes "ok x" and "ok y" and "enc x @ r = enc y @ s"
  shows "x = y \<and> r = s"
  using dec_enc [OF assms(1), of r] dec_enc [OF assms(2), of s] assms(3)
  by (metis option.inject prod.inject)

lemma enc_inj: "ok x \<Longrightarrow> ok y \<Longrightarrow> enc x = enc y \<Longrightarrow> x = y"
  by (metis dec_enc_all option.inject prod.inject)

end

fun dec_many :: "(bytes \<Rightarrow> ('a \<times> bytes) option) \<Rightarrow> nat \<Rightarrow> bytes \<Rightarrow> ('a list \<times> bytes) option" where
  "dec_many d 0 bs = Some ([], bs)"
| "dec_many d (Suc n) bs =
     (case d bs of
        None \<Rightarrow> None
      | Some (x, r) \<Rightarrow> map_option (\<lambda>(xs, r'). (x # xs, r')) (dec_many d n r))"

context codec begin

lemma dec_many_enc:
  "list_all ok xs \<Longrightarrow> dec_many dec (length xs) (concat (map enc xs) @ rest) = Some (xs, rest)"
  by (induction xs) (simp_all add: dec_enc)

end

text \<open>
  A buffered reader: \<open>read k\<close> hands out some of the bytes still to come, in order and
  without loss, and an error leaves what is to come as it was.
\<close>

locale byte_source =
  fixes read :: "nat \<Rightarrow> 's \<Rightarrow> ('e + bytes) \<times> 's"
    and pending :: "'s \<Rightarrow> bytes"
  assumes read_data: "read k s = (Inr d, s') \<Longrightarrow> pending s = d @ pending s' \<and> length d \<le> k"
    and read_err: "read k s = (Inl e, s') \<Longrightarrow> pending s = []"

fun reads :: "(nat \<Rightarrow> 's \<Rightarrow> ('e + bytes) \<times> 's) \<Rightarrow> nat list \<Rightarrow> 's \<Rightarrow> bytes \<times> 's" where
  \<comment> \<open>a caller that reads into buffers of the given sizes and stops at the first error\<close>
  "reads rd [] s = ([], s)"
| "reads rd (k # ks) s =
     (case rd k s of
        (Inl e, s') \<Rightarrow> ([], s')
      | (Inr d, s') \<Rightarrow> (case reads rd ks s' of (ds, t) \<Rightarrow> (d @ ds, t)))"

context byte_source begin

lemma reads_prefix: "reads read ks s = (d, t) \<Longrightarrow> \<exists>r. pending s = d @ r"
proof (induction ks arbitrary: s d t)
  case Nil
  then show ?case by simp
next
  case (Cons k ks)
  show ?case
  proof (cases "read k s")
    case (Pair r s')
    show ?thesis
    proof (cases r)
      case (Inl e)
      with Pair Cons.prems show ?thesis by simp
    next
      case (Inr d1)
      with Pair have p: "pending s = d1 @ pending s'" by (simp add: read_data)
      obtain d2 t' where d2: "reads read ks s' = (d2, t')" by (cases "reads read ks s'")
      from Cons.IH [OF this] obtain r' where "pending s' = d2 @ r'" by blast
      with p d2 Cons.prems Pair Inr show ?thesis by auto
    qed
  qed
qed

end

text \<open>
  A component whose operations interleave: a start state, its steps, and an invariant that the
  start satisfies and every step keeps. Clients get the invariant of every reachable state.
\<close>

locale state_machine =
  fixes start :: 's
    and step :: "'s \<Rightarrow> 's \<Rightarrow> bool"
    and inv :: "'s \<Rightarrow> bool"
  assumes inv_start: "inv start"
    and inv_step: "step s t \<Longrightarrow> inv s \<Longrightarrow> inv t"
begin

lemma reachable: "step\<^sup>*\<^sup>* start s \<Longrightarrow> inv s"
  by (induction rule: rtranclp_induct) (auto intro: inv_start inv_step)

end

end
