(* ===== verification/Crypto.thy ===== *)
theory Crypto
  imports Complex_Main Prelude
begin

text \<open>
  The cryptographic layer under Snell v4: the primitives the code calls (parameters of the
  model, collected in one record), the nonce counter, the identity prefixes of
  \<open>internal/identity\<close>, and the padding that disguises a first frame
  (\<open>swapPadding\<close>, \<open>makePadding\<close>, \<open>bitCountPadding\<close> of \<open>internal/snell/v4.go\<close>).
\<close>

section \<open>Primitives\<close>

text \<open>
  \<open>gcmSeal key nonce plain\<close> and \<open>gcmOpen key nonce cipher\<close> are AES-GCM without associated
  data, \<open>argon2id psk salt\<close> is the 32-byte \<open>argon2.IDKey\<close>, and \<open>flround\<close> rounds an exact
  number to the \<open>float64\<close> that arithmetic on it yields.
\<close>

record prims =
  sha256 :: "bytes \<Rightarrow> bytes"
  hmac256 :: "bytes \<Rightarrow> bytes \<Rightarrow> bytes"
  blake3_512 :: "bytes \<Rightarrow> bytes"
  argon2id :: "bytes \<Rightarrow> bytes \<Rightarrow> bytes"
  gcmSeal :: "bytes \<Rightarrow> bytes \<Rightarrow> bytes \<Rightarrow> bytes"
  gcmOpen :: "bytes \<Rightarrow> bytes \<Rightarrow> bytes \<Rightarrow> bytes option"
  flround :: "rat \<Rightarrow> rat"

definition aead_ok :: "prims \<Rightarrow> bool" where
  \<comment> \<open>what the code relies on: opening undoes sealing, and the tag has 16 bytes\<close>
  "aead_ok P \<longleftrightarrow>
     (\<forall>k n p. gcmOpen P k n (gcmSeal P k n p) = Some p \<and> length (gcmSeal P k n p) = length p + 16)"

definition digest_ok :: "prims \<Rightarrow> bool" where
  "digest_ok P \<longleftrightarrow> (\<forall>k m. length (hmac256 P k m) = 32) \<and> (\<forall>m. length (blake3_512 P m) = 64)"

lemma gcmOpen_Seal [simp]: "aead_ok P \<Longrightarrow> gcmOpen P k n (gcmSeal P k n p) = Some p"
  by (simp add: aead_ok_def)

lemma length_gcmSeal [simp]: "aead_ok P \<Longrightarrow> length (gcmSeal P k n p) = length p + 16"
  by (simp add: aead_ok_def)

definition kdf :: "prims \<Rightarrow> bytes \<Rightarrow> bytes \<Rightarrow> bytes" where
  "kdf P psk salt = take 16 (argon2id P psk salt)"

section \<open>The nonce counter\<close>

fun incNonce :: "bytes \<Rightarrow> bytes" where
  "incNonce [] = []"
| "incNonce (b # bs) = (let b' = b + 1 in if b' \<noteq> 0 then b' # bs else b' # incNonce bs)"

fun le_val :: "bytes \<Rightarrow> nat" where
  \<comment> \<open>the number a nonce stands for: little endian\<close>
  "le_val [] = 0"
| "le_val (b # bs) = unat b + 256 * le_val bs"

lemma length_incNonce [simp]: "length (incNonce n) = length n"
  by (induction n rule: incNonce.induct) (simp_all add: Let_def)

lemma length_incNonce_pow [simp]: "length ((incNonce ^^ k) n) = length n"
  by (induction k) simp_all

lemma le_val_less: "le_val n < 256 ^ length n"
proof (induction n)
  case Nil
  then show ?case by simp
next
  case (Cons b n)
  then show ?case using unat_byte_less [of b] by simp
qed

lemma unat_succ_byte: "unat (b + 1 :: byte) = (if b + 1 = 0 then 0 else unat b + 1)"
proof (cases "b + 1 = 0")
  case False
  then have "unat (1 + b) = Suc (unat b)" by (simp add: unatSuc add.commute)
  with False show ?thesis by (simp add: add.commute)
qed simp

lemma succ_byte_zero: "b + 1 = (0 :: byte) \<Longrightarrow> unat b = 255"
proof -
  assume "b + 1 = 0"
  have "b = (b + 1) - 1" by simp
  also have "\<dots> = 255" unfolding \<open>b + 1 = 0\<close> by simp
  finally show ?thesis by simp
qed

lemma le_val_incNonce: "le_val (incNonce n) = (le_val n + 1) mod 256 ^ length n"
proof (induction n)
  case Nil
  then show ?case by simp
next
  case (Cons b n)
  show ?case
  proof (cases "b + 1 = 0")
    case True
    then have b: "unat b = 255" by (rule succ_byte_zero)
    have "le_val (incNonce (b # n)) = 256 * ((le_val n + 1) mod 256 ^ length n)"
      using True Cons by simp
    also have "\<dots> = (256 * (le_val n + 1)) mod (256 * 256 ^ length n)"
      by (rule mult_mod_right)
    also have "256 * (le_val n + 1) = le_val (b # n) + 1" using b by simp
    finally show ?thesis by simp
  next
    case False
    have "unat (b + 1) < 256" by (rule unat_byte_less)
    moreover have "le_val n < 256 ^ length n" by (rule le_val_less)
    ultimately show ?thesis using False by (simp add: unat_succ_byte Let_def)
  qed
qed

lemma digit_unique:
  fixes a b x y :: nat
  assumes "a < 256" and "b < 256" and "a + 256 * x = b + 256 * y"
  shows "a = b \<and> x = y"
proof -
  from assms(3) have "(a + 256 * x) mod 256 = (b + 256 * y) mod 256" by simp
  with assms(1,2) have "a = b" by simp
  with assms(3) show ?thesis by simp
qed

lemma le_val_inj: "length m = length n \<Longrightarrow> le_val m = le_val n \<Longrightarrow> m = n"
proof (induction m n rule: list_induct2)
  case Nil
  then show ?case by simp
next
  case (Cons a m b n)
  have "unat a < 256" and "unat b < 256" by (rule unat_byte_less)+
  moreover have "unat a + 256 * le_val m = unat b + 256 * le_val n"
    using Cons.prems by simp
  ultimately have "unat a = unat b \<and> le_val m = le_val n" by (rule digit_unique)
  with Cons.IH show ?case by (simp add: unsigned_word_eqI)
qed

lemma le_val_incNonce_pow: "le_val ((incNonce ^^ k) n) = (le_val n + k) mod 256 ^ length n"
proof (induction k)
  case 0
  then show ?case using le_val_less [of n] by simp
next
  case (Suc k)
  then show ?case by (simp add: le_val_incNonce mod_Suc_eq)
qed

lemma mod_add_left_cancel:
  fixes a i j m :: nat
  shows "(a + i) mod m = (a + j) mod m \<Longrightarrow> i mod m = j mod m"
  by (auto simp: nat_mod_eq_iff add.assoc)

text \<open>
  C10. AES-GCM loses its guarantees when a nonce repeats under one key. Counting from any
  12-byte nonce, two different numbers of increments below 2^96 never give the same nonce:
  \<open>incNonce\<close> repeats only after all 2^96 values.
\<close>

theorem incNonce_no_reuse:
  assumes "length n = 12" and "i < 2 ^ 96" and "j < 2 ^ 96" and "i \<noteq> j"
  shows "(incNonce ^^ i) n \<noteq> (incNonce ^^ j) n"
proof
  assume "(incNonce ^^ i) n = (incNonce ^^ j) n"
  then have "le_val ((incNonce ^^ i) n) = le_val ((incNonce ^^ j) n)" by simp
  then have "(le_val n + i) mod 2 ^ 96 = (le_val n + j) mod 2 ^ 96"
    using assms(1) by (simp add: le_val_incNonce_pow)
  then have "i mod 2 ^ 96 = j mod 2 ^ 96" by (rule mod_add_left_cancel)
  then show False using assms(2-4) by simp
qed

theorem incNonce_no_reuse_witness:
  "(incNonce ^^ 255) (replicate 12 0) \<noteq> (incNonce ^^ 256) (replicate 12 0)"
  using incNonce_no_reuse [of "replicate 12 0" 255 256] by simp

section \<open>Identity prefixes (\<open>internal/identity\<close>)\<close>

definition AuthRootLabel :: string where "AuthRootLabel = ''oix/snell-ech/2/auth-root''"
definition IdentityInfo :: string where "IdentityInfo = ''identity''"
definition AuthInfo :: string where "AuthInfo = ''authentication''"
definition MagicV1 :: string where "MagicV1 = ''DLSNID01''"
definition MagicV2 :: string where "MagicV2 = ''DLSNID02''"

abbreviation (input) ExporterSize :: nat where "ExporterSize \<equiv> 32"
abbreviation (input) SaltSize :: nat where "SaltSize \<equiv> 16"
abbreviation (input) HeaderSize :: nat where "HeaderSize \<equiv> 16"
abbreviation (input) TagSize :: nat where "TagSize \<equiv> 16"

definition V1PrefixSize :: nat where "V1PrefixSize = 8 + HeaderSize"
definition V2PrefixSize :: nat where "V2PrefixSize = 8 + HeaderSize + TagSize"

datatype ident_err = PskEmpty | ExporterLength nat | SaltLength nat

definition identityV2Root :: "prims \<Rightarrow> bytes \<Rightarrow> bytes" where
  "identityV2Root P psk = hmac256 P (sha256 P (str_bytes AuthRootLabel)) psk"

definition identityV2Expand :: "prims \<Rightarrow> bytes \<Rightarrow> string \<Rightarrow> bytes" where
  "identityV2Expand P rootKey info = hmac256 P rootKey (str_bytes info @ [1])"

definition HeaderFromPSK :: "prims \<Rightarrow> bytes \<Rightarrow> bytes" where
  "HeaderFromPSK P psk = take HeaderSize (identityV2Expand P (identityV2Root P psk) IdentityInfo)"

definition AuthTag :: "prims \<Rightarrow> bytes \<Rightarrow> bytes \<Rightarrow> bytes \<Rightarrow> ident_err + bytes" where
  "AuthTag P psk exporter salt =
     (if psk = [] then Inl PskEmpty
      else if length exporter \<noteq> ExporterSize then Inl (ExporterLength (length exporter))
      else if length salt \<noteq> SaltSize then Inl (SaltLength (length salt))
      else
        let macKey = identityV2Expand P (identityV2Root P psk) AuthInfo
        in Inr (take TagSize (hmac256 P macKey
                  (str_bytes MagicV2 @ exporter @ salt @ HeaderFromPSK P psk))))"

definition PrefixV2 :: "prims \<Rightarrow> bytes \<Rightarrow> bytes \<Rightarrow> bytes \<Rightarrow> ident_err + bytes" where
  "PrefixV2 P psk exporter salt =
     (case AuthTag P psk exporter salt of
        Inl e \<Rightarrow> Inl e
      | Inr tag \<Rightarrow> Inr (str_bytes MagicV2 @ HeaderFromPSK P psk @ tag))"

definition PrefixV1 :: "prims \<Rightarrow> bytes \<Rightarrow> bytes" where
  "PrefixV1 P psk = str_bytes MagicV1 @ take HeaderSize (blake3_512 P psk)"

lemma length_HeaderFromPSK [simp]: "digest_ok P \<Longrightarrow> length (HeaderFromPSK P psk) = 16"
  by (simp add: HeaderFromPSK_def identityV2Expand_def digest_ok_def)

lemma length_PrefixV1: "digest_ok P \<Longrightarrow> length (PrefixV1 P psk) = V1PrefixSize"
  by (simp add: PrefixV1_def MagicV1_def V1PrefixSize_def digest_ok_def)

lemma length_PrefixV2:
  "digest_ok P \<Longrightarrow> PrefixV2 P psk ex salt = Inr pre \<Longrightarrow> length pre = V2PrefixSize"
  by (auto simp: PrefixV2_def AuthTag_def MagicV2_def V2PrefixSize_def digest_ok_def Let_def
      split: if_splits sum.splits)

lemma PrefixV2_Inr_iff:
  "(\<exists>pre. PrefixV2 P psk ex salt = Inr pre) \<longleftrightarrow> psk \<noteq> [] \<and> length ex = 32 \<and> length salt = 16"
  by (auto simp: PrefixV2_def AuthTag_def Let_def split: if_splits sum.splits)

section \<open>Interleaving padding and ciphertext\<close>

function swapFrom :: "nat \<Rightarrow> nat \<Rightarrow> bytes \<Rightarrow> bytes \<Rightarrow> bytes \<times> bytes" where
  "swapFrom i limit padding payloadCipher =
     (if i < limit
      then swapFrom (i + 2) limit (padding[i := payloadCipher ! i]) (payloadCipher[i := padding ! i])
      else (padding, payloadCipher))"
  by pat_completeness auto
termination
  by (relation "measure (\<lambda>(i, limit, _). limit - i)") auto

declare swapFrom.simps [simp del]

definition swapPadding :: "bytes \<Rightarrow> bytes \<Rightarrow> bytes \<times> bytes" where
  "swapPadding padding payloadCipher =
     swapFrom 0 (if length payloadCipher < length padding then length payloadCipher
                 else length padding) padding payloadCipher"

definition picks :: "nat \<Rightarrow> nat \<Rightarrow> nat \<Rightarrow> bytes \<Rightarrow> bytes \<Rightarrow> bytes" where
  \<comment> \<open>\<open>p\<close> with every second byte of \<open>[i, limit)\<close> taken from \<open>c\<close>\<close>
  "picks i limit n p c =
     map (\<lambda>j. if i \<le> j \<and> j < limit \<and> even (j - i) then c ! j else p ! j) [0..<n]"

lemma picks_done: "limit \<le> i \<Longrightarrow> picks i limit (length p) p c = p"
  by (auto simp: picks_def intro!: nth_equalityI)

lemma picks_step:
  assumes "i < limit" and "limit \<le> length p" and "limit \<le> length c"
  shows "picks (i + 2) limit (length p) (p[i := c ! i]) (c[i := p ! i]) = picks i limit (length p) p c"
proof (rule nth_equalityI)
  show "length (picks (i + 2) limit (length p) (p[i := c ! i]) (c[i := p ! i]))
        = length (picks i limit (length p) p c)"
    by (simp add: picks_def)
next
  fix j
  assume "j < length (picks (i + 2) limit (length p) (p[i := c ! i]) (c[i := p ! i]))"
  then have j: "j < length p" by (simp add: picks_def)
  consider "j < i" | "j = i" | "j = i + 1" | "i + 2 \<le> j" by linarith
  then show "picks (i + 2) limit (length p) (p[i := c ! i]) (c[i := p ! i]) ! j
             = picks i limit (length p) p c ! j"
    by cases (use j assms in \<open>auto simp: picks_def nth_list_update\<close>)
qed

lemma swapFrom_eq_picks:
  "limit \<le> length p \<Longrightarrow> limit \<le> length c \<Longrightarrow>
     swapFrom i limit p c = (picks i limit (length p) p c, picks i limit (length c) c p)"
proof (induction i limit p c rule: swapFrom.induct)
  case (1 i limit p c)
  show ?case
  proof (cases "i < limit")
    case True
    have "swapFrom i limit p c = swapFrom (i + 2) limit (p[i := c ! i]) (c[i := p ! i])"
      using True by (simp only: swapFrom.simps [of i limit p c] if_True)
    also have "\<dots> = (picks (i + 2) limit (length p) (p[i := c ! i]) (c[i := p ! i]),
                     picks (i + 2) limit (length c) (c[i := p ! i]) (p[i := c ! i]))"
      using 1 True by simp
    finally show ?thesis
      using 1 True picks_step [of i limit p c] picks_step [of i limit c p] by (simp only:)
  next
    case False
    then show ?thesis by (simp add: swapFrom.simps [of i limit p c] picks_done)
  qed
qed

lemma swapPadding_eq:
  "swapPadding p c = (picks 0 (min (length p) (length c)) (length p) p c,
                      picks 0 (min (length p) (length c)) (length c) c p)"
proof -
  have "(if length c < length p then length c else length p) = min (length p) (length c)" by simp
  then show ?thesis by (simp add: swapPadding_def swapFrom_eq_picks)
qed

lemma length_picks [simp]: "length (picks i l n p c) = n"
  by (simp add: picks_def)

lemma length_swapPadding [simp]:
  "length (fst (swapPadding p c)) = length p" "length (snd (swapPadding p c)) = length c"
  by (simp_all add: swapPadding_eq)

lemma picks_picks:
  "length p = n \<Longrightarrow> limit \<le> n \<Longrightarrow> limit \<le> m \<Longrightarrow>
     picks i limit n (picks i limit n p c) (picks i limit m c p) = p"
  by (rule nth_equalityI) (auto simp: picks_def)

lemma swapPadding_involution_fact:
  "swapPadding (fst (swapPadding p c)) (snd (swapPadding p c)) = (p, c)"
  by (simp add: swapPadding_eq picks_picks min.commute)

text \<open>
  The interleaving that hides the ciphertext behind the padding is an involution: the
  reader's \<open>swapPadding\<close> on what the writer's \<open>swapPadding\<close> produced restores padding and
  ciphertext, whatever their lengths.
\<close>

theorem swapPadding_involution:
  "swapPadding (fst (swapPadding p c)) (snd (swapPadding p c)) = (p, c)"
  by (rule swapPadding_involution_fact)

section \<open>Generating the padding\<close>

text \<open>
  Every random draw the code makes consumes one number of the entropy list: \<open>randInt m\<close>
  is uniform below \<open>m\<close>, a random byte is a draw modulo 256, and an empty list is a failing
  \<open>crypto/rand\<close>.
\<close>

type_synonym entropy = "nat list"

definition randInt :: "nat \<Rightarrow> entropy \<Rightarrow> (nat \<times> entropy) option" where
  "randInt m ds =
     (if m \<le> 0 then Some (0, ds)
      else case ds of [] \<Rightarrow> None | d # ds' \<Rightarrow> Some (d mod m, ds'))"

definition randUnit :: "entropy \<Rightarrow> (rat \<times> entropy) option" where
  "randUnit ds = map_option (\<lambda>(n, ds'). (of_nat n / 2 ^ 53, ds')) (randInt (2 ^ 53) ds)"

definition randomBytes :: "nat \<Rightarrow> entropy \<Rightarrow> (bytes \<times> entropy) option" where
  "randomBytes n ds =
     (if length ds < n then None else Some (map word_of_nat (take n ds), drop n ds))"

fun shuffleBits :: "nat \<Rightarrow> bool list \<Rightarrow> entropy \<Rightarrow> (bool list \<times> entropy) option" where
  \<comment> \<open>the loop \<open>for i := total - 1; i > 0; i--\<close> of \<open>bitCountPadding\<close>\<close>
  "shuffleBits 0 bits ds = Some (bits, ds)"
| "shuffleBits (Suc i) bits ds =
     (case randInt (Suc i + 1) ds of
        None \<Rightarrow> None
      | Some (j, ds') \<Rightarrow> shuffleBits i (bits[Suc i := bits ! j, j := bits ! Suc i]) ds')"

fun packBits :: "nat \<Rightarrow> bool list \<Rightarrow> bytes \<Rightarrow> bytes" where
  \<comment> \<open>the loop \<open>for i, bit := range bits { if bit == 1 { out[i/8] |= 1 << uint(i%8) } }\<close>\<close>
  "packBits i [] out = out"
| "packBits i (b # bits) out =
     packBits (Suc i) bits
       (if b then out[i div 8 := out ! (i div 8) OR push_bit (i mod 8) 1] else out)"

definition bitCountPadding :: "nat \<Rightarrow> nat \<Rightarrow> entropy \<Rightarrow> (bytes \<times> entropy) option" where
  "bitCountPadding len oneBits ds =
     (let total = 8 * len; bits = map (\<lambda>i. i < oneBits) [0..<total] in
      case shuffleBits (total - 1) bits ds of
        None \<Rightarrow> None
      | Some (bits', ds') \<Rightarrow> Some (packBits 0 bits' (replicate len 0), ds'))"

definition onesCount8 :: "byte \<Rightarrow> nat" where
  "onesCount8 b = length (filter (bit b) [0..<8])"

definition trunc_int :: "rat \<Rightarrow> int" where
  \<comment> \<open>Go's \<open>int(x)\<close> of a float: towards zero\<close>
  "trunc_int x = (if x < 0 then - \<lfloor>- x\<rfloor> else \<lfloor>x\<rfloor>)"

definition lopsided :: "prims \<Rightarrow> nat \<Rightarrow> int \<Rightarrow> bool" where
  \<comment> \<open>\<open>ratio <= 0.5 || ratio >= 1.6\<close>\<close>
  "lopsided P ones zeros =
     (let ratio = flround P (of_nat ones / of_int zeros)
      in ratio \<le> flround P (1/2) \<or> flround P (8/5) \<le> ratio)"

definition targetOnes :: "prims \<Rightarrow> nat \<Rightarrow> int \<Rightarrow> nat \<Rightarrow> rat \<Rightarrow> int" where
  "targetOnes P ones zeros totalBits j =
     (let fl = flround P;
          targetBase = (if zeros < int ones then fl (2/5) else fl (8/5));
          target = fl (targetBase + fl (j / 10))
      in trunc_int (fl (fl (of_nat totalBits * fl (target / fl (target + 1))) - of_nat ones)))"

definition makePadding :: "prims \<Rightarrow> bytes \<Rightarrow> nat \<Rightarrow> entropy \<Rightarrow> (bytes \<times> entropy) option" where
  "makePadding P payloadCipher n ds =
     (if n \<le> 0 then Some ([], ds)
      else
        let limit = length payloadCipher - length payloadCipher mod 4;
            ones = sum_list (map onesCount8 (take limit payloadCipher));
            zeros = 8 * int (length payloadCipher) - int ones
        in if zeros \<le> 0 then randomBytes n ds
        else if lopsided P ones zeros then randomBytes n ds
        else
          case randUnit ds of
            None \<Rightarrow> None
          | Some (j, ds') \<Rightarrow>
              let want = targetOnes P ones zeros (8 * (n + length payloadCipher)) j
              in if want < 0 \<or> 8 * int n < want then randomBytes n ds'
                 else bitCountPadding n (nat want) ds')"

lemma length_packBits [simp]: "length (packBits i bits out) = length out"
  by (induction i bits out rule: packBits.induct) simp_all

lemma length_randomBytes: "randomBytes n ds = Some (p, ds') \<Longrightarrow> length p = n"
  by (auto simp: randomBytes_def split: if_splits)

lemma length_bitCountPadding: "bitCountPadding n k ds = Some (p, ds') \<Longrightarrow> length p = n"
  by (auto simp: bitCountPadding_def Let_def split: option.splits)

lemma length_makePadding: "makePadding P c n ds = Some (p, ds') \<Longrightarrow> length p = n"
  by (auto simp: makePadding_def Let_def split: if_splits option.splits
      dest: length_randomBytes length_bitCountPadding)

text \<open>With eight draws per padding byte and one more the padding is always found.\<close>

lemma shuffleBits_total: "i \<le> length ds \<Longrightarrow> \<exists>r. shuffleBits i bits ds = Some r"
proof (induction i arbitrary: bits ds)
  case 0
  then show ?case by simp
next
  case (Suc i)
  from Suc.prems obtain d ds' where "ds = d # ds'" "i \<le> length ds'" by (cases ds) auto
  with Suc.IH show ?case by (simp add: randInt_def)
qed

lemma makePadding_total:
  "8 * n + 1 \<le> length ds \<Longrightarrow> \<exists>r. makePadding P c n ds = Some r"
proof -
  assume l: "8 * n + 1 \<le> length ds"
  have rb: "\<exists>r. randomBytes n d = Some r" if "n \<le> length d" for d
    using that by (simp add: randomBytes_def)
  have bc: "\<exists>r. bitCountPadding n k d = Some r" if "8 * n \<le> length d" for k d
  proof -
    have "8 * n - 1 \<le> length d" using that by simp
    from shuffleBits_total [OF this, of "map (\<lambda>i. i < k) [0..<8 * n]"]
    obtain bs d' where "shuffleBits (8 * n - 1) (map (\<lambda>i. i < k) [0..<8 * n]) d = Some (bs, d')" by auto
    then show ?thesis by (simp add: bitCountPadding_def Let_def)
  qed
  obtain d ds' where ds: "ds = d # ds'" "8 * n \<le> length ds'" using l by (cases ds) auto
  then have "randUnit ds = Some (of_nat (d mod 2 ^ 53) / 2 ^ 53, ds')" by (simp add: randUnit_def randInt_def)
  then show ?thesis
    using rb [of ds] rb [of ds'] bc [of ds'] ds
    by (auto simp: makePadding_def Let_def)
qed

end
