(* ===== verification/Snell_Frame.thy ===== *)
theory Snell_Frame
  imports Crypto
begin

text \<open>
  The frames of the Snell v4 stream (\<open>internal/snell/v4.go\<close>): constants, errors, the sealed 7-byte
  header, and the reader \<open>v4Reader\<close>, which opens frames, undoes the padding and hands out the
  plaintext as a buffered byte source.
\<close>

section \<open>Constants, errors and the frame header\<close>

abbreviation (input) cmdPing :: byte where "cmdPing \<equiv> 0"
abbreviation (input) cmdConnect :: byte where "cmdConnect \<equiv> 1"
abbreviation (input) cmdConnectV2 :: byte where "cmdConnectV2 \<equiv> 5"
abbreviation (input) cmdUDP :: byte where "cmdUDP \<equiv> 6"
abbreviation (input) cmdTunnel :: byte where "cmdTunnel \<equiv> 0"
abbreviation (input) cmdPong :: byte where "cmdPong \<equiv> 1"
abbreviation (input) cmdError :: byte where "cmdError \<equiv> 2"
abbreviation (input) headerVersion :: byte where "headerVersion \<equiv> 1"
abbreviation (input) headerCipherSize :: nat where "headerCipherSize \<equiv> 23"
abbreviation (input) frameSize :: nat where "frameSize \<equiv> 1460"
abbreviation (input) initialPadMin :: nat where "initialPadMin \<equiv> 256"
abbreviation (input) initialPadSpan :: nat where "initialPadSpan \<equiv> 256"

definition maxPayload :: nat where "maxPayload = 16383"

datatype snell_err =
    Io io_err
  | CipherAuth
  | InvalidHeader
  | ZeroChunk
  | ZeroChunkPadding
  | FrameTooLarge
  | RandFailed
  | Ident ident_err
  | ServerError byte bytes
  | UnexpectedReply byte
  | WarmupReply byte
  | HostTooLong

definition frameHeader :: "nat \<Rightarrow> nat \<Rightarrow> bytes" where
  \<comment> \<open>\<open>header[0] = 4\<close>, \<open>PutUint16(header[3:5], uint16(padLen))\<close>, \<open>PutUint16(header[5:7], ..)\<close>\<close>
  "frameHeader padLen payLen = [4, 0, 0] @ be16 (word_of_nat padLen) @ be16 (word_of_nat payLen)"

definition headerPad :: "bytes \<Rightarrow> nat" where
  "headerPad h = unat (de16 (h ! 3) (h ! 4))"

definition headerPay :: "bytes \<Rightarrow> nat" where
  "headerPay h = unat (de16 (h ! 5) (h ! 6))"

lemma length_frameHeader [simp, wire]: "length (frameHeader a b) = 7"
  by (simp add: frameHeader_def)

lemma frameHeader_head [simp]: "frameHeader a b ! 0 = 4"
  by (simp add: frameHeader_def)

lemma unat_word16 [simp]: "n < 65536 \<Longrightarrow> unat (word_of_nat n :: u16) = n"
  by (simp add: unat_of_nat)

lemma headerPad_frameHeader [simp, wire]: "a < 65536 \<Longrightarrow> headerPad (frameHeader a b) = a"
  by (simp add: headerPad_def frameHeader_def be16_def)

lemma headerPay_frameHeader [simp, wire]: "b < 65536 \<Longrightarrow> headerPay (frameHeader a b) = b"
  by (simp add: headerPay_def frameHeader_def be16_def)

section \<open>The reader\<close>

record v4reader =
  rd_src :: source
  rd_key :: bytes
  rd_nonce :: bytes
  rd_buf :: bytes

definition rd_full :: "nat \<Rightarrow> v4reader \<Rightarrow> (snell_err + bytes) \<times> v4reader" where
  "rd_full n r =
     (case readFull n (rd_src r) of
        (Inl e, s) \<Rightarrow> (Inl (Io e), r\<lparr>rd_src := s\<rparr>)
      | (Inr d, s) \<Rightarrow> (Inr d, r\<lparr>rd_src := s\<rparr>))"

definition rd_open :: "prims \<Rightarrow> bytes \<Rightarrow> v4reader \<Rightarrow> (snell_err + bytes) \<times> v4reader" where
  \<comment> \<open>\<open>aead.Open\<close> and the \<open>incNonce\<close> that follows it, on success and on failure alike\<close>
  "rd_open P c r =
     ((case gcmOpen P (rd_key r) (rd_nonce r) c of None \<Rightarrow> Inl CipherAuth | Some p \<Rightarrow> Inr p),
      r\<lparr>rd_nonce := incNonce (rd_nonce r)\<rparr>)"

definition readBody :: "prims \<Rightarrow> nat \<Rightarrow> nat \<Rightarrow> v4reader \<Rightarrow> (snell_err + bytes) \<times> v4reader" where
  \<comment> \<open>the second half of \<open>readFrame\<close>: padding and ciphertext\<close>
  "readBody P padLen payLen =
     ebind (rd_full (padLen + payLen + 16)) (\<lambda>frame.
       rd_open P (snd (if 0 < padLen then swapPadding (take padLen frame) (drop padLen frame)
                       else (take padLen frame, drop padLen frame))))"

definition readFrame :: "prims \<Rightarrow> v4reader \<Rightarrow> (snell_err + bytes) \<times> v4reader" where
  "readFrame P =
     ebind (rd_full headerCipherSize) (\<lambda>headerCipher.
     ebind (rd_open P headerCipher) (\<lambda>header r.
       if length header \<noteq> 7 \<or> header ! 0 \<noteq> 4 then (Inl InvalidHeader, r)
       else
         let padLen = headerPad header; payLen = headerPay header in
         if payLen = 0 then
           (if padLen \<noteq> 0 then (Inl ZeroChunkPadding, r) else (Inl ZeroChunk, r))
         else if maxPayload < payLen \<or> maxPayload < padLen then (Inl FrameTooLarge, r)
         else readBody P padLen payLen r))"

definition v4Read :: "prims \<Rightarrow> nat \<Rightarrow> v4reader \<Rightarrow> (snell_err + bytes) \<times> v4reader" where
  \<comment> \<open>\<open>v4Reader.Read(b)\<close> with \<open>len(b) = k\<close>\<close>
  "v4Read P k r =
     (if rd_buf r = []
      then (case readFrame P r of
              (Inl e, r') \<Rightarrow> (Inl e, r')
            | (Inr payload, r') \<Rightarrow> (Inr (take k payload), r'\<lparr>rd_buf := drop k payload\<rparr>))
      else (Inr (take k (rd_buf r)), r\<lparr>rd_buf := drop k (rd_buf r)\<rparr>))"

text \<open>Every frame that is read takes at least its 23 header bytes from the connection.\<close>

definition rd_left :: "v4reader \<Rightarrow> nat" where
  "rd_left r = length (src_data (rd_src r))"

lemma rd_full_left: "rd_full n r = (Inr d, r') \<Longrightarrow> rd_left r = n + rd_left r' \<and> length d = n"
  by (auto simp: rd_full_def rd_left_def split: prod.splits sum.splits dest: readFull_InrD)

lemma rd_open_left [simp]: "rd_open P c r = (x, r') \<Longrightarrow> rd_left r' = rd_left r"
  by (auto simp: rd_open_def rd_left_def)

lemma readBody_left: "readBody P a b r = (Inr d, r') \<Longrightarrow> rd_left r = a + b + 16 + rd_left r'"
  by (auto simp: readBody_def ebind_eq_Inr dest!: rd_full_left rd_open_left)

lemma readFrame_left: "readFrame P r = (Inr d, r') \<Longrightarrow> 23 + rd_left r' \<le> rd_left r"
  by (auto simp: readFrame_def ebind_eq_Inr Let_def split: if_splits
      dest!: rd_full_left rd_open_left readBody_left)

lemma rd_full_buf: "rd_full n r = (x, r') \<Longrightarrow> rd_buf r' = rd_buf r"
  by (auto simp: rd_full_def split: prod.splits sum.splits)

lemma rd_open_buf: "rd_open P c r = (x, r') \<Longrightarrow> rd_buf r' = rd_buf r"
  by (auto simp: rd_open_def)

lemma ebind_buf:
  assumes "\<And>x r'. m r = (x, r') \<Longrightarrow> rd_buf r' = rd_buf r"
    and "\<And>a s x r'. f a s = (x, r') \<Longrightarrow> rd_buf r' = rd_buf s"
    and "ebind m f r = (x, r')"
  shows "rd_buf r' = rd_buf r"
  using assms(1,3) by (auto simp: ebind_def split: prod.splits sum.splits dest: assms(2))

lemma readBody_buf: "readBody P a b r = (x, r') \<Longrightarrow> rd_buf r' = rd_buf r"
  unfolding readBody_def by (erule ebind_buf [rotated 2]) (auto dest: rd_full_buf rd_open_buf)

lemma readFrame_buf: "readFrame P r = (x, r') \<Longrightarrow> rd_buf r' = rd_buf r"
  unfolding readFrame_def
  by (erule ebind_buf [rotated 2], erule rd_full_buf, erule ebind_buf [rotated 2])
     (auto simp: Let_def split: if_splits dest: rd_open_buf readBody_buf)

lemma v4Read_decreases:
  assumes "v4Read P n r = (Inr d, r')" and "0 < n"
  shows "rd_left r' < rd_left r \<or> rd_left r' = rd_left r \<and> length (rd_buf r') < length (rd_buf r)"
proof (cases "rd_buf r = []")
  case True
  with assms(1) obtain p r1 where "readFrame P r = (Inr p, r1)" and "r' = r1\<lparr>rd_buf := drop n p\<rparr>"
    by (auto simp: v4Read_def split: prod.splits sum.splits)
  then show ?thesis by (auto simp: rd_left_def dest!: readFrame_left)
next
  case False
  with assms show ?thesis by (auto simp: v4Read_def rd_left_def)
qed

text \<open>
  \<open>io.ReadFull\<close> over the reader: \<open>Read\<close> is called until \<open>n\<close> bytes have come or an error
  occurs. A nonempty buffer shrinks and a frame shortens the connection, so the loop ends.
\<close>

function v4ReadFull :: "prims \<Rightarrow> nat \<Rightarrow> v4reader \<Rightarrow> (snell_err + bytes) \<times> v4reader" where
  "v4ReadFull P n r =
     (if n = 0 then (Inr [], r)
      else case v4Read P n r of
        (Inl e, r') \<Rightarrow> (Inl e, r')
      | (Inr d, r') \<Rightarrow>
          (case v4ReadFull P (n - length d) r' of
             (Inl (Io EOF), r'') \<Rightarrow> (Inl (Io (if d = [] then EOF else UnexpectedEOF)), r'')
           | (Inl e, r'') \<Rightarrow> (Inl e, r'')
           | (Inr d', r'') \<Rightarrow> (Inr (d @ d'), r'')))"
  by pat_completeness auto
termination
  by (relation "inv_image (less_than <*lex*> less_than) (\<lambda>(P, n, r). (rd_left r, length (rd_buf r)))")
     (auto dest: v4Read_decreases [OF sym])

declare v4ReadFull.simps [simp del]

subsection \<open>The reader as a source of plaintext\<close>

definition with_buf :: "bytes \<Rightarrow> ('e + 'a) \<times> v4reader \<Rightarrow> ('e + 'a) \<times> v4reader" where
  "with_buf b = map_prod id (\<lambda>r. r\<lparr>rd_buf := b\<rparr>)"

lemma rd_full_with_buf: "rd_full n (r\<lparr>rd_buf := b\<rparr>) = with_buf b (rd_full n r)"
  by (simp add: rd_full_def with_buf_def split: prod.splits sum.splits)

lemma rd_open_with_buf: "rd_open P c (r\<lparr>rd_buf := b\<rparr>) = with_buf b (rd_open P c r)"
  by (simp add: rd_open_def with_buf_def)

lemma ebind_with_buf:
  assumes "m (r\<lparr>rd_buf := b\<rparr>) = with_buf b (m r)"
    and "\<And>a s. f a (s\<lparr>rd_buf := b\<rparr>) = with_buf b (f a s)"
  shows "ebind m f (r\<lparr>rd_buf := b\<rparr>) = with_buf b (ebind m f r)"
  using assms by (auto simp: ebind_def with_buf_def split: prod.splits sum.splits)

lemma readBody_with_buf: "readBody P x y (r\<lparr>rd_buf := b\<rparr>) = with_buf b (readBody P x y r)"
  unfolding readBody_def by (rule ebind_with_buf) (simp_all add: rd_full_with_buf rd_open_with_buf)

lemma readFrame_with_buf: "readFrame P (r\<lparr>rd_buf := b\<rparr>) = with_buf b (readFrame P r)"
  unfolding readFrame_def
  by (rule ebind_with_buf, rule rd_full_with_buf, rule ebind_with_buf, rule rd_open_with_buf)
     (simp add: readBody_with_buf Let_def, simp add: with_buf_def)

function rd_plain :: "prims \<Rightarrow> v4reader \<Rightarrow> bytes" where
  \<comment> \<open>the payloads of all frames up to the first error\<close>
  "rd_plain P r = (case readFrame P r of (Inl e, r') \<Rightarrow> [] | (Inr p, r') \<Rightarrow> p @ rd_plain P r')"
  by pat_completeness auto
termination
  by (relation "measure (\<lambda>(P, r). rd_left r)") (auto dest!: readFrame_left [OF sym])

declare rd_plain.simps [simp del]

definition v4_pending :: "prims \<Rightarrow> v4reader \<Rightarrow> bytes" where
  "v4_pending P r = rd_buf r @ rd_plain P r"

lemma rd_plain_buf: "rd_plain P (r\<lparr>rd_buf := b\<rparr>) = rd_plain P r"
proof (induction P r arbitrary: b rule: rd_plain.induct)
  case (1 P r)
  then show ?case
    by (simp add: rd_plain.simps [of P "r\<lparr>rd_buf := b\<rparr>"] rd_plain.simps [of P r] readFrame_with_buf
        with_buf_def split: prod.split sum.split)
qed

lemma rd_plain_frame: "readFrame P r = (Inr p, r') \<Longrightarrow> rd_plain P r = p @ rd_plain P r'"
  by (simp add: rd_plain.simps [of P r])

lemma rd_plain_error: "readFrame P r = (Inl e, r') \<Longrightarrow> rd_plain P r = []"
  by (simp add: rd_plain.simps [of P r])

lemma v4Read_data:
  assumes "v4Read P k r = (Inr d, r')"
  shows "v4_pending P r = d @ v4_pending P r' \<and> length d \<le> k"
proof (cases "rd_buf r = []")
  case True
  with assms obtain p r1 where p: "readFrame P r = (Inr p, r1)"
    and "d = take k p" and "r' = r1\<lparr>rd_buf := drop k p\<rparr>"
    by (auto simp: v4Read_def split: prod.splits sum.splits)
  with True rd_plain_frame [OF p] show ?thesis
    by (simp add: v4_pending_def rd_plain_buf flip: append_assoc)
next
  case False
  with assms show ?thesis
    by (auto simp: v4Read_def v4_pending_def rd_plain_buf simp flip: append_assoc)
qed

lemma v4Read_err: "v4Read P k r = (Inl e, r') \<Longrightarrow> v4_pending P r = []"
  by (auto simp: v4Read_def v4_pending_def rd_plain_error split: if_splits prod.splits sum.splits)

interpretation v4src: byte_source "v4Read P" "v4_pending P" for P
  by unfold_locales (simp_all add: v4Read_data v4Read_err)

lemma v4ReadFull_data:
  "v4ReadFull P n r = (Inr d, r') \<Longrightarrow> v4_pending P r = d @ v4_pending P r' \<and> length d = n"
proof (induction P n r arbitrary: d r' rule: v4ReadFull.induct)
  case (1 P n r)
  show ?case
  proof (cases "n = 0")
    case True
    with "1.prems" show ?thesis by (simp add: v4ReadFull.simps)
  next
    case False
    with "1.prems" obtain d1 r1 where r1: "v4Read P n r = (Inr d1, r1)"
      by (auto simp: v4ReadFull.simps [of P n r] split: prod.splits sum.splits)
    with "1.prems" False obtain d2 where d2: "v4ReadFull P (n - length d1) r1 = (Inr d2, r')"
      and "d = d1 @ d2"
      by (auto simp: v4ReadFull.simps [of P n r] split: prod.splits sum.splits io_err.splits
          snell_err.splits)
    with "1.IH" [OF False r1 [symmetric] refl d2] v4src.read_data [OF r1] show ?thesis by simp
  qed
qed

lemma v4ReadFull_total:
  "n \<le> length (v4_pending P r) \<Longrightarrow> \<exists>d r'. v4ReadFull P n r = (Inr d, r')"
proof (induction P n r rule: v4ReadFull.induct)
  case (1 P n r)
  show ?case
  proof (cases "n = 0")
    case True
    then show ?thesis by (simp add: v4ReadFull.simps)
  next
    case False
    with "1.prems" have "v4_pending P r \<noteq> []" by auto
    with v4src.read_err obtain d1 r1 where r1: "v4Read P n r = (Inr d1, r1)"
      by (metis surj_pair sumE)
    with "1.prems" v4src.read_data [OF r1] have "n - length d1 \<le> length (v4_pending P r1)" by simp
    from "1.IH" [OF False r1 [symmetric] refl this] r1 False show ?thesis
      by (auto simp: v4ReadFull.simps [of P n r])
  qed
qed

lemma v4ReadFull_pending:
  assumes "v4_pending P r = a @ b"
  shows "\<exists>r'. v4ReadFull P (length a) r = (Inr a, r') \<and> v4_pending P r' = b"
proof -
  from assms v4ReadFull_total [of "length a" P r] obtain d r'
    where d: "v4ReadFull P (length a) r = (Inr d, r')" by auto
  from v4ReadFull_data [OF d] assms d show ?thesis by auto
qed

end
