(* ===== verification/Snell_Writer.thy ===== *)
theory Snell_Writer
  imports Snell_Frame
begin

text \<open>
  The sending half of \<open>internal/snell/v4.go\<close>: \<open>writeFull\<close>, the writer's state, the salt and
  identity prefix of the first frame, the payload limits that keep frames within 1460 bytes,
  \<open>writeFrame\<close>, \<open>Write\<close> and \<open>writePacketFrame\<close>.
\<close>

section \<open>\<open>writeFull\<close>\<close>

function writeFull :: "bytes \<Rightarrow> sink \<Rightarrow> (io_err + unit) \<times> sink" where
  "writeFull b s =
     (if b = [] then (Inr (), s)
      else case conn_write b s of
        (Inl e, s') \<Rightarrow> (Inl e, s')
      | (Inr n, s') \<Rightarrow> if n = 0 then (Inl ErrShortWrite, s') else writeFull (drop n b) s')"
  by pat_completeness auto
termination
  by (relation "measure (\<lambda>(b, s). length b)") auto

declare writeFull.simps [simp del]

lemma writeFull_Nil [simp]: "writeFull [] s = (Inr (), s)"
  by (subst writeFull.simps) simp

lemma writeFull_error:
  "b \<noteq> [] \<Longrightarrow> conn_write b s = (Inl e, s') \<Longrightarrow> writeFull b s = (Inl e, s')"
  by (simp add: writeFull.simps [of b s])

lemma writeFull_stuck:
  "b \<noteq> [] \<Longrightarrow> conn_write b s = (Inr 0, s') \<Longrightarrow> writeFull b s = (Inl ErrShortWrite, s')"
  by (simp add: writeFull.simps [of b s])

lemma writeFull_step:
  "b \<noteq> [] \<Longrightarrow> conn_write b s = (Inr n, s') \<Longrightarrow> n \<noteq> 0 \<Longrightarrow> writeFull b s = writeFull (drop n b) s'"
  by (simp add: writeFull.simps [of b s])

lemma writeFull_result:
  "\<exists>k \<le> length b. snk_data (snd (writeFull b s)) = snk_data s @ take k b
     \<and> (fst (writeFull b s) = Inr () \<longrightarrow> k = length b)"
proof (induction b s rule: writeFull.induct)
  case (1 b s)
  obtain r s1 where r: "conn_write b s = (r, s1)" by (cases "conn_write b s")
  from conn_write_prefix [OF r] obtain k where
    k: "k \<le> length b" "snk_data s1 = snk_data s @ take k b" "\<forall>n. r = Inr n \<longrightarrow> n = k"
    by auto
  consider "b = []" | e where "b \<noteq> []" "r = Inl e" | "b \<noteq> []" "r = Inr 0" "k = 0"
    | "b \<noteq> []" "r = Inr k" "k \<noteq> 0"
    using k(3) by (cases r) auto
  then show ?case
  proof cases
    case 1
    then show ?thesis by simp
  next
    case 2
    with r k show ?thesis by (auto simp: writeFull_error)
  next
    case 3
    with r k show ?thesis by (auto simp: writeFull_stuck)
  next
    case 4
    from "1.IH" [OF 4(1) r [symmetric] 4(2,3)] obtain m where
      m: "m \<le> length b - k" "snk_data (snd (writeFull (drop k b) s1)) = snk_data s1 @ take m (drop k b)"
        "fst (writeFull (drop k b) s1) = Inr () \<longrightarrow> m = length b - k"
      by auto
    from 4 r have e: "writeFull b s = writeFull (drop k b) s1" by (simp add: writeFull_step)
    show ?thesis
      using m k(1,2) by (intro exI [of _ "k + m"]) (auto simp: e take_add)
  qed
qed

text \<open>
  \<open>writeFull\<close> puts a prefix of its argument on the connection, in order and without gap
  or repetition however the connection splits or fails the writes, and it reports success
  only when that prefix is the whole argument.
\<close>

theorem writeFull_prefix:
  "\<exists>k \<le> length b. snk_data (snd (writeFull b s)) = snk_data s @ take k b
     \<and> (fst (writeFull b s) = Inr () \<longrightarrow> k = length b)"
  by (rule writeFull_result)

lemma writeFull_success: "writeFull b s = (Inr u, s') \<Longrightarrow> snk_data s' = snk_data s @ b"
  using writeFull_result [of b s] by auto

lemma writeFull_unscripted:
  "snk_script s = [] \<Longrightarrow> writeFull b s = (Inr (), s\<lparr>snk_data := snk_data s @ b\<rparr>)"
  by (cases "b = []") (simp_all add: writeFull.simps [of b s] conn_write_def)

theorem writeFull_prefix_witness:
  "writeFull [1, 2, 3] \<lparr>snk_data = [], snk_script = [Accept 2, Fail 0 EOF]\<rparr>
     = (Inl EOF, \<lparr>snk_data = [1, 2], snk_script = []\<rparr>)
   \<and> (\<exists>k \<le> length [1 :: byte, 2, 3]. snk_data (snd (writeFull [1, 2, 3] \<lparr>snk_data = [], snk_script = [Accept 2, Fail 0 EOF]\<rparr>))
         = take k [1, 2, 3])"
proof -
  have "writeFull [1, 2, 3] \<lparr>snk_data = [], snk_script = [Accept 2, Fail 0 EOF]\<rparr>
          = (Inl EOF, \<lparr>snk_data = [1, 2], snk_script = []\<rparr>)"
    by (simp add: writeFull.simps conn_write_def)
  moreover have "\<exists>k \<le> length [1 :: byte, 2, 3]. snk_data (snd (writeFull [1, 2, 3]
      \<lparr>snk_data = [], snk_script = [Accept 2, Fail 0 EOF]\<rparr>)) = take k [1, 2, 3]"
    using writeFull_prefix [of "[1, 2, 3]" "\<lparr>snk_data = [], snk_script = [Accept 2, Fail 0 EOF]\<rparr>"]
    by (metis append_Nil sink.select_convs(1))
  ultimately show ?thesis by blast
qed

section \<open>The writer\<close>

record v4writer =
  w_sink :: sink
  w_key :: bytes
  w_nonce :: bytes
  w_salt :: bytes
  w_exporter :: bytes
  w_psk :: bytes
  w_identityVersion :: int
  w_saltSent :: bool
  w_initPad :: u16
  w_payLimit :: u16
  w_lastWrite :: "int option"  \<comment> \<open>\<open>None\<close> is the zero time\<close>
  w_rand :: entropy
  w_clock :: "nat \<Rightarrow> int"  \<comment> \<open>what \<open>time.Now()\<close> will return, in nanoseconds\<close>
  w_tick :: nat

definition newWriter :: "prims \<Rightarrow> sink \<Rightarrow> bytes \<Rightarrow> bytes \<Rightarrow> int \<Rightarrow> entropy \<Rightarrow> (nat \<Rightarrow> int) \<Rightarrow> v4writer option" where
  "newWriter P snk psk exporter identityVersion ds clk =
     (case randomBytes SaltSize ds of
        None \<Rightarrow> None
      | Some (salt, ds1) \<Rightarrow>
          (case randInt initialPadSpan ds1 of
             None \<Rightarrow> None
           | Some (delta, ds2) \<Rightarrow>
               Some \<lparr>w_sink = snk, w_key = kdf P psk salt, w_nonce = replicate 12 0, w_salt = salt,
                     w_exporter = exporter, w_psk = psk, w_identityVersion = identityVersion,
                     w_saltSent = False, w_initPad = word_of_nat (initialPadMin + delta),
                     w_payLimit = 0, w_lastWrite = None, w_rand = ds2, w_clock = clk, w_tick = 0\<rparr>))"

definition identityWireLength :: "v4writer \<Rightarrow> nat" where
  "identityWireLength w =
     (if w_identityVersion w = 1 then V1PrefixSize
      else if length (w_exporter w) = ExporterSize then V2PrefixSize
      else 0)"

definition nextPayloadLimit :: "v4writer \<Rightarrow> u16 \<times> v4writer" where
  "nextPayloadLimit w =
     (let now = w_clock w (w_tick w);
          limit = (case w_lastWrite w of
              None \<Rightarrow> word_of_int (int frameSize - 55 - int (identityWireLength w) - int (unat (w_initPad w)))
            | Some t \<Rightarrow> if 30 * 10 ^ 9 < now - t then word_of_nat (frameSize - 39) else w_payLimit w);
          next = unat limit + frameSize - 39;
          next' = (if maxPayload < next then maxPayload else next)
      in (limit, w\<lparr>w_lastWrite := Some now, w_payLimit := word_of_nat next', w_tick := Suc (w_tick w)\<rparr>))"

definition framePrefix :: "prims \<Rightarrow> v4writer \<Rightarrow> snell_err + bytes" where
  \<comment> \<open>salt and identity of the first frame, nothing afterwards\<close>
  "framePrefix P w =
     (if w_saltSent w then Inr []
      else if w_identityVersion w = 1 then Inr (w_salt w @ PrefixV1 P (w_psk w))
      else if length (w_exporter w) = ExporterSize then
        (case PrefixV2 P (w_psk w) (w_exporter w) (w_salt w) of
           Inl e \<Rightarrow> Inl (Ident e)
         | Inr i \<Rightarrow> Inr (w_salt w @ i))
      else Inr (w_salt w))"

definition w_seal :: "prims \<Rightarrow> bytes \<Rightarrow> v4writer \<Rightarrow> bytes \<times> v4writer" where
  "w_seal P p w = (gcmSeal P (w_key w) (w_nonce w) p, w\<lparr>w_nonce := incNonce (w_nonce w)\<rparr>)"

definition padFrame :: "prims \<Rightarrow> bytes \<Rightarrow> nat \<Rightarrow> v4writer \<Rightarrow> (snell_err + bytes \<times> bytes) \<times> v4writer" where
  \<comment> \<open>padding and payload ciphertext as they go on the wire\<close>
  "padFrame P payloadCipher padLen w =
     (if 0 < padLen
      then (case makePadding P payloadCipher padLen (w_rand w) of
              None \<Rightarrow> (Inl RandFailed, w\<lparr>w_rand := []\<rparr>)
            | Some (padding, ds) \<Rightarrow> (Inr (swapPadding padding payloadCipher), w\<lparr>w_rand := ds\<rparr>))
      else (Inr ([], payloadCipher), w))"

definition sendFrame :: "bytes \<Rightarrow> v4writer \<Rightarrow> (snell_err + unit) \<times> v4writer" where
  "sendFrame frame w =
     (case writeFull frame (w_sink w) of
        (Inl e, s) \<Rightarrow> (Inl (Io e), w\<lparr>w_sink := s\<rparr>)
      | (Inr u, s) \<Rightarrow> (Inr u, w\<lparr>w_sink := s\<rparr>))"

definition writeFrame :: "prims \<Rightarrow> bytes \<Rightarrow> nat \<Rightarrow> v4writer \<Rightarrow> (snell_err + unit) \<times> v4writer" where
  "writeFrame P payload padLen w =
     (if maxPayload < length payload \<or> maxPayload < padLen then (Inl FrameTooLarge, w)
      else if payload = [] \<and> padLen \<noteq> 0 then (Inl ZeroChunkPadding, w)
      else
        let (headerCipher, w1) = w_seal P (frameHeader padLen (length payload)) w;
            (payloadCipher, w2) = (if payload \<noteq> [] then w_seal P payload w1 else ([], w1))
        in case framePrefix P w2 of
             Inl e \<Rightarrow> (Inl e, w2)
           | Inr prefix \<Rightarrow>
               ebind (padFrame P payloadCipher padLen)
                 (\<lambda>(padding, payloadCipher'). sendFrame (prefix @ headerCipher @ padding @ payloadCipher'))
                 (w2\<lparr>w_saltSent := True\<rparr>))"

function v4WriteLoop :: "prims \<Rightarrow> bytes \<Rightarrow> nat \<Rightarrow> v4writer \<Rightarrow> (nat \<times> snell_err option) \<times> v4writer" where
  "v4WriteLoop P b written w =
     (if written < length b then
        (let (limit0, w1) = nextPayloadLimit w;
             limit = (if unat limit0 \<le> 0 \<or> maxPayload < unat limit0 then maxPayload else unat limit0);
             end = (if length b < written + limit then length b else written + limit);
             pad = (if \<not> w_saltSent w1 then unat (w_initPad w1) else 0)
         in case writeFrame P (slice b written end) pad w1 of
              (Inl e, w2) \<Rightarrow> ((written, Some e), w2)
            | (Inr _, w2) \<Rightarrow> v4WriteLoop P b end w2)
      else ((written, None), w))"
  by pat_completeness auto
termination
  by (relation "measure (\<lambda>(P, b, written, w). length b - written)") (auto simp: maxPayload_def)

declare v4WriteLoop.simps [simp del]

definition v4Write :: "prims \<Rightarrow> bytes \<Rightarrow> v4writer \<Rightarrow> (nat \<times> snell_err option) \<times> v4writer" where
  "v4Write P b w =
     (if b = []
      then (case writeFrame P [] 0 w of (Inl e, w') \<Rightarrow> ((0, Some e), w') | (Inr _, w') \<Rightarrow> ((0, None), w'))
      else v4WriteLoop P b 0 w)"

definition writePacketFrame :: "prims \<Rightarrow> bytes \<Rightarrow> v4writer \<Rightarrow> (nat \<times> snell_err option) \<times> v4writer" where
  "writePacketFrame P b w =
     (let pad = (if \<not> w_saltSent w \<and> 0 < length b then unat (w_initPad w) else 0)
      in case writeFrame P b pad w of
           (Inl e, w') \<Rightarrow> ((0, Some e), w')
         | (Inr _, w') \<Rightarrow> ((length b, None), w'))"

end
