(* ===== verification/Snell_Stream.thy ===== *)
theory Snell_Stream
  imports Snell_Writer
begin

text \<open>
  What a Snell v4 stream means: the bytes of a frame as a function of payload, padding, key
  and nonce, the refinement of \<open>writeFrame\<close> and \<open>Write\<close> to it, and the reader's inverse. The
  round trip, the frame sizes and the nonces of a whole stream follow.
\<close>

section \<open>Frames as data\<close>

type_synonym chunk = "bytes \<times> bytes"  \<comment> \<open>payload and padding\<close>

definition chunk_ok :: "chunk \<Rightarrow> bool" where
  "chunk_ok c \<longleftrightarrow> length (fst c) \<le> maxPayload \<and> length (snd c) \<le> maxPayload
     \<and> (fst c = [] \<longrightarrow> snd c = [])"

definition sealBody :: "prims \<Rightarrow> bytes \<Rightarrow> bytes \<Rightarrow> chunk \<Rightarrow> bytes" where
  "sealBody P key n c =
     (if fst c = [] then []
      else let s = swapPadding (snd c) (gcmSeal P key n (fst c)) in fst s @ snd s)"

definition sealFrame :: "prims \<Rightarrow> bytes \<Rightarrow> bytes \<Rightarrow> chunk \<Rightarrow> bytes" where
  "sealFrame P key n c =
     gcmSeal P key n (frameHeader (length (snd c)) (length (fst c))) @ sealBody P key (incNonce n) c"

definition frameNonce :: "chunk \<Rightarrow> bytes \<Rightarrow> bytes" where
  \<comment> \<open>the nonce after the frame\<close>
  "frameNonce c n = (if fst c = [] then incNonce n else incNonce (incNonce n))"

fun sealFrames :: "prims \<Rightarrow> bytes \<Rightarrow> bytes \<Rightarrow> chunk list \<Rightarrow> bytes" where
  "sealFrames P key n [] = []"
| "sealFrames P key n (c # cs) = sealFrame P key n c @ sealFrames P key (frameNonce c n) cs"

fun framesNonce :: "chunk list \<Rightarrow> bytes \<Rightarrow> bytes" where
  "framesNonce [] n = n"
| "framesNonce (c # cs) n = framesNonce cs (frameNonce c n)"

lemma length_sealFrame [wire]:
  "aead_ok P \<Longrightarrow> length (sealFrame P key n c)
     = 23 + (if fst c = [] then 0 else length (snd c) + length (fst c) + 16)"
  by (simp add: sealFrame_def sealBody_def Let_def)

section \<open>The writer refines it\<close>

definition same_conn :: "v4writer \<Rightarrow> v4writer \<Rightarrow> bool" where
  \<comment> \<open>what no write changes\<close>
  "same_conn w w' \<longleftrightarrow> w_key w' = w_key w \<and> w_salt w' = w_salt w \<and> w_exporter w' = w_exporter w
     \<and> w_psk w' = w_psk w \<and> w_identityVersion w' = w_identityVersion w \<and> w_initPad w' = w_initPad w
     \<and> w_clock w' = w_clock w"

lemma same_conn_refl [simp]: "same_conn w w"
  by (simp add: same_conn_def)

lemma same_conn_trans: "same_conn u v \<Longrightarrow> same_conn v w \<Longrightarrow> same_conn u w"
  by (simp add: same_conn_def)

lemma framePrefix_cong:
  "same_conn w w' \<Longrightarrow> w_saltSent w' = w_saltSent w \<Longrightarrow> framePrefix P w' = framePrefix P w"
  by (auto simp: framePrefix_def same_conn_def split: sum.split)

lemma framePrefix_sent [simp]: "w_saltSent w \<Longrightarrow> framePrefix P w = Inr []"
  by (simp add: framePrefix_def)

lemma sendFrame_Inr:
  "sendFrame frame w = (Inr u, w') \<Longrightarrow>
     snk_data (w_sink w') = snk_data (w_sink w) @ frame \<and> same_conn w w'
     \<and> w_nonce w' = w_nonce w \<and> w_saltSent w' = w_saltSent w \<and> w_lastWrite w' = w_lastWrite w
     \<and> w_payLimit w' = w_payLimit w"
  by (auto simp: sendFrame_def same_conn_def split: prod.splits sum.splits dest: writeFull_success)

lemma swapPadding_Nil [simp]: "swapPadding padding [] = (padding, [])"
  using picks_done [of 0 0 padding] picks_done [of 0 0 "[]"] by (simp add: swapPadding_eq)

lemma swapPadding_Nil1 [simp]: "swapPadding [] c = ([], c)"
  using picks_done [of 0 0 c] picks_done [of 0 0 "[]"] by (simp add: swapPadding_eq)

lemma padFrame_Inr:
  assumes "padFrame P c padLen w = (Inr (a, b), w')"
  shows "\<exists>padding. length padding = padLen \<and> swapPadding padding c = (a, b)
     \<and> w_sink w' = w_sink w \<and> same_conn w w' \<and> w_nonce w' = w_nonce w \<and> w_saltSent w' = w_saltSent w
     \<and> w_lastWrite w' = w_lastWrite w \<and> w_payLimit w' = w_payLimit w"
proof (cases "padLen = 0")
  case True
  with assms True show ?thesis by (auto simp: padFrame_def)
next
  case False
  with assms show ?thesis
    by (auto simp: padFrame_def same_conn_def split: option.splits dest: length_makePadding)
qed

text \<open>The frame that a successful \<open>writeFrame\<close> put on the connection.\<close>

lemma writeFrame_Inr:
  assumes "writeFrame P payload padLen w = (Inr u, w')"
  obtains padding pre where
    "length padding = padLen" "chunk_ok (payload, padding)" "framePrefix P w = Inr pre"
    "snk_data (w_sink w') = snk_data (w_sink w) @ pre @ sealFrame P (w_key w) (w_nonce w) (payload, padding)"
    "w_nonce w' = frameNonce (payload, padding) (w_nonce w)" "w_saltSent w'" "same_conn w w'"
    "w_lastWrite w' = w_lastWrite w" "w_payLimit w' = w_payLimit w"
proof -
  have len: "length payload \<le> maxPayload" "padLen \<le> maxPayload" "payload = [] \<Longrightarrow> padLen = 0"
    using assms by (auto simp: writeFrame_def split: if_splits)
  define w1 where "w1 = w\<lparr>w_nonce := incNonce (w_nonce w)\<rparr>"
  define pc where "pc = (if payload = [] then [] else gcmSeal P (w_key w) (w_nonce w1) payload)"
  define w2 where "w2 = (if payload = [] then w1 else w1\<lparr>w_nonce := incNonce (w_nonce w1)\<rparr>)"
  have w2: "same_conn w w2" "w_saltSent w2 = w_saltSent w" "w_sink w2 = w_sink w" "w_key w2 = w_key w"
    "w_lastWrite w2 = w_lastWrite w" "w_payLimit w2 = w_payLimit w"
    "w_nonce w2 = (if payload = [] then incNonce (w_nonce w) else incNonce (incNonce (w_nonce w)))"
    by (simp_all add: w2_def w1_def same_conn_def)
  let ?hc = "gcmSeal P (w_key w) (w_nonce w) (frameHeader padLen (length payload))"
  have unf: "writeFrame P payload padLen w =
      (case framePrefix P w2 of Inl e \<Rightarrow> (Inl e, w2)
       | Inr prefix \<Rightarrow> ebind (padFrame P pc padLen)
           (\<lambda>(padding, c'). sendFrame (prefix @ ?hc @ padding @ c')) (w2\<lparr>w_saltSent := True\<rparr>))"
    using len by (cases "payload = []")
      (simp_all add: writeFrame_def w_seal_def w1_def w2_def pc_def cong: sum.case_cong)
  with assms obtain pre where pre: "framePrefix P w2 = Inr pre" by (auto split: sum.splits)
  with assms unf obtain a b w3 where
    pad: "padFrame P pc padLen (w2\<lparr>w_saltSent := True\<rparr>) = (Inr (a, b), w3)"
    and send: "sendFrame (pre @ ?hc @ a @ b) w3 = (Inr u, w')"
    by (auto simp: ebind_eq_Inr)
  from padFrame_Inr [OF pad] obtain padding where
    padding: "length padding = padLen" "swapPadding padding pc = (a, b)" "w_sink w3 = w_sink w"
      "same_conn w2 w3" "w_nonce w3 = w_nonce w2" "w_saltSent w3"
      "w_lastWrite w3 = w_lastWrite w" "w_payLimit w3 = w_payLimit w"
    using w2 by (auto simp: same_conn_def)
  have body: "a @ b = sealBody P (w_key w) (incNonce (w_nonce w)) (payload, padding)"
    using padding(1,2) len(3) by (auto simp: sealBody_def pc_def w1_def Let_def)
  have prew: "framePrefix P w = Inr pre"
    using pre framePrefix_cong [OF w2(1,2)] by simp
  show thesis
    using sendFrame_Inr [OF send] padding w2 prew len body
    by (intro that [of padding pre])
       (auto simp: chunk_ok_def sealFrame_def frameNonce_def same_conn_def)
qed

lemma nextPayloadLimit_frame:
  "nextPayloadLimit w = (l, w') \<Longrightarrow> same_conn w w' \<and> w_sink w' = w_sink w \<and> w_nonce w' = w_nonce w
     \<and> w_saltSent w' = w_saltSent w"
  by (auto simp: nextPayloadLimit_def same_conn_def Let_def)

lemma v4WriteLoop_step:
  assumes "written < length b" and "nextPayloadLimit w = (l, w1)"
  defines "limit \<equiv> (if unat l \<le> 0 \<or> maxPayload < unat l then maxPayload else unat l)"
  defines "stop \<equiv> (if length b < written + limit then length b else written + limit)"
  shows "v4WriteLoop P b written w =
      (case writeFrame P (slice b written stop) (if \<not> w_saltSent w1 then unat (w_initPad w1) else 0) w1 of
         (Inl e, w2) \<Rightarrow> ((written, Some e), w2) | (Inr _, w2) \<Rightarrow> v4WriteLoop P b stop w2)"
  unfolding stop_def limit_def
  using assms(1,2) by (simp add: v4WriteLoop.simps [of P b written w] Let_def)

text \<open>The frames of a whole \<open>Write\<close>.\<close>

lemma v4WriteLoop_None:
  "v4WriteLoop P b written w = ((n, None), w') \<Longrightarrow> written < length b \<Longrightarrow>
   \<exists>pre cs. framePrefix P w = Inr pre \<and> n = length b \<and> list_all (\<lambda>c. chunk_ok c \<and> fst c \<noteq> []) cs
     \<and> concat (map fst cs) = drop written b
     \<and> snk_data (w_sink w') = snk_data (w_sink w) @ pre @ sealFrames P (w_key w) (w_nonce w) cs
     \<and> w_nonce w' = framesNonce cs (w_nonce w) \<and> w_saltSent w' \<and> same_conn w w'"
proof (induction P b written w rule: v4WriteLoop.induct)
  case (1 P b written w)
  obtain l w1 where l: "nextPayloadLimit w = (l, w1)" by (cases "nextPayloadLimit w")
  define limit where "limit = (if unat l \<le> 0 \<or> maxPayload < unat l then maxPayload else unat l)"
  define stop where "stop = (if length b < written + limit then length b else written + limit)"
  define pad where "pad = (if \<not> w_saltSent w1 then unat (w_initPad w1) else 0)"
  have bounds: "written < stop" "stop \<le> length b"
    using "1.prems"(2) by (auto simp: stop_def limit_def maxPayload_def)
  have unf: "v4WriteLoop P b written w =
      (case writeFrame P (slice b written stop) pad w1 of
         (Inl e, w2) \<Rightarrow> ((written, Some e), w2) | (Inr _, w2) \<Rightarrow> v4WriteLoop P b stop w2)"
    unfolding stop_def limit_def pad_def by (rule v4WriteLoop_step [OF "1.prems"(2) l])
  with "1.prems"(1) obtain u w2 where f: "writeFrame P (slice b written stop) pad w1 = (Inr u, w2)"
    and rest: "v4WriteLoop P b stop w2 = ((n, None), w')"
    by (auto split: prod.splits sum.splits)
  from nextPayloadLimit_frame [OF l] have w1: "same_conn w w1" "w_sink w1 = w_sink w"
    "w_nonce w1 = w_nonce w" "w_saltSent w1 = w_saltSent w" "w_key w1 = w_key w"
    by (auto simp: same_conn_def)
  from f obtain padding pre where c:
    "chunk_ok (slice b written stop, padding)" "framePrefix P w1 = Inr pre"
    "snk_data (w_sink w2) = snk_data (w_sink w1) @ pre
       @ sealFrame P (w_key w1) (w_nonce w1) (slice b written stop, padding)"
    "w_nonce w2 = frameNonce (slice b written stop, padding) (w_nonce w1)" "w_saltSent w2"
    "same_conn w1 w2"
    by (rule writeFrame_Inr)
  have pre: "framePrefix P w = Inr pre" using c(2) framePrefix_cong [OF w1(1,4)] by simp
  have ne: "slice b written stop \<noteq> []" using bounds by (auto simp: slice_def)
  have w2: "same_conn w w2" using w1(1) c(6) by (rule same_conn_trans)
  show ?case
  proof (cases "stop < length b")
    case False
    with bounds have stop: "stop = length b" by simp
    with rest have "n = length b \<and> w' = w2" by (simp add: v4WriteLoop.simps)
    with c w1 pre ne w2 stop bounds show ?thesis
      by (intro exI [of _ pre] exI [of _ "[(slice b written stop, padding)]"])
         (simp add: slice_def)
  next
    case True
    from "1.IH" [OF "1.prems"(2) refl l [symmetric] limit_def stop_def pad_def f [symmetric] refl rest True] c(5)
    obtain cs where cs: "n = length b" "list_all (\<lambda>c. chunk_ok c \<and> fst c \<noteq> []) cs"
      "concat (map fst cs) = drop stop b"
      "snk_data (w_sink w') = snk_data (w_sink w2) @ sealFrames P (w_key w2) (w_nonce w2) cs"
      "w_nonce w' = framesNonce cs (w_nonce w2)" "w_saltSent w'" "same_conn w2 w'"
      by auto
    have "slice b written stop @ drop stop b = drop written b"
      using bounds by (simp add: slice_append_drop)
    moreover have "w_key w2 = w_key w" using w2 by (simp add: same_conn_def)
    ultimately show ?thesis
      using c w1 pre ne cs same_conn_trans [OF w2 cs(7)]
      by (intro exI [of _ pre] exI [of _ "(slice b written stop, padding) # cs"]) simp
  qed
qed

section \<open>The reader inverts it\<close>

definition reader_at :: "bytes \<Rightarrow> bytes \<Rightarrow> bytes \<Rightarrow> io_err \<Rightarrow> v4reader" where
  \<comment> \<open>a reader with an empty buffer, about to read \<open>data\<close>\<close>
  "reader_at key n data e =
     \<lparr>rd_src = \<lparr>src_data = data, src_end = e\<rparr>, rd_key = key, rd_nonce = n, rd_buf = []\<rparr>"

lemma rd_full_at [simp]:
  "length a = k \<Longrightarrow> rd_full k (reader_at key n (a @ b) e) = (Inr a, reader_at key n b e)"
  by (simp add: rd_full_def reader_at_def)

lemma rd_open_at [simp]:
  "aead_ok P \<Longrightarrow> rd_open P (gcmSeal P key n p) (reader_at key n data e)
     = (Inr p, reader_at key (incNonce n) data e)"
  by (simp add: rd_open_def reader_at_def)

lemma readBody_sealBody:
  assumes "aead_ok P" and "fst c \<noteq> []"
  shows "readBody P (length (snd c)) (length (fst c)) (reader_at key n (sealBody P key n c @ rest) e)
     = (Inr (fst c), reader_at key (incNonce n) rest e)"
proof -
  obtain a b where s: "swapPadding (snd c) (gcmSeal P key n (fst c)) = (a, b)"
    by (cases "swapPadding (snd c) (gcmSeal P key n (fst c))")
  have len: "length a = length (snd c)" "length b = length (fst c) + 16"
    using length_swapPadding [of "snd c" "gcmSeal P key n (fst c)"] s assms(1) by simp_all
  have body: "sealBody P key n c = a @ b"
    using assms(2) s by (simp add: sealBody_def)
  have "swapPadding a b = (snd c, gcmSeal P key n (fst c))"
    using swapPadding_involution_fact [of "snd c" "gcmSeal P key n (fst c)"] s by simp
  moreover have "snd c = [] \<Longrightarrow> a = [] \<and> b = gcmSeal P key n (fst c)"
    using s by simp
  moreover have "rd_full (length (snd c) + length (fst c) + 16) (reader_at key n (a @ b @ rest) e)
      = (Inr (a @ b), reader_at key n rest e)"
    using rd_full_at [of "a @ b" _ key n rest e] len by (simp add: add.assoc)
  ultimately show ?thesis
    using assms len unfolding readBody_def body by (auto simp: ebind_Inr)
qed

lemma readFrame_sealFrame:
  assumes "aead_ok P" and "chunk_ok c"
  shows "readFrame P (reader_at key n (sealFrame P key n c @ rest) e)
     = (if fst c = [] then Inl ZeroChunk else Inr (fst c), reader_at key (frameNonce c n) rest e)"
proof -
  let ?h = "frameHeader (length (snd c)) (length (fst c))"
  have small: "length (snd c) < 65536" "length (fst c) < 65536"
    using assms(2) by (auto simp: chunk_ok_def maxPayload_def)
  have full: "rd_full 23 (reader_at key n (sealFrame P key n c @ rest) e)
      = (Inr (gcmSeal P key n ?h), reader_at key n (sealBody P key (incNonce n) c @ rest) e)"
    using assms(1) by (simp add: sealFrame_def)
  show ?thesis
  proof (cases "fst c = []")
    case True
    with assms have "snd c = []" by (simp add: chunk_ok_def)
    with True full assms(1) show ?thesis
      by (simp add: readFrame_def ebind_def frameNonce_def sealBody_def)
  next
    case False
    with full assms small show ?thesis
      by (simp add: readFrame_def ebind_def frameNonce_def readBody_sealBody chunk_ok_def)
  qed
qed

lemma rd_plain_sealFrames:
  "aead_ok P \<Longrightarrow> list_all (\<lambda>c. chunk_ok c \<and> fst c \<noteq> []) cs \<Longrightarrow>
     rd_plain P (reader_at key n (sealFrames P key n cs @ rest) e)
       = concat (map fst cs) @ rd_plain P (reader_at key (framesNonce cs n) rest e)"
proof (induction cs arbitrary: n)
  case Nil
  then show ?case by simp
next
  case (Cons c cs)
  then have "readFrame P (reader_at key n (sealFrame P key n c @ sealFrames P key (frameNonce c n) cs @ rest) e)
     = (Inr (fst c), reader_at key (frameNonce c n) (sealFrames P key (frameNonce c n) cs @ rest) e)"
    using readFrame_sealFrame [of P c key n "sealFrames P key (frameNonce c n) cs @ rest" e] by simp
  from rd_plain_frame [OF this] Cons show ?case by simp
qed

lemma v4_pending_at [simp]: "v4_pending P (reader_at key n data e) = rd_plain P (reader_at key n data e)"
  by (simp add: v4_pending_def reader_at_def)

text \<open>
  C2. What \<open>Write\<close> sends, the peer's reader returns. If a writer accepts \<open>b\<close> without error it
  has taken all of it, and has sent the salt and identity prefix (on the first frame) followed
  by frames; a reader with the same key and nonce that is given those frames, with anything
  behind them, reads exactly \<open>b\<close> through \<open>io.ReadFull\<close>, and goes on with the rest of the
  stream in step with the writer's nonce. This covers the chunking, the padding of the first
  frame with its interleaving, and the two nonces per frame.
\<close>

theorem v4Write_read_back:
  assumes "aead_ok P" and "b \<noteq> []" and "v4Write P b w = ((n, None), w')"
  shows "n = length b \<and>
    (\<exists>pre wire. framePrefix P w = Inr pre
       \<and> snk_data (w_sink w') = snk_data (w_sink w) @ pre @ wire
       \<and> (\<forall>rest e. \<exists>r'.
            v4ReadFull P (length b) (reader_at (w_key w) (w_nonce w) (wire @ rest) e) = (Inr b, r')
            \<and> v4_pending P r' = v4_pending P (reader_at (w_key w) (w_nonce w') rest e)))"
proof -
  from assms(2,3) have "v4WriteLoop P b 0 w = ((n, None), w')" and "0 < length b"
    by (auto simp: v4Write_def)
  from v4WriteLoop_None [OF this] obtain pre cs where
    cs: "framePrefix P w = Inr pre" "n = length b" "list_all (\<lambda>c. chunk_ok c \<and> fst c \<noteq> []) cs"
      "concat (map fst cs) = b" "w_nonce w' = framesNonce cs (w_nonce w)"
      "snk_data (w_sink w') = snk_data (w_sink w) @ pre @ sealFrames P (w_key w) (w_nonce w) cs"
    by auto
  have "\<exists>r'. v4ReadFull P (length b)
               (reader_at (w_key w) (w_nonce w) (sealFrames P (w_key w) (w_nonce w) cs @ rest) e) = (Inr b, r')
             \<and> v4_pending P r' = v4_pending P (reader_at (w_key w) (w_nonce w') rest e)" for rest e
    using rd_plain_sealFrames [OF assms(1) cs(3), of "w_key w" "w_nonce w" rest e]
    by (intro v4ReadFull_pending) (simp add: cs(4,5))
  with cs show ?thesis by blast
qed

section \<open>Witness primitives\<close>

definition toy_prims :: prims where
  \<comment> \<open>an AEAD with an all-zero tag, to evaluate the model on concrete bytes\<close>
  "toy_prims = \<lparr>sha256 = (\<lambda>_. replicate 32 0), hmac256 = (\<lambda>_ _. replicate 32 7),
     blake3_512 = (\<lambda>_. replicate 64 9), argon2id = (\<lambda>psk salt. take 32 (psk @ salt @ replicate 32 0)),
     gcmSeal = (\<lambda>_ _ p. p @ replicate 16 0),
     gcmOpen = (\<lambda>_ _ c. if length c < 16 then None else Some (take (length c - 16) c)),
     flround = id\<rparr>"

lemma toy_aead [simp]: "aead_ok toy_prims"
  by (simp add: aead_ok_def toy_prims_def)

lemma toy_digest [simp]: "digest_ok toy_prims"
  by (simp add: digest_ok_def toy_prims_def)

definition toy_writer :: v4writer where
  "toy_writer = \<lparr>w_sink = \<lparr>snk_data = [], snk_script = []\<rparr>, w_key = replicate 16 1,
     w_nonce = replicate 12 0, w_salt = replicate 16 2, w_exporter = [], w_psk = [5],
     w_identityVersion = 2, w_saltSent = False, w_initPad = 256, w_payLimit = 0, w_lastWrite = None,
     w_rand = replicate 300 170, w_clock = (\<lambda>i. int i), w_tick = 0\<rparr>"

abbreviation toy_running :: v4writer where
  \<comment> \<open>past its first frame\<close>
  "toy_running \<equiv> toy_writer\<lparr>w_saltSent := True\<rparr>"

lemma toy_write: "fst (v4Write toy_prims [104, 105] toy_running) = (2, None)"
  by (simp add: v4Write_def v4WriteLoop.simps nextPayloadLimit_def toy_writer_def writeFrame_def
      w_seal_def framePrefix_def padFrame_def sendFrame_def ebind_def writeFull_unscripted
      identityWireLength_def slice_def maxPayload_def Let_def)

theorem v4Write_read_back_witness:
  "\<exists>w' pre wire r'. v4Write toy_prims [104, 105] toy_running = ((2, None), w')
     \<and> snk_data (w_sink w') = pre @ wire
     \<and> v4ReadFull toy_prims 2 (reader_at (replicate 16 1) (replicate 12 0) wire EOF) = (Inr [104, 105], r')"
proof -
  obtain w' where w': "v4Write toy_prims [104, 105] toy_running = ((2, None), w')"
    using toy_write by (metis prod.collapse)
  have keys: "w_key toy_running = replicate 16 1" "w_nonce toy_running = replicate 12 0"
    "snk_data (w_sink toy_running) = []"
    by (simp_all add: toy_writer_def)
  note * = v4Write_read_back [OF toy_aead _ w', unfolded keys append_Nil]
  from * obtain pre wire where pre: "snk_data (w_sink w') = pre @ wire"
    and rd: "\<forall>rest e. \<exists>r'. v4ReadFull toy_prims (length [104 :: byte, 105])
        (reader_at (replicate 16 1) (replicate 12 0) (wire @ rest) e) = (Inr [104, 105], r')"
    by blast
  from rd [THEN spec, of "[]", THEN spec, of EOF] obtain r' where
    "v4ReadFull toy_prims 2 (reader_at (replicate 16 1) (replicate 12 0) wire EOF)
       = (Inr [104, 105], r')"
    by (auto simp: numeral_2_eq_2)
  with w' pre show ?thesis by blast
qed

section \<open>Frame sizes\<close>

definition limits_ok :: "v4writer \<Rightarrow> bool" where
  "limits_ok w \<longleftrightarrow> initialPadMin \<le> unat (w_initPad w) \<and> unat (w_initPad w) < initialPadMin + initialPadSpan
     \<and> (w_lastWrite w \<noteq> None \<longrightarrow> 0 < unat (w_payLimit w) \<and> unat (w_payLimit w) \<le> maxPayload)"

lemma newWriter_limits: "newWriter P snk psk ex v ds clk = Some w \<Longrightarrow> limits_ok w"
  by (auto simp: newWriter_def limits_ok_def randInt_def unat_word16 simp del: of_nat_add
      split: option.splits list.splits)

lemma identityWireLength_le: "identityWireLength w \<le> 40"
  by (simp add: identityWireLength_def V1PrefixSize_def V2PrefixSize_def)

lemma first_limit:
  assumes "limits_ok w" and "w_lastWrite w = None"
  shows "unat (fst (nextPayloadLimit w)) = 1405 - identityWireLength w - unat (w_initPad w)"
proof -
  let ?k = "1405 - identityWireLength w - unat (w_initPad w)"
  have "1460 - 55 - int (identityWireLength w) - int (unat (w_initPad w)) = int ?k" and "?k < 65536"
    using assms(1) identityWireLength_le [of w] by (auto simp: limits_ok_def)
  then show ?thesis using assms(2) by (simp add: nextPayloadLimit_def Let_def unat_word16)
qed

lemma nextPayloadLimit_limit:
  assumes "limits_ok w"
  shows "0 < unat (fst (nextPayloadLimit w)) \<and> unat (fst (nextPayloadLimit w)) \<le> maxPayload"
proof (cases "w_lastWrite w")
  case None
  from first_limit [OF assms None] assms identityWireLength_le [of w] show ?thesis
    by (auto simp: limits_ok_def maxPayload_def)
next
  case (Some t)
  with assms show ?thesis
    by (auto simp: nextPayloadLimit_def limits_ok_def maxPayload_def Let_def unat_word16)
qed

lemma nextPayloadLimit_payLimit:
  "unat (w_payLimit (snd (nextPayloadLimit w)))
     = min maxPayload (unat (fst (nextPayloadLimit w)) + frameSize - 39)"
  by (simp add: nextPayloadLimit_def Let_def maxPayload_def min_def unat_word16)

lemma nextPayloadLimit_keeps: "limits_ok w \<Longrightarrow> limits_ok (snd (nextPayloadLimit w))"
proof -
  assume a: "limits_ok w"
  have "w_initPad (snd (nextPayloadLimit w)) = w_initPad w"
    by (simp add: nextPayloadLimit_def Let_def)
  moreover have "0 < unat (w_payLimit (snd (nextPayloadLimit w)))"
    "unat (w_payLimit (snd (nextPayloadLimit w))) \<le> maxPayload"
    unfolding nextPayloadLimit_payLimit by (simp_all add: maxPayload_def)
  ultimately show ?thesis using a by (simp add: limits_ok_def)
qed

text \<open>
  The writer's payload limits never leave the range 1 to 16383, so the guard in \<open>Write\<close>
  that replaces a limit outside it is never taken and no frame is refused as too large. The
  invariant holds for a new writer and every call keeps it, whatever the clock does.
\<close>

theorem nextPayloadLimit_invariant:
  assumes "limits_ok w"
  shows "limits_ok (snd (nextPayloadLimit w))
    \<and> 0 < unat (fst (nextPayloadLimit w)) \<and> unat (fst (nextPayloadLimit w)) \<le> maxPayload"
  using nextPayloadLimit_keeps nextPayloadLimit_limit assms by blast

theorem nextPayloadLimit_invariant_witness:
  "limits_ok toy_writer \<and> limits_ok (snd (nextPayloadLimit toy_writer))
     \<and> unat (fst (nextPayloadLimit toy_writer)) \<le> maxPayload"
proof -
  have ok: "limits_ok toy_writer" by (simp add: limits_ok_def toy_writer_def)
  from ok nextPayloadLimit_invariant [OF ok] show ?thesis by blast
qed

text \<open>The first frame of a \<open>Write\<close>, as it stands on the connection.\<close>

lemma v4Write_first:
  assumes "v4Write P b w = ((n, None), w')" and "b \<noteq> []" and "nextPayloadLimit w = (l, w1)"
    and "0 < unat l" and "unat l \<le> maxPayload"
  obtains pre padding rest where "framePrefix P w = Inr pre"
    "length padding = (if w_saltSent w then 0 else unat (w_initPad w))" "chunk_ok (take (unat l) b, padding)"
    "snk_data (w_sink w') = snk_data (w_sink w) @ pre @ sealFrame P (w_key w) (w_nonce w) (take (unat l) b, padding) @ rest"
proof -
  define stop where "stop = (if length b < unat l then length b else unat l)"
  define pad where "pad = (if \<not> w_saltSent w1 then unat (w_initPad w1) else 0)"
  have sl: "slice b 0 stop = take (unat l) b" by (simp add: slice_def stop_def)
  have loop: "v4WriteLoop P b 0 w = ((n, None), w')" using assms(1,2) by (simp add: v4Write_def)
  have lim: "(if unat l \<le> 0 \<or> maxPayload < unat l then maxPayload else unat l) = unat l"
    using assms(4,5) by simp
  have "0 < length b" using assms(2) by simp
  note v4WriteLoop_step [OF this assms(3), of P, unfolded lim add_0, folded stop_def pad_def, unfolded sl]
  with loop obtain u w2 where f: "writeFrame P (take (unat l) b) pad w1 = (Inr u, w2)"
    and rest: "v4WriteLoop P b stop w2 = ((n, None), w')"
    by (auto split: prod.splits sum.splits)
  from nextPayloadLimit_frame [OF assms(3)] have w1: "same_conn w w1" "w_sink w1 = w_sink w"
    "w_nonce w1 = w_nonce w" "w_saltSent w1 = w_saltSent w" "w_key w1 = w_key w" "w_initPad w1 = w_initPad w"
    by (auto simp: same_conn_def)
  from f obtain padding pre where c: "length padding = pad"
    "chunk_ok (take (unat l) b, padding)" "framePrefix P w1 = Inr pre"
    "snk_data (w_sink w2) = snk_data (w_sink w1) @ pre
       @ sealFrame P (w_key w1) (w_nonce w1) (take (unat l) b, padding)" "w_saltSent w2"
    by (rule writeFrame_Inr)
  have "\<exists>more. snk_data (w_sink w') = snk_data (w_sink w2) @ more"
  proof (cases "stop < length b")
    case False
    with rest show ?thesis by (simp add: v4WriteLoop.simps [of P b stop w2])
  next
    case True
    from v4WriteLoop_None [OF rest this] c(5) show ?thesis by auto
  qed
  then obtain more where "snk_data (w_sink w') = snk_data (w_sink w2) @ more" by blast
  moreover have "framePrefix P w = Inr pre" using c(3) framePrefix_cong [OF w1(1,4)] by simp
  ultimately show thesis using c w1 that [of pre padding more] by (simp add: pad_def)
qed

section \<open>Writes complete\<close>

lemma writeFrame_total:
  assumes "length payload \<le> maxPayload" "padLen \<le> maxPayload" "payload = [] \<longrightarrow> padLen = 0"
    and "snk_script (w_sink w) = []" "framePrefix P w = Inr pre"
    and "padLen = 0 \<or> 8 * padLen + 1 \<le> length (w_rand w)"
  shows "\<exists>w'. writeFrame P payload padLen w = (Inr (), w') \<and> snk_script (w_sink w') = []"
proof -
  define w1 where "w1 = w\<lparr>w_nonce := incNonce (w_nonce w)\<rparr>"
  define w2 where "w2 = (if payload = [] then w1 else w1\<lparr>w_nonce := incNonce (w_nonce w1)\<rparr>)"
  define pc where "pc = (if payload = [] then [] else gcmSeal P (w_key w) (w_nonce w1) payload)"
  have w2: "framePrefix P w2 = Inr pre" "snk_script (w_sink w2) = []" "w_rand w2 = w_rand w"
    using assms(4,5) framePrefix_cong [of w w2 P] by (simp_all add: w2_def w1_def same_conn_def)
  obtain a b w3 where w3: "padFrame P pc padLen (w2\<lparr>w_saltSent := True\<rparr>) = (Inr (a, b), w3)"
    "snk_script (w_sink w3) = []"
  proof (cases "padLen = 0")
    case True
    with w2 that show thesis by (simp add: padFrame_def)
  next
    case False
    with assms(6) makePadding_total [of padLen "w_rand w" P pc] obtain p ds where
      "makePadding P pc padLen (w_rand w) = Some (p, ds)" by auto
    with w2 False that show thesis
      by (cases "swapPadding p pc") (simp add: padFrame_def)
  qed
  have send: "\<exists>w'. sendFrame fr w3 = (Inr (), w') \<and> snk_script (w_sink w') = []" for fr
    using w3(2) by (simp add: sendFrame_def writeFull_unscripted)
  have "writeFrame P payload padLen w =
      ebind (padFrame P pc padLen)
        (\<lambda>(padding, c'). sendFrame (pre @ gcmSeal P (w_key w) (w_nonce w) (frameHeader padLen (length payload)) @ padding @ c'))
        (w2\<lparr>w_saltSent := True\<rparr>)"
    using assms(1-3) w2 by (cases "payload = []")
      (simp_all add: writeFrame_def w_seal_def w1_def w2_def pc_def)
  then show ?thesis using w3 send by (simp add: ebind_Inr)
qed

text \<open>Whether a writer has what its next frames need.\<close>

definition writer_ready :: "v4writer \<Rightarrow> bool" where
  "writer_ready w \<longleftrightarrow> limits_ok w \<and> snk_script (w_sink w) = [] \<and>
     (w_saltSent w \<or> w_psk w \<noteq> [] \<and> length (w_salt w) = SaltSize
        \<and> 8 * unat (w_initPad w) + 1 \<le> length (w_rand w))"

lemma framePrefix_total: "writer_ready w \<Longrightarrow> \<exists>pre. framePrefix P w = Inr pre"
  by (auto simp: writer_ready_def framePrefix_def PrefixV2_def AuthTag_def Let_def split: sum.split)

lemma v4WriteLoop_total:
  "writer_ready w \<Longrightarrow> written \<le> length b \<Longrightarrow>
     fst (v4WriteLoop P b written w) = (length b, None) \<and> writer_ready (snd (v4WriteLoop P b written w))"
proof (induction P b written w rule: v4WriteLoop.induct)
  case (1 P b written w)
  show ?case
  proof (cases "written < length b")
    case False
    with 1 show ?thesis by (simp add: v4WriteLoop.simps)
  next
    case True
    obtain l w1 where l: "nextPayloadLimit w = (l, w1)" by (cases "nextPayloadLimit w")
    define limit where "limit = (if unat l \<le> 0 \<or> maxPayload < unat l then maxPayload else unat l)"
    define stop where "stop = (if length b < written + limit then length b else written + limit)"
    define pad where "pad = (if \<not> w_saltSent w1 then unat (w_initPad w1) else 0)"
    have ready: "limits_ok w" using 1 by (simp add: writer_ready_def)
    have lim: "0 < limit" "limit \<le> maxPayload"
      by (auto simp: limit_def maxPayload_def)
    have w1: "same_conn w w1" "w_sink w1 = w_sink w" "w_saltSent w1 = w_saltSent w"
      "w_rand w1 = w_rand w" "w_payLimit w1 = w_payLimit (snd (nextPayloadLimit w))"
      using nextPayloadLimit_frame [OF l] l by (auto simp: nextPayloadLimit_def Let_def)
    have lo: "limits_ok w1"
      using nextPayloadLimit_keeps [OF ready] l by simp
    have r1: "writer_ready w1"
      using 1(2) w1 lo by (auto simp: writer_ready_def same_conn_def)
    from framePrefix_total [OF r1] obtain pre where pre: "framePrefix P w1 = Inr pre" by blast
    have "length (slice b written stop) \<le> maxPayload" "slice b written stop \<noteq> []"
      using True lim by (auto simp: stop_def slice_def)
    moreover have "pad \<le> maxPayload"
      using lo by (auto simp: pad_def limits_ok_def maxPayload_def)
    moreover have "pad = 0 \<or> 8 * pad + 1 \<le> length (w_rand w1)"
      using r1 by (auto simp: pad_def writer_ready_def)
    ultimately obtain w2 where
      w2: "writeFrame P (slice b written stop) pad w1 = (Inr (), w2)" "snk_script (w_sink w2) = []"
      using writeFrame_total [of "slice b written stop" pad w1 P pre] r1 pre by (auto simp: writer_ready_def)
    from w2(1) have s2: "w_saltSent w2 \<and> same_conn w1 w2 \<and> w_lastWrite w2 = w_lastWrite w1 \<and> w_payLimit w2 = w_payLimit w1"
      by (rule writeFrame_Inr) simp
    have r2: "writer_ready w2"
      using lo s2 w2(2) by (auto simp: writer_ready_def limits_ok_def same_conn_def)
    have "fst (v4WriteLoop P b stop w2) = (length b, None) \<and> writer_ready (snd (v4WriteLoop P b stop w2))"
      by (rule "1.IH" [OF True refl l [symmetric] limit_def stop_def pad_def w2(1) [symmetric] refl r2])
        (use True in \<open>simp add: stop_def\<close>)
    moreover have "v4WriteLoop P b written w = v4WriteLoop P b stop w2"
      using v4WriteLoop_step [OF True l, of P, folded limit_def, folded stop_def pad_def] w2(1) by simp
    ultimately show ?thesis by simp
  qed
qed

text \<open>The states a connection's writer goes through: any calls, failing ones included.\<close>

datatype writer_op = OpWrite bytes | OpPacket bytes

fun writer_run :: "prims \<Rightarrow> writer_op list \<Rightarrow> v4writer \<Rightarrow> v4writer" where
  "writer_run P [] w = w"
| "writer_run P (OpWrite b # ops) w = writer_run P ops (snd (v4Write P b w))"
| "writer_run P (OpPacket b # ops) w = writer_run P ops (snd (writePacketFrame P b w))"

lemma writeFrame_ready:
  assumes "writer_ready w" and "length payload \<le> maxPayload" and "payload = [] \<longrightarrow> padLen = 0"
    and "padLen = 0 \<or> padLen = unat (w_initPad w) \<and> \<not> w_saltSent w"
  obtains w' where "writeFrame P payload padLen w = (Inr (), w')" "writer_ready w'"
proof -
  from framePrefix_total [OF assms(1)] obtain pre where pre: "framePrefix P w = Inr pre" by blast
  have "padLen \<le> maxPayload" "padLen = 0 \<or> 8 * padLen + 1 \<le> length (w_rand w)"
    using assms(1,4) by (auto simp: writer_ready_def limits_ok_def maxPayload_def)
  with writeFrame_total [OF assms(2) _ assms(3) _ pre] assms(1) obtain w' where
    w': "writeFrame P payload padLen w = (Inr (), w')" "snk_script (w_sink w') = []"
    by (auto simp: writer_ready_def)
  from w'(1) have "w_saltSent w' \<and> same_conn w w' \<and> w_lastWrite w' = w_lastWrite w \<and> w_payLimit w' = w_payLimit w"
    by (rule writeFrame_Inr) simp
  with assms(1) w' that show thesis by (auto simp: writer_ready_def limits_ok_def same_conn_def)
qed

lemma v4Write_ready:
  assumes "writer_ready w"
  shows "\<exists>w'. v4Write P b w = ((length b, None), w') \<and> writer_ready w'"
proof (cases "b = []")
  case True
  from writeFrame_ready [OF assms, of "[]" 0 P] obtain w' where "writeFrame P [] 0 w = (Inr (), w')" "writer_ready w'"
    by auto
  with True show ?thesis by (simp add: v4Write_def)
next
  case False
  with v4WriteLoop_total [OF assms, of 0 b P] show ?thesis
    by (cases "v4WriteLoop P b 0 w") (auto simp: v4Write_def)
qed

lemma writePacketFrame_ready: "writer_ready w \<Longrightarrow> writer_ready (snd (writePacketFrame P b w))"
proof -
  assume r: "writer_ready w"
  show ?thesis
  proof (cases "length b \<le> maxPayload")
    case False
    with r show ?thesis by (simp add: writePacketFrame_def writeFrame_def Let_def)
  next
    case True
    obtain w' where "writeFrame P b (if \<not> w_saltSent w \<and> 0 < length b then unat (w_initPad w) else 0) w = (Inr (), w')"
      "writer_ready w'"
      by (rule writeFrame_ready [OF r True, of "if \<not> w_saltSent w \<and> 0 < length b then unat (w_initPad w) else 0" P]) auto
    then show ?thesis by (simp add: writePacketFrame_def Let_def)
  qed
qed

lemma writer_run_ready: "writer_ready w \<Longrightarrow> writer_ready (writer_run P ops w)"
proof (induction P ops w rule: writer_run.induct)
  case (2 P b ops w)
  from v4Write_ready [OF 2(2), of P b] 2(1) show ?case by auto
next
  case (3 P b ops w)
  from 3(1) [OF writePacketFrame_ready [OF 3(2)]] show ?case by simp
qed simp

lemma newWriter_ready:
  assumes "newWriter P snk psk exporter version ds clk = Some w"
    and "snk_script snk = []" and "psk \<noteq> []" and "17 + 8 * 511 + 1 \<le> length ds"
  shows "writer_ready w"
proof -
  have l: "limits_ok w" by (rule newWriter_limits [OF assms(1)])
  then have pad: "unat (w_initPad w) \<le> 511" by (simp add: limits_ok_def)
  obtain d ds' where ds: "drop 16 ds = d # ds'" using assms(4) by (cases "drop 16 ds") auto
  then have "length (drop 16 ds) = length (d # ds')" by (simp only:)
  then have "length ds' + 17 = length ds" using assms(4) by simp
  moreover have "w_sink w = snk" "w_psk w = psk" "length (w_salt w) = SaltSize" "w_rand w = ds'"
    using assms(1,4) ds
    by (auto simp: newWriter_def randomBytes_def randInt_def)
  ultimately show ?thesis using assms(2-4) l pad by (simp add: writer_ready_def)
qed

text \<open>
  C21. A write always completes: take a new writer of a connection with a non-empty PSK on a
  transport that accepts every byte, with a random source good for the salt, the padding length
  and the padding (17 + 8 * 511 + 1 draws), after any sequence of \<open>Write\<close> and
  \<open>writePacketFrame\<close> calls of any data, whatever the clock and the payload limits: the next
  \<open>Write\<close> ends without an error and reports the whole length; what it has put on the transport
  is exactly the prefix the state calls for and frames from which the peer reads the whole data
  and, for the empty \<open>Write\<close> of a half close, the zero chunk.
\<close>
theorem v4Write_completes:
  assumes "newWriter P snk psk exporter version ds clk = Some w0" and "aead_ok P"
    and "snk_script snk = []" and "psk \<noteq> []" and "17 + 8 * 511 + 1 \<le> length ds"
    and "w = writer_run P ops w0"
  shows "\<exists>w' pre wire. v4Write P b w = ((length b, None), w')
    \<and> framePrefix P w = Inr pre \<and> snk_data (w_sink w') = snk_data (w_sink w) @ pre @ wire
    \<and> (b \<noteq> [] \<longrightarrow> (\<forall>e. \<exists>r'. v4ReadFull P (length b) (reader_at (w_key w) (w_nonce w) wire e) = (Inr b, r')
          \<and> v4_pending P r' = []))
    \<and> (b = [] \<longrightarrow> (\<forall>e. \<exists>n'. readFrame P (reader_at (w_key w) (w_nonce w) wire e) = (Inl ZeroChunk, reader_at (w_key w) n' [] e)))"
proof -
  have r: "writer_ready w" unfolding assms(6) by (rule writer_run_ready) (rule newWriter_ready [OF assms(1,3-5)])
  from v4Write_ready [OF r, of P b] obtain w' where w': "v4Write P b w = ((length b, None), w')" by blast
  show ?thesis
  proof (cases "b = []")
    case True
    with w' have "writeFrame P [] 0 w = (Inr (), w')" by (auto simp: v4Write_def split: prod.splits sum.splits)
    then obtain padding pre where c: "padding = []" "framePrefix P w = Inr pre"
      "snk_data (w_sink w') = snk_data (w_sink w) @ pre @ sealFrame P (w_key w) (w_nonce w) ([], padding)"
      by (rule writeFrame_Inr) simp
    with readFrame_sealFrame [OF assms(2), of "([], [])" "w_key w" "w_nonce w" "[]"] w' True show ?thesis
      by (auto simp: chunk_ok_def)
  next
    case False
    then have "v4WriteLoop P b 0 w = ((length b, None), w')" "0 < length b" using w' by (simp_all add: v4Write_def)
    from v4WriteLoop_None [OF this] obtain pre cs where
      cs: "framePrefix P w = Inr pre" "list_all (\<lambda>c. chunk_ok c \<and> fst c \<noteq> []) cs" "concat (map fst cs) = b"
        "snk_data (w_sink w') = snk_data (w_sink w) @ pre @ sealFrames P (w_key w) (w_nonce w) cs"
      by auto
    have e: "rd_plain P (reader_at k m [] e) = []" for k m e
      by (cases "readFrame P (reader_at k m [] e)")
        (auto simp: readFrame_def rd_full_def reader_at_def readFull_def ebind_def intro: rd_plain_error)
    have "\<exists>r'. v4ReadFull P (length b) (reader_at (w_key w) (w_nonce w) (sealFrames P (w_key w) (w_nonce w) cs) e) = (Inr b, r')
        \<and> v4_pending P r' = []" for e
      using rd_plain_sealFrames [OF assms(2) cs(2), of "w_key w" "w_nonce w" "[]" e]
      by (intro v4ReadFull_pending) (simp add: cs(3) e)
    with cs w' False show ?thesis by blast
  qed
qed


theorem v4Write_completes_witness:
  "\<exists>w0 w' pre wire r'. newWriter toy_prims \<lparr>snk_data = [], snk_script = []\<rparr> [5] [] 2 (replicate 5000 9) int = Some w0
     \<and> v4Write toy_prims (replicate 100000 7) (writer_run toy_prims [OpPacket [1], OpWrite []] w0) = ((100000, None), w')
     \<and> snk_data (w_sink w') = snk_data (w_sink (writer_run toy_prims [OpPacket [1], OpWrite []] w0)) @ pre @ wire
     \<and> v4ReadFull toy_prims 100000 (reader_at (w_key (writer_run toy_prims [OpPacket [1], OpWrite []] w0))
          (w_nonce (writer_run toy_prims [OpPacket [1], OpWrite []] w0)) wire EOF) = (Inr (replicate 100000 7), r')"
proof -
  have "drop 16 (replicate 5000 (9 :: nat)) = 9 # replicate 4983 9" by (simp add: replicate_Suc [symmetric] del: replicate_Suc)
  then obtain w0 where w0: "newWriter toy_prims \<lparr>snk_data = [], snk_script = []\<rparr> [5] [] 2 (replicate 5000 9) int = Some w0"
    by (simp add: newWriter_def randomBytes_def randInt_def)
  have "replicate 100000 (7 :: byte) \<noteq> []" "length (replicate 100000 (7 :: byte)) = 100000"
    by (simp_all only: replicate_empty length_replicate)
  with v4Write_completes [OF w0 toy_aead _ _ _ refl, where b = "replicate 100000 7" and ops = "[OpPacket [1], OpWrite []]"]
  obtain w' pre wire where c: "v4Write toy_prims (replicate 100000 7) (writer_run toy_prims [OpPacket [1], OpWrite []] w0) = ((100000, None), w')"
     "snk_data (w_sink w') = snk_data (w_sink (writer_run toy_prims [OpPacket [1], OpWrite []] w0)) @ pre @ wire"
    and r: "\<forall>e. \<exists>r'. v4ReadFull toy_prims 100000 (reader_at (w_key (writer_run toy_prims [OpPacket [1], OpWrite []] w0))
          (w_nonce (writer_run toy_prims [OpPacket [1], OpWrite []] w0)) wire e) = (Inr (replicate 100000 7), r')
          \<and> v4_pending toy_prims r' = []"
    by (auto simp del: writer_run.simps replicate.simps)
  from r obtain r' where "v4ReadFull toy_prims 100000 (reader_at (w_key (writer_run toy_prims [OpPacket [1], OpWrite []] w0))
          (w_nonce (writer_run toy_prims [OpPacket [1], OpWrite []] w0)) wire EOF) = (Inr (replicate 100000 7), r')" by blast
  with w0 c show ?thesis by blast
qed



end
