(* ===== verification/Snell_Conn.thy ===== *)
theory Snell_Conn
  imports Snell_Stream
begin

text \<open>
  \<open>snell.Conn\<close> of \<open>internal/snell/v4.go\<close>: lazily created reader and writer, the CONNECT, UDP
  and PING requests, the one-byte reply that precedes tunnel data, half-closing by a zero
  chunk, and the packet mode used for UDP.
\<close>

section \<open>State and plumbing\<close>

text \<open>
  Before \<open>initReader\<close> the inbound transport is \<open>c_src\<close>, afterwards it is inside the reader;
  likewise \<open>c_sink\<close> and the writer. Deadlines of the transport are not part of the state: an
  expired deadline is an end of the source or a failing write.
\<close>

record conn =
  c_psk :: bytes
  c_exporter :: bytes
  c_identityVersion :: int
  c_src :: source
  c_sink :: sink
  c_r :: "v4reader option"
  c_w :: "v4writer option"
  c_reply :: bool
  c_peerClosed :: bool
  c_rand :: entropy
  c_clock :: "nat \<Rightarrow> int"

definition NewConnIdentity :: "source \<Rightarrow> sink \<Rightarrow> entropy \<Rightarrow> (nat \<Rightarrow> int) \<Rightarrow> bytes \<Rightarrow> bytes \<Rightarrow> int \<Rightarrow> conn" where
  "NewConnIdentity src snk ds clk psk exporter v =
     \<lparr>c_psk = psk, c_exporter = exporter, c_identityVersion = (if v = 0 then 2 else v), c_src = src,
      c_sink = snk, c_r = None, c_w = None, c_reply = False, c_peerClosed = False, c_rand = ds,
      c_clock = clk\<rparr>"

definition initWriter :: "prims \<Rightarrow> conn \<Rightarrow> (snell_err + unit) \<times> conn" where
  "initWriter P c =
     (case newWriter P (c_sink c) (c_psk c) (c_exporter c) (c_identityVersion c) (c_rand c) (c_clock c) of
        None \<Rightarrow> (Inl RandFailed, c\<lparr>c_rand := []\<rparr>)
      | Some w \<Rightarrow> (Inr (), c\<lparr>c_w := Some w\<rparr>))"

definition initReader :: "prims \<Rightarrow> conn \<Rightarrow> (snell_err + unit) \<times> conn" where
  "initReader P c =
     (case readFull SaltSize (c_src c) of
        (Inl e, s) \<Rightarrow> (Inl (Io e), c\<lparr>c_src := s\<rparr>)
      | (Inr salt, s) \<Rightarrow>
          (Inr (), c\<lparr>c_src := s,
                     c_r := Some \<lparr>rd_src = s, rd_key = kdf P (c_psk c) salt,
                                  rd_nonce = replicate 12 0, rd_buf = []\<rparr>\<rparr>))"

definition needReader :: "prims \<Rightarrow> conn \<Rightarrow> (snell_err + unit) \<times> conn" where
  "needReader P c = (case c_r c of None \<Rightarrow> initReader P c | Some _ \<Rightarrow> (Inr (), c))"

definition needWriter :: "prims \<Rightarrow> conn \<Rightarrow> (snell_err + unit) \<times> conn" where
  "needWriter P c = (case c_w c of None \<Rightarrow> initWriter P c | Some _ \<Rightarrow> (Inr (), c))"

definition onReader :: "(v4reader \<Rightarrow> (snell_err + 'a) \<times> v4reader) \<Rightarrow> conn \<Rightarrow> (snell_err + 'a) \<times> conn" where
  "onReader f c =
     (case c_r c of
        None \<Rightarrow> (Inl (Io EOF), c)
      | Some r \<Rightarrow> (case f r of (x, r') \<Rightarrow> (x, c\<lparr>c_r := Some r'\<rparr>)))"

definition onWriter :: "(v4writer \<Rightarrow> (nat \<times> snell_err option) \<times> v4writer) \<Rightarrow> conn \<Rightarrow> (snell_err + nat) \<times> conn" where
  "onWriter f c =
     (case c_w c of
        None \<Rightarrow> (Inl (Io EOF), c)
      | Some w \<Rightarrow>
          (case f w of
             ((n, None), w') \<Rightarrow> (Inr n, c\<lparr>c_w := Some w'\<rparr>)
           | ((n, Some e), w') \<Rightarrow> (Inl e, c\<lparr>c_w := Some w'\<rparr>)))"

section \<open>Operations\<close>

definition readReplyBody :: "prims \<Rightarrow> byte \<Rightarrow> conn \<Rightarrow> (snell_err + unit) \<times> conn" where
  \<comment> \<open>the switch on the reply byte\<close>
  "readReplyBody P cmd c =
     (if cmd = cmdTunnel then (Inr (), c)
      else if cmd = cmdError then
        ebind (onReader (v4ReadFull P 2)) (\<lambda>rest.
        ebind (onReader (v4ReadFull P (unat (rest ! 1)))) (\<lambda>msg c.
          (Inl (ServerError (rest ! 0) msg), c))) c
      else (Inl (UnexpectedReply cmd), c))"

definition ReadReply :: "prims \<Rightarrow> conn \<Rightarrow> (snell_err + unit) \<times> conn" where
  "ReadReply P c =
     (if c_reply c then (Inr (), c)
      else
        ebind (needReader P) (\<lambda>_.
        ebind (onReader (v4ReadFull P 1)) (\<lambda>cmd c.
          readReplyBody P (hd cmd) (c\<lparr>c_reply := True\<rparr>))) c)"

definition zeroChunkEOF :: "(snell_err + 'a) \<times> conn \<Rightarrow> (snell_err + 'a) \<times> conn" where
  \<comment> \<open>\<open>errors.Is(err, ErrZeroChunk)\<close>: note the half-close and report \<open>io.EOF\<close>\<close>
  "zeroChunkEOF x =
     (case x of
        (Inl ZeroChunk, c) \<Rightarrow> (Inl (Io EOF), c\<lparr>c_peerClosed := True\<rparr>)
      | _ \<Rightarrow> x)"

definition cRead :: "prims \<Rightarrow> nat \<Rightarrow> conn \<Rightarrow> (snell_err + bytes) \<times> conn" where
  "cRead P k =
     ebind (ReadReply P) (\<lambda>_. ebind (needReader P) (\<lambda>_ c. zeroChunkEOF (onReader (v4Read P k) c)))"

definition cWrite :: "prims \<Rightarrow> bytes \<Rightarrow> conn \<Rightarrow> (snell_err + nat) \<times> conn" where
  "cWrite P b = ebind (needWriter P) (\<lambda>_. onWriter (v4Write P b))"

definition HalfClose :: "prims \<Rightarrow> conn \<Rightarrow> (snell_err + nat) \<times> conn" where
  "HalfClose P = ebind (needWriter P) (\<lambda>_. onWriter (v4Write P []))"

definition ResetReply :: "conn \<Rightarrow> conn" where
  "ResetReply c = c\<lparr>c_reply := False, c_peerClosed := False\<rparr>"

definition PeerClosed :: "conn \<Rightarrow> bool" where
  "PeerClosed c = c_peerClosed c"

definition Warmup :: "prims \<Rightarrow> io_err option \<Rightarrow> conn \<Rightarrow> (snell_err + unit) \<times> conn" where
  \<comment> \<open>the first argument is \<open>ctx.Err()\<close>\<close>
  "Warmup P ctxErr c =
     (case ctxErr of
        Some e \<Rightarrow> (Inl (Io e), c)
      | None \<Rightarrow>
          ebind (cWrite P [headerVersion, cmdPing, 0]) (\<lambda>_.
          ebind (needReader P) (\<lambda>_.
          ebind (onReader (v4ReadFull P 1)) (\<lambda>reply c.
            if hd reply \<noteq> cmdPong then (Inl (WarmupReply (hd reply)), c) else (Inr (), c)))) c)"

definition connectRequest :: "bool \<Rightarrow> string \<Rightarrow> u16 \<Rightarrow> bytes" where
  "connectRequest reuse host port =
     [headerVersion, if reuse then cmdConnectV2 else cmdConnect, 0, word_of_nat (length host)]
       @ str_bytes host @ be16 port"

definition WriteConnect :: "prims \<Rightarrow> string \<Rightarrow> u16 \<Rightarrow> bool \<Rightarrow> conn \<Rightarrow> (snell_err + nat) \<times> conn" where
  "WriteConnect P host port reuse c =
     (if 255 < length host then (Inl HostTooLong, c) else cWrite P (connectRequest reuse host port) c)"

definition WriteUDP :: "prims \<Rightarrow> conn \<Rightarrow> (snell_err + nat) \<times> conn" where
  "WriteUDP P = cWrite P [headerVersion, cmdUDP, 0]"

definition WritePacket :: "prims \<Rightarrow> bytes \<Rightarrow> conn \<Rightarrow> (snell_err + nat) \<times> conn" where
  "WritePacket P b c =
     (if maxPayload < length b then (Inl FrameTooLarge, c)
      else ebind (needWriter P) (\<lambda>_. onWriter (writePacketFrame P b)) c)"

definition takeBuf :: "prims \<Rightarrow> v4reader \<Rightarrow> (snell_err + bytes) \<times> v4reader" where
  "takeBuf P r = (if rd_buf r \<noteq> [] then (Inr (rd_buf r), r\<lparr>rd_buf := []\<rparr>) else readFrame P r)"

definition ReadPacket :: "prims \<Rightarrow> conn \<Rightarrow> (snell_err + bytes) \<times> conn" where
  "ReadPacket P =
     ebind (ReadReply P) (\<lambda>_. ebind (needReader P) (\<lambda>_ c. zeroChunkEOF (onReader (takeBuf P) c)))"

section \<open>Requests\<close>

text \<open>The server's reading of a CONNECT request: version, command, empty client id, host, port.\<close>

definition parseConnect :: "bytes \<Rightarrow> ((bool \<times> string \<times> u16) \<times> bytes) option" where
  "parseConnect bs =
     (case bs of
        v # cmd # idLen # hostLen # rest \<Rightarrow>
          let n = unat hostLen in
          if v = headerVersion \<and> (cmd = cmdConnect \<or> cmd = cmdConnectV2) \<and> idLen = 0
             \<and> n + 2 \<le> length rest
          then Some ((cmd = cmdConnectV2, bytes_str (take n rest), de16 (rest ! n) (rest ! Suc n)),
                     drop (n + 2) rest)
          else None
      | _ \<Rightarrow> None)"

lemma unat_word8 [simp]: "n < 256 \<Longrightarrow> unat (word_of_nat n :: byte) = n"
  by (simp add: unat_of_nat)

lemma parseConnect_connectRequest:
  "length host \<le> 255 \<Longrightarrow>
     parseConnect (connectRequest reuse host port @ rest) = Some ((reuse, host, port), rest)"
  by (cases reuse) (simp_all add: parseConnect_def connectRequest_def be16_def nth_append Let_def)

interpretation connect_req: codec
  "\<lambda>(reuse, host, port). connectRequest reuse host port" parseConnect "\<lambda>(reuse, host, port). length host \<le> 255"
  by unfold_locales (auto simp: parseConnect_connectRequest)

text \<open>
  The CONNECT request is unambiguous: two requests that put the same bytes on the stream,
  whatever payload follows each, name the same reuse mode, host and port, for every host that
  \<open>WriteConnect\<close> accepts.
\<close>

theorem connectRequest_unambiguous:
  assumes "length host \<le> 255" and "length host' \<le> 255"
    and "connectRequest reuse host port @ data = connectRequest reuse' host' port' @ data'"
  shows "reuse = reuse' \<and> host = host' \<and> port = port' \<and> data = data'"
  using connect_req.enc_unique [of "(reuse, host, port)" "(reuse', host', port')" data data'] assms
  by simp

theorem connectRequest_unambiguous_witness:
  "connectRequest True ''a.example'' 443 @ [1] = connectRequest True ''a.example'' 443 @ [1]
     \<and> ''a.example'' = ''a.example'' \<and> [1 :: byte] = [1]"
  using connectRequest_unambiguous [of "''a.example''" "''a.example''" True 443 "[1]" True 443 "[1]"]
  by simp

section \<open>Replies and data\<close>

definition conn_plain :: "prims \<Rightarrow> conn \<Rightarrow> bytes" where
  \<comment> \<open>the plaintext the peer still has to deliver\<close>
  "conn_plain P c =
     (case c_r c of
        Some r \<Rightarrow> v4_pending P r
      | None \<Rightarrow>
          (case readFull SaltSize (c_src c) of
             (Inl _, _) \<Rightarrow> []
           | (Inr salt, s) \<Rightarrow>
               v4_pending P \<lparr>rd_src = s, rd_key = kdf P (c_psk c) salt, rd_nonce = replicate 12 0,
                             rd_buf = []\<rparr>))"

lemma conn_plain_flags [simp]:
  "conn_plain P (c\<lparr>c_reply := a\<rparr>) = conn_plain P c" "conn_plain P (c\<lparr>c_peerClosed := b\<rparr>) = conn_plain P c"
  by (auto simp: conn_plain_def split: option.split prod.split sum.split)

lemma needReader_Inr:
  "needReader P c = (Inr u, c') \<Longrightarrow> conn_plain P c' = conn_plain P c \<and> c_r c' \<noteq> None
     \<and> c_reply c' = c_reply c \<and> c_peerClosed c' = c_peerClosed c"
  by (auto simp: needReader_def initReader_def conn_plain_def split: option.splits prod.splits sum.splits)

lemma needReader_total: "conn_plain P c \<noteq> [] \<Longrightarrow> \<exists>c'. needReader P c = (Inr (), c')"
  by (auto simp: needReader_def initReader_def conn_plain_def split: option.splits prod.splits sum.splits)

lemma onReader_full:
  assumes "c_r c \<noteq> None" and "conn_plain P c = a @ b"
  shows "\<exists>c'. onReader (v4ReadFull P (length a)) c = (Inr a, c') \<and> conn_plain P c' = b
     \<and> c_r c' \<noteq> None \<and> c_reply c' = c_reply c \<and> c_peerClosed c' = c_peerClosed c"
proof -
  from assms(1) obtain r where r: "c_r c = Some r" by auto
  with assms(2) have "v4_pending P r = a @ b" by (simp add: conn_plain_def)
  from v4ReadFull_pending [OF this] obtain r' where
    "v4ReadFull P (length a) r = (Inr a, r')" "v4_pending P r' = b" by blast
  with r show ?thesis by (simp add: onReader_def conn_plain_def)
qed

text \<open>Up to the switch: the reply byte has been read and \<open>c.reply\<close> is set.\<close>

lemma ReadReply_cmd:
  assumes "\<not> c_reply c" and "conn_plain P c = x # rest"
  shows "\<exists>c1. ReadReply P c = readReplyBody P x c1 \<and> conn_plain P c1 = rest \<and> c_r c1 \<noteq> None
     \<and> c_reply c1 \<and> c_peerClosed c1 = c_peerClosed c"
proof -
  from assms(2) needReader_total [of P c] obtain c0 where c0: "needReader P c = (Inr (), c0)" by auto
  from needReader_Inr [OF c0] assms(2) have "c_r c0 \<noteq> None" "conn_plain P c0 = [x] @ rest"
    "c_peerClosed c0 = c_peerClosed c" by auto
  from onReader_full [OF this(1,2)] this(3) obtain c1 where
    "onReader (v4ReadFull P 1) c0 = (Inr [x], c1)" "conn_plain P c1 = rest" "c_r c1 \<noteq> None"
    "c_peerClosed c1 = c_peerClosed c" by auto
  with assms(1) c0 show ?thesis
    by (intro exI [of _ "c1\<lparr>c_reply := True\<rparr>"]) (simp add: ReadReply_def ebind_Inr)
qed

lemma ReadReply_tunnel:
  "\<not> c_reply c \<Longrightarrow> conn_plain P c = 0 # rest \<Longrightarrow>
     \<exists>c'. ReadReply P c = (Inr (), c') \<and> conn_plain P c' = rest \<and> c_reply c' \<and> c_r c' \<noteq> None
       \<and> c_peerClosed c' = c_peerClosed c"
  using ReadReply_cmd [of c P 0 rest] by (auto simp: readReplyBody_def)

lemma ReadReply_Inr:
  assumes "\<not> c_reply c" and "ReadReply P c = (Inr u, c')"
  shows "conn_plain P c = 0 # conn_plain P c'"
proof -
  from assms obtain c0 where c0: "needReader P c = (Inr (), c0)"
    and "\<exists>cmd c1. onReader (v4ReadFull P 1) c0 = (Inr cmd, c1)
         \<and> readReplyBody P (hd cmd) (c1\<lparr>c_reply := True\<rparr>) = (Inr u, c')"
    by (auto simp: ReadReply_def ebind_eq_Inr)
  then obtain cmd c1 where cmd: "onReader (v4ReadFull P 1) c0 = (Inr cmd, c1)"
    and body: "readReplyBody P (hd cmd) (c1\<lparr>c_reply := True\<rparr>) = (Inr u, c')" by blast
  from body have b: "hd cmd = 0" "c' = c1\<lparr>c_reply := True\<rparr>"
    by (auto simp: readReplyBody_def ebind_eq_Inr split: if_splits)
  from needReader_Inr [OF c0] obtain r where r: "c_r c0 = Some r" by auto
  with cmd obtain r' where r': "v4ReadFull P 1 r = (Inr cmd, r')" "c1 = c0\<lparr>c_r := Some r'\<rparr>"
    by (auto simp: onReader_def split: prod.splits)
  from v4ReadFull_data [OF r'(1)] b(1) have "cmd = [0]" "v4_pending P r = 0 # v4_pending P r'"
    by (auto simp: length_Suc_conv)
  with needReader_Inr [OF c0] r r' b(2) show ?thesis by (simp add: conn_plain_def)
qed

lemma zeroChunkEOF_Inr [simp]: "zeroChunkEOF x = (Inr d, c) \<longleftrightarrow> x = (Inr d, c)"
  by (auto simp: zeroChunkEOF_def split: prod.splits sum.splits snell_err.splits)

lemma onReader_v4Read:
  assumes "onReader (v4Read P k) c = (Inr d, c')"
  shows "conn_plain P c = d @ conn_plain P c'"
proof (cases "c_r c")
  case None
  with assms show ?thesis by (simp add: onReader_def)
next
  case (Some r)
  with assms obtain r' where "v4Read P k r = (Inr d, r')" "c' = c\<lparr>c_r := Some r'\<rparr>"
    by (auto simp: onReader_def split: prod.splits)
  with Some v4src.read_data show ?thesis by (simp add: conn_plain_def)
qed

text \<open>
  C3. Application data comes only behind the server's acceptance: when the first \<open>Read\<close> of a
  stream hands out bytes, the plaintext of the stream starts with the tunnel byte 0, and the
  bytes handed out are the ones that follow it, none lost or added.
\<close>

theorem cRead_after_reply:
  assumes "\<not> c_reply c" and "cRead P k c = (Inr d, c')"
  shows "conn_plain P c = cmdTunnel # d @ conn_plain P c'"
proof -
  from assms(2) obtain c1 c2 where "ReadReply P c = (Inr (), c1)" "needReader P c1 = (Inr (), c2)"
    "onReader (v4Read P k) c2 = (Inr d, c')"
    by (auto simp: cRead_def ebind_eq_Inr)
  with assms(1) ReadReply_Inr needReader_Inr onReader_v4Read show ?thesis by metis
qed

text \<open>
  C19. A refusal is reported as it was sent: for an error reply with code and message the first
  \<open>Read\<close> returns exactly this code and message as its error; any other reply byte than 0 and 2
  is reported as unexpected.
\<close>

theorem cRead_refused:
  assumes "\<not> c_reply c"
    and "conn_plain P c = cmdError # code # len # msg @ rest" and "length msg = unat len"
    and "\<not> c_reply v" and "conn_plain P v = x # tail" and "x \<noteq> cmdTunnel" and "x \<noteq> cmdError"
  shows "fst (cRead P k c) = Inl (ServerError code msg) \<and> fst (cRead P k v) = Inl (UnexpectedReply x)"
proof
  from ReadReply_cmd [OF assms(1,2)] obtain c1 where
    c1: "ReadReply P c = readReplyBody P 2 c1" "conn_plain P c1 = [code, len] @ msg @ rest" "c_r c1 \<noteq> None"
    by auto
  from onReader_full [OF c1(3,2)] obtain c2 where
    c2: "onReader (v4ReadFull P 2) c1 = (Inr [code, len], c2)" "conn_plain P c2 = msg @ rest" "c_r c2 \<noteq> None"
    by (auto simp: numeral_2_eq_2)
  from onReader_full [OF c2(3,2)] assms(3) obtain c3 where
    c3: "onReader (v4ReadFull P (unat len)) c2 = (Inr msg, c3)" by auto
  from c2 c3 have "readReplyBody P 2 c1 = (Inl (ServerError code msg), c3)"
    by (simp add: readReplyBody_def ebind_Inr [of "onReader (v4ReadFull P 2)" c1] ebind_Inr)
  with c1(1) show "fst (cRead P k c) = Inl (ServerError code msg)"
    by (simp add: cRead_def ebind_def)
  from ReadReply_cmd [OF assms(4,5)] obtain c4 where "ReadReply P v = readReplyBody P x c4" by auto
  with assms(6,7) show "fst (cRead P k v) = Inl (UnexpectedReply x)"
    by (simp add: cRead_def ebind_def readReplyBody_def)
qed

text \<open>
  \<open>ReadReply\<close> marks the reply as read before it looks at it: a second call after a refusal
  succeeds, and so a second \<open>Read\<close> takes what follows for data of the tunnel.
\<close>

theorem ReadReply_second:
  assumes "\<not> c_reply c" and "conn_plain P c = x # rest" and "x \<noteq> cmdTunnel" and "x \<noteq> cmdError"
  shows "\<exists>c'. ReadReply P c = (Inl (UnexpectedReply x), c') \<and> ReadReply P c' = (Inr (), c') \<and> conn_plain P c' = rest"
proof -
  from ReadReply_cmd [OF assms(1,2)] obtain c1 where
    "ReadReply P c = readReplyBody P x c1" "conn_plain P c1 = rest" "c_reply c1" by auto
  with assms(3,4) show ?thesis by (intro exI [of _ c1]) (simp add: readReplyBody_def ReadReply_def)
qed

definition toy_conn :: "bytes \<Rightarrow> conn" where
  \<comment> \<open>a connection whose peer sends one frame with the given plaintext and then closes\<close>
  "toy_conn payload =
     NewConnIdentity
       \<lparr>src_data = replicate 16 3 @ sealFrame toy_prims (kdf toy_prims [5] (replicate 16 3)) (replicate 12 0)
                    (payload, []), src_end = EOF\<rparr>
       \<lparr>snk_data = [], snk_script = []\<rparr> [] (\<lambda>i. int i) [5] [] 2"

lemma conn_plain_toy:
  assumes "payload \<noteq> []" and "length payload \<le> maxPayload"
  shows "conn_plain toy_prims (toy_conn payload) = payload"
proof -
  let ?k = "kdf toy_prims [5] (replicate 16 3)"
  have "rd_plain toy_prims (reader_at ?k (replicate 12 0)
      (sealFrames toy_prims ?k (replicate 12 0) [(payload, [])] @ []) EOF)
    = payload @ rd_plain toy_prims (reader_at ?k (framesNonce [(payload, [])] (replicate 12 0)) [] EOF)"
    using rd_plain_sealFrames [OF toy_aead, of "[(payload, [])]" ?k "replicate 12 0" "[]" EOF] assms
    by (simp add: chunk_ok_def)
  moreover have "rd_plain toy_prims (reader_at ?k n [] EOF) = []" for n
    by (simp add: rd_plain.simps readFrame_def ebind_def rd_full_def reader_at_def readFull_def)
  ultimately show ?thesis
    by (simp add: conn_plain_def toy_conn_def NewConnIdentity_def v4_pending_def reader_at_def)
qed

lemma toy_conn_reply [simp]: "\<not> c_reply (toy_conn payload)"
  by (simp add: toy_conn_def NewConnIdentity_def)

lemma cRead_total:
  assumes "\<not> c_reply c" and "conn_plain P c = 0 # a # rest"
  shows "\<exists>d c'. cRead P k c = (Inr d, c')"
proof -
  from ReadReply_tunnel [OF assms] obtain c1 r where
    c1: "ReadReply P c = (Inr (), c1)" "conn_plain P c1 = a # rest" "c_r c1 = Some r" by auto
  then have "v4_pending P r \<noteq> []" by (simp add: conn_plain_def)
  with v4src.read_err obtain d r' where "v4Read P k r = (Inr d, r')" by (metis surj_pair sumE)
  with c1 show ?thesis by (simp add: cRead_def ebind_def needReader_def onReader_def)
qed

theorem cRead_after_reply_witness:
  "\<exists>d c'. cRead toy_prims 4 (toy_conn [0, 104, 105]) = (Inr d, c')
     \<and> [0, 104, 105] = 0 # d @ conn_plain toy_prims c'"
proof -
  have plain: "conn_plain toy_prims (toy_conn [0, 104, 105]) = [0, 104, 105]"
    by (rule conn_plain_toy) (simp_all add: maxPayload_def)
  from cRead_total [OF toy_conn_reply plain] obtain d c' where
    r: "cRead toy_prims 4 (toy_conn [0, 104, 105]) = (Inr d, c')" by blast
  from cRead_after_reply [OF toy_conn_reply r] r plain show ?thesis by auto
qed

theorem cRead_refused_witness:
  "fst (cRead toy_prims 4 (toy_conn [2, 7, 1, 33])) = Inl (ServerError 7 [33])
     \<and> fst (cRead toy_prims 4 (toy_conn [9])) = Inl (UnexpectedReply 9)"
proof -
  have plain: "conn_plain toy_prims (toy_conn [2, 7, 1, 33]) = 2 # 7 # 1 # [33] @ []"
    "conn_plain toy_prims (toy_conn [9]) = 9 # []"
    by (simp_all add: conn_plain_toy maxPayload_def)
  show ?thesis
    by (rule cRead_refused [OF toy_conn_reply plain(1) _ toy_conn_reply plain(2)]) simp_all
qed

section \<open>Half-closing\<close>

lemma readFrame_end:
  "readFrame P (reader_at key n [] e) = (Inl (Io e), reader_at key n [] e)"
  by (simp add: readFrame_def ebind_def rd_full_def reader_at_def readFull_def)

lemma v4Write_Nil:
  assumes "v4Write P [] w = ((n, None), w')" and "w_saltSent w"
  shows "snk_data (w_sink w') = snk_data (w_sink w) @ sealFrame P (w_key w) (w_nonce w) ([], [])"
proof -
  from assms(1) obtain u where "writeFrame P [] 0 w = (Inr u, w')"
    by (auto simp: v4Write_def split: prod.splits sum.splits)
  then show ?thesis by (rule writeFrame_Inr) (use assms(2) in simp_all)
qed

text \<open>
  C4. A half-close is told apart from a broken transport. The zero chunk that \<open>HalfClose\<close>
  writes (an empty \<open>Write\<close>) makes the peer's \<open>Read\<close> report \<open>io.EOF\<close> with \<open>PeerClosed\<close> true; a
  transport that ends at the same point makes it report the transport's error and leaves
  \<open>PeerClosed\<close> as it was, even when that error is \<open>io.EOF\<close>.
\<close>

theorem half_close_versus_drop:
  assumes "aead_ok P" and "w_saltSent w" and "v4Write P [] w = ((n, None), w')"
    and "snk_data (w_sink w') = snk_data (w_sink w) @ wire"
    and "c_reply c" and "c_r c = Some (reader_at (w_key w) (w_nonce w) (wire @ rest) e)"
    and "c_reply d" and "c_r d = Some (reader_at (w_key w) (w_nonce w) [] e')"
  shows "fst (cRead P k c) = Inl (Io EOF) \<and> PeerClosed (snd (cRead P k c))
    \<and> fst (cRead P k d) = Inl (Io e') \<and> PeerClosed (snd (cRead P k d)) = PeerClosed d"
proof -
  have wire: "wire = sealFrame P (w_key w) (w_nonce w) ([], [])"
    using v4Write_Nil [OF assms(3,2)] assms(4) by simp
  have "rd_buf (reader_at x y z u) = []" for x y z u by (simp add: reader_at_def)
  moreover have "readFrame P (reader_at (w_key w) (w_nonce w) (wire @ rest) e)
      = (Inl ZeroChunk, reader_at (w_key w) (frameNonce ([], []) (w_nonce w)) rest e)"
    using readFrame_sealFrame [OF assms(1), of "([], [])"] by (simp add: wire chunk_ok_def)
  ultimately show ?thesis
    using assms(5-8)
    by (simp add: cRead_def ebind_def ReadReply_def needReader_def onReader_def v4Read_def
        zeroChunkEOF_def PeerClosed_def readFrame_end)
qed

theorem half_close_versus_drop_witness:
  "\<exists>c. fst (cRead toy_prims 8 c) = Inl (Io EOF) \<and> PeerClosed (snd (cRead toy_prims 8 c))"
proof -
  let ?c = "(toy_conn [0])\<lparr>c_reply := True,
    c_r := Some (reader_at (w_key toy_running) (w_nonce toy_running)
      (sealFrame toy_prims (w_key toy_running) (w_nonce toy_running) ([], []) @ []) EOF)\<rparr>"
  let ?d = "(toy_conn [0])\<lparr>c_reply := True,
    c_r := Some (reader_at (w_key toy_running) (w_nonce toy_running) [] EOF)\<rparr>"
  have "\<exists>w'. v4Write toy_prims [] toy_running = ((0, None), w')"
    by (simp add: v4Write_def toy_writer_def writeFrame_def w_seal_def framePrefix_def padFrame_def
        sendFrame_def ebind_def writeFull_unscripted maxPayload_def)
  then obtain w' where w': "v4Write toy_prims [] toy_running = ((0, None), w')" by blast
  have sent: "w_saltSent toy_running" by simp
  have "fst (cRead toy_prims 8 ?c) = Inl (Io EOF) \<and> PeerClosed (snd (cRead toy_prims 8 ?c))"
    using half_close_versus_drop [OF toy_aead sent w' v4Write_Nil [OF w' sent], of ?c "[]" EOF ?d EOF 8]
    by simp
  then show ?thesis by blast
qed

end
