(* ===== verification/Websocket.thy ===== *)
theory Websocket
  imports Crypto
begin

text \<open>
  The WebSocket transport of \<open>internal/dialer/ws.go\<close>: the client's frame writer with its
  masking, the frame reader with its length forms and its limit, the control frames (ping is
  answered, pong ignored, close ends the stream) and \<open>Read\<close>, which turns data frames into a
  byte stream for the Snell layer above.
\<close>

section \<open>Frames\<close>

definition maxWSFrame :: nat where "maxWSFrame = 2 ^ 20"

datatype ws_err = WsIo io_err | WsTooLarge | WsOpcode byte | WsRand

definition maskBytes :: "bytes \<Rightarrow> bytes \<Rightarrow> bytes" where
  "maskBytes key p = map (\<lambda>i. p ! i XOR key ! (i mod 4)) [0..<length p]"

definition wsHeader :: "byte \<Rightarrow> nat \<Rightarrow> bytes" where
  "wsHeader opcode n =
     (0x80 OR opcode) #
     (if n < 126 then [0x80 OR word_of_nat n]
      else if n < 65536 then [0x80 OR 126, word_of_nat (n div 256), word_of_nat n]
      else (0x80 OR 127) # be64 (word_of_nat n))"

definition wsEncode :: "bytes \<Rightarrow> byte \<times> bytes \<Rightarrow> bytes" where
  "wsEncode key f = wsHeader (fst f) (length (snd f)) @ key @ maskBytes key (snd f)"

definition wsLength :: "byte \<Rightarrow> source \<Rightarrow> (ws_err + nat) \<times> source" where
  \<comment> \<open>the \<open>switch n\<close> of \<open>readFrame\<close> and the check that follows it\<close>
  "wsLength b s =
     (let n = unat (b AND 0x7f);
          checked = (\<lambda>k t. if maxWSFrame < k then (Inl WsTooLarge, t) else (Inr k, t))
      in if n = 126 then
           (case readFull 2 s of
              (Inl e, t) \<Rightarrow> (Inl (WsIo e), t)
            | (Inr x, t) \<Rightarrow> checked (unat (de16 (x ! 0) (x ! 1))) t)
         else if n = 127 then
           (case readFull 8 s of
              (Inl e, t) \<Rightarrow> (Inl (WsIo e), t)
            | (Inr x, t) \<Rightarrow>
                if maxWSFrame < unat (de64 x) then (Inl WsTooLarge, t) else checked (unat (de64 x)) t)
         else checked n s)"

definition wsFull :: "nat \<Rightarrow> source \<Rightarrow> (ws_err + bytes) \<times> source" where
  "wsFull n s = (case readFull n s of (Inl e, t) \<Rightarrow> (Inl (WsIo e), t) | (Inr d, t) \<Rightarrow> (Inr d, t))"

definition wsParse :: "source \<Rightarrow> (ws_err + byte \<times> bytes) \<times> source" where
  \<comment> \<open>\<open>readFrame\<close> up to \<open>switch opcode\<close>: opcode and unmasked payload\<close>
  "wsParse =
     ebind (wsFull 2) (\<lambda>hdr.
     ebind (wsLength (hdr ! 1)) (\<lambda>n.
     ebind (if hdr ! 1 AND 0x80 \<noteq> 0 then wsFull 4 else (\<lambda>s. (Inr (replicate 4 0), s))) (\<lambda>key.
     ebind (wsFull n) (\<lambda>payload s.
       (Inr (hdr ! 0 AND 0x0f,
             if hdr ! 1 AND 0x80 \<noteq> 0 then maskBytes key payload else payload), s)))))"

lemma length_maskBytes [simp]: "length (maskBytes key p) = length p"
  by (simp add: maskBytes_def)

lemma maskBytes_involution [simp]: "maskBytes key (maskBytes key p) = p"
  by (rule nth_equalityI) (simp_all add: maskBytes_def xor.assoc)

lemma be64_digit:
  "push_bit 8 (drop_bit (k + 8) w) OR ucast (ucast (drop_bit k w) :: byte) = drop_bit k (w :: 64 word)"
proof (rule bit_eqI)
  fix n
  have "n < 8 \<or> k + 8 + (n - 8) = k + n" by linarith
  then show "bit (push_bit 8 (drop_bit (k + 8) w) OR ucast (ucast (drop_bit k w) :: byte)) n
      \<longleftrightarrow> bit (drop_bit k w) n"
    by (auto simp: bit_simps dest: bit_imp_le_length)
qed

lemma be64_top: "ucast (ucast (drop_bit 56 w) :: byte) = drop_bit 56 (w :: 64 word)"
  by (rule bit_eqI) (auto simp: bit_simps dest: bit_imp_le_length)

lemma de64_be64: "de64 (be64 w) = w"
  using be64_digit [of 48 w] be64_digit [of 40 w] be64_digit [of 32 w] be64_digit [of 24 w]
    be64_digit [of 16 w] be64_digit [of 8 w] be64_digit [of 0 w]
  by (simp add: de64_def be64_def be64_top)

lemma unat_de64_be64 [simp]: "n < 2 ^ 64 \<Longrightarrow> unat (de64 (be64 (word_of_nat n))) = n"
  by (simp add: de64_be64 unat_of_nat)

lemma and_0x7f: "(0x80 OR x) AND (0x7f :: byte) = take_bit 7 x"
  by (simp add: bit.conj_disj_distrib2 take_bit_eq_mask mask_eq_exp_minus_1)

lemma and_0x0f: "(0x80 OR x) AND (0x0f :: byte) = take_bit 4 x"
  by (simp add: bit.conj_disj_distrib2 take_bit_eq_mask mask_eq_exp_minus_1)

lemma and_0x80: "(0x80 OR x) AND (0x80 :: byte) \<noteq> 0"
proof -
  have "bit ((0x80 OR x) AND (0x80 :: byte)) 7" by (simp add: bit_simps)
  then show ?thesis by auto
qed

lemma be16_bytes: "n < 65536 \<Longrightarrow> be16 (word_of_nat n) = [word_of_nat (n div 256), word_of_nat n]"
proof -
  assume "n < 65536"
  then have "ucast (drop_bit 8 (word_of_nat n :: u16)) = (word_of_nat (n div 256) :: byte)"
    by (simp add: word_unat_eq_iff unsigned_ucast_eq unsigned_drop_bit_eq unat_of_nat drop_bit_eq_div
        take_bit_eq_mod unat_div)
  moreover have "ucast (word_of_nat n :: u16) = (word_of_nat n :: byte)"
    by (simp add: word_unat_eq_iff unsigned_ucast_eq unat_of_nat take_bit_eq_mod mod_mod_cancel)
  ultimately show ?thesis by (simp add: be16_def)
qed

lemma byte_len_bits: "n < 128 \<Longrightarrow> unat ((0x80 OR word_of_nat n :: byte) AND 0x7f) = n"
  unfolding and_0x7f by (simp add: unsigned_take_bit_eq unat_of_nat take_bit_nat_eq_self)

lemma opcode_bits: "unat opcode < 16 \<Longrightarrow> (0x80 OR opcode) AND 0x0f = (opcode :: byte)"
  unfolding and_0x0f
  by (simp add: word_unat_eq_iff unsigned_take_bit_eq take_bit_nat_eq_self)

lemma opcode_bits_w: "unat opcode < 16 \<Longrightarrow> take_bit 4 opcode = (opcode :: byte)"
  using opcode_bits by (simp add: and_0x0f)

section \<open>The frame layout of RFC 6455\<close>

text \<open>
  Written from the RFC, with the final bit and with or without a mask: a client masks its frames,
  a server does not.
\<close>

definition ws_frame :: "bool \<Rightarrow> bytes option \<Rightarrow> byte \<Rightarrow> bytes \<Rightarrow> bytes" where
  "ws_frame fin key opcode p =
     (let n = length p; m = (if key = None then 0 else 128 :: nat) in
      [word_of_nat ((if fin then 128 else 0) + unat opcode)]
      @ (if n < 126 then [word_of_nat (m + n)]
         else if n < 65536 then [word_of_nat (m + 126), word_of_nat (n div 256), word_of_nat (n mod 256)]
         else word_of_nat (m + 127) # map (\<lambda>i. word_of_nat (n div 256 ^ i mod 256)) [7, 6, 5, 4, 3, 2, 1, 0])
      @ (case key of
           None \<Rightarrow> p
         | Some k \<Rightarrow> k @ map (\<lambda>i. p ! i XOR k ! (i mod 4)) [0..<n]))"

definition wsFrame_ok :: "byte \<times> bytes \<Rightarrow> bool" where
  "wsFrame_ok f \<longleftrightarrow> unat (fst f) < 16 \<and> length (snd f) \<le> maxWSFrame"

lemma bit_0x80: "bit (0x80 :: byte) n \<longleftrightarrow> n = 7"
proof -
  have "(0x80 :: byte) = 2 ^ 7" by simp
  then show ?thesis by (simp only: bit_exp_iff) auto
qed

lemma low7_0x80: "take_bit 7 w AND (0x80 :: byte) = 0"
proof (rule bit_eqI)
  fix n
  have "\<not> (bit (take_bit 7 w) n \<and> bit (0x80 :: byte) n)"
    unfolding bit_0x80 bit_take_bit_iff by simp
  then show "bit (take_bit 7 w AND (0x80 :: byte)) n \<longleftrightarrow> bit (0 :: byte) n"
    by (simp only: bit_and_iff bit_0_eq bot_fun_def bot_bool_def)
qed

lemma low7: "n < 128 \<Longrightarrow> take_bit 7 (word_of_nat n :: byte) = word_of_nat n"
  by (simp add: word_unat_eq_iff unsigned_take_bit_eq unat_of_nat take_bit_nat_eq_self)

lemma or_0x80: "n < 128 \<Longrightarrow> 0x80 OR word_of_nat n = (word_of_nat (128 + n) :: byte)"
proof -
  assume n: "n < 128"
  have "word_of_nat n AND (0x80 :: byte) = 0" using low7_0x80 low7 [OF n] by metis
  then have "word_of_nat n OR 0x80 = (word_of_nat n + 0x80 :: byte)"
    by (metis disjunctive_add_eq_or)
  then show ?thesis by (simp add: or.commute add.commute)
qed

lemma low_bits:
  assumes "n < 128"
  shows "(word_of_nat n :: byte) AND 0x80 = 0" and "unat ((word_of_nat n :: byte) AND 0x7f) = n"
    and "(word_of_nat (128 + n) :: byte) AND 0x80 \<noteq> 0" and "unat ((word_of_nat (128 + n) :: byte) AND 0x7f) = n"
proof -
  show "(word_of_nat n :: byte) AND 0x80 = 0" using low7_0x80 low7 [OF assms] by metis
  have "w AND (0x7f :: byte) = take_bit 7 w" for w by (simp add: take_bit_eq_mask mask_eq_exp_minus_1)
  with low7 [OF assms] show "unat ((word_of_nat n :: byte) AND 0x7f) = n" using assms by (simp add: unat_of_nat)
  show "(word_of_nat (128 + n) :: byte) AND 0x80 \<noteq> 0" "unat ((word_of_nat (128 + n) :: byte) AND 0x7f) = n"
    unfolding or_0x80 [OF assms, symmetric] by (rule and_0x80, rule byte_len_bits [OF assms])
qed

lemma low_nibble:
  assumes "unat op < 16"
  shows "(word_of_nat ((if fin then 128 else 0) + unat op) :: byte) AND 0x0f = op"
proof -
  have "(word_of_nat (128 + unat op) :: byte) = 0x80 OR op" using or_0x80 [of "unat op"] assms by simp
  moreover have "op AND 0x0f = take_bit 4 op" by (simp add: take_bit_eq_mask mask_eq_exp_minus_1)
  ultimately show ?thesis
    using opcode_bits [OF assms] opcode_bits_w [OF assms] by (cases fin) simp_all
qed

section \<open>The parser undoes the writer\<close>

abbreviation wsSource :: "bytes \<Rightarrow> io_err \<Rightarrow> source" where
  "wsSource data e \<equiv> \<lparr>src_data = data, src_end = e\<rparr>"

lemma wsFull_append [simp]:
  "length a = k \<Longrightarrow> wsFull k (wsSource (a @ b) e) = (Inr a, wsSource b e)"
  by (simp add: wsFull_def)

lemma be64_bytes:
  "be64 (word_of_nat n) = map (\<lambda>i. word_of_nat (n div 256 ^ i mod 256)) [7, 6, 5, 4, 3, 2, 1, 0]" if "n < 2 ^ 64"
proof -
  have "unat (drop_bit (8 * i) (word_of_nat n :: 64 word)) = n div 256 ^ i" for i
  proof -
    have "unat (drop_bit (8 * i) (word_of_nat n :: 64 word)) = drop_bit (8 * i) (unat (word_of_nat n :: 64 word))"
      using unsigned_less [of "word_of_nat n :: 64 word", where 'a = nat]
      by (simp add: unsigned_drop_bit_eq take_bit_nat_eq_self)
    then show ?thesis using that by (simp add: unat_of_nat drop_bit_eq_div power_mult)
  qed
  moreover have "(ucast w :: byte) = word_of_nat (unat w mod 256)" for w :: "64 word"
    by (simp add: word_unat_eq_iff unsigned_ucast_eq unat_of_nat take_bit_eq_mod)
  ultimately have "(ucast (drop_bit (8 * i) (word_of_nat n :: 64 word)) :: byte) = word_of_nat (n div 256 ^ i mod 256)" for i
    by simp
  from this [of 7] this [of 6] this [of 5] this [of 4] this [of 3] this [of 2] this [of 1] this [of 0]
  show ?thesis by (simp add: be64_def)
qed

definition ws_len7 :: "nat \<Rightarrow> nat" where
  "ws_len7 n = (if n < 126 then n else if n < 65536 then 126 else 127)"

definition ws_ext :: "nat \<Rightarrow> bytes" where
  "ws_ext n = (if n < 126 then [] else if n < 65536 then be16 (word_of_nat n) else be64 (word_of_nat n))"

lemma ws_frame_parts:
  assumes "length p \<le> maxWSFrame"
  shows "ws_frame fin key op p =
    [word_of_nat ((if fin then 128 else 0) + unat op),
     word_of_nat ((if key = None then 0 else 128) + ws_len7 (length p))] @ ws_ext (length p)
    @ (case key of None \<Rightarrow> p | Some k \<Rightarrow> k @ maskBytes k p)"
proof -
  have "length p < 2 ^ 64" using assms by (simp add: maxWSFrame_def)
  moreover have "(word_of_nat (length p mod 256) :: byte) = word_of_nat (length p)"
    by (simp add: word_unat_eq_iff unat_of_nat)
  ultimately show ?thesis
    by (auto simp: ws_frame_def Let_def ws_len7_def ws_ext_def be16_bytes be64_bytes maskBytes_def
        simp del: map_eq_conv split: option.split)
qed

lemma ws_len7_less: "ws_len7 n < 128"
  by (simp add: ws_len7_def)

lemma wsLength_ext:
  assumes "unat (b AND 0x7f) = ws_len7 n" and "n \<le> maxWSFrame"
  shows "wsLength b (wsSource (ws_ext n @ rest) e) = (Inr n, wsSource rest e)"
proof -
  consider "n < 126" | "126 \<le> n" "n < 65536" | "65536 \<le> n" by linarith
  then show ?thesis
    using assms
    by cases (simp_all add: wsLength_def Let_def ws_len7_def ws_ext_def maxWSFrame_def unat_of_nat)
qed

lemma wsParse_frame:
  assumes "wsFrame_ok (op, p)" and "\<forall>k. key = Some k \<longrightarrow> length k = 4"
  shows "wsParse (wsSource (ws_frame fin key op p @ rest) e) = (Inr (op, p), wsSource rest e)"
proof -
  define h0 :: byte where "h0 = word_of_nat ((if fin then 128 else 0) + unat op)"
  define h1 :: byte where "h1 = word_of_nat ((if key = None then 0 else 128) + ws_len7 (length p))"
  have p: "length p \<le> maxWSFrame" and op: "unat op < 16" using assms(1) by (simp_all add: wsFrame_ok_def)
  have f: "ws_frame fin key op p @ rest = [h0, h1] @ ws_ext (length p)
      @ ((case key of None \<Rightarrow> p | Some k \<Rightarrow> k @ maskBytes k p) @ rest)"
    by (simp add: ws_frame_parts [OF p] h0_def h1_def)
  have h: "h0 AND 0x0f = op" "unat (h1 AND 0x7f) = ws_len7 (length p)" "h1 AND 0x80 \<noteq> 0 \<longleftrightarrow> key \<noteq> None"
    using low_nibble [OF op] low_bits [OF ws_len7_less [of "length p"]] by (simp_all add: h0_def h1_def)
  have w: "wsFull 2 (wsSource (h0 # h1 # d) e) = (Inr [h0, h1], wsSource d e)" for d
    using wsFull_append [of "[h0, h1]" 2 d e] by simp
  note l = wsLength_ext [OF h(2) p]
  show ?thesis
  proof (cases key)
    case None
    with h w show ?thesis unfolding f
      by (simp add: wsParse_def ebind_def w l)
  next
    case (Some k)
    with assms(2) have k: "length k = 4" by simp
    with Some h w show ?thesis unfolding f
      by (simp add: wsParse_def ebind_def w l)
  qed
qed

lemma wsEncode_frame:
  assumes "wsFrame_ok (op, p)"
  shows "wsEncode key (op, p) = ws_frame True (Some key) op p"
proof -
  have p: "length p \<le> maxWSFrame" and op: "unat op < 16" using assms by (simp_all add: wsFrame_ok_def)
  have "0x80 OR op = (word_of_nat (128 + unat op) :: byte)" using or_0x80 [of "unat op"] op by simp
  moreover have "0x80 OR word_of_nat (ws_len7 (length p)) = (word_of_nat (128 + ws_len7 (length p)) :: byte)"
    by (rule or_0x80) (rule ws_len7_less)
  moreover have "wsHeader op n = [0x80 OR op, 0x80 OR word_of_nat (ws_len7 n)] @ ws_ext n" for n
    by (simp add: wsHeader_def ws_len7_def ws_ext_def be16_bytes)
  ultimately show ?thesis unfolding ws_frame_parts [OF p] wsEncode_def by simp
qed

lemma wsParse_wsEncode:
  assumes "length key = 4" and "wsFrame_ok f"
  shows "wsParse (wsSource (wsEncode key f @ rest) e) = (Inr f, wsSource rest e)"
  using assms wsParse_frame [of "fst f" "snd f" "Some key" True] wsEncode_frame [of "fst f" "snd f" key]
  by simp

definition wsDecode :: "bytes \<Rightarrow> ((byte \<times> bytes) \<times> bytes) option" where
  "wsDecode bs = (case wsParse (wsSource bs EOF) of (Inl _, _) \<Rightarrow> None | (Inr f, s) \<Rightarrow> Some (f, src_data s))"

interpretation ws_frames: codec "wsEncode (take 4 (key @ replicate 4 0))" wsDecode wsFrame_ok for key
  by unfold_locales (simp add: wsDecode_def wsParse_wsEncode)

section \<open>The connection\<close>

record wsconn =
  ws_src :: source
  ws_sink :: sink
  ws_rbuf :: bytes
  ws_rand :: entropy

definition wsSend :: "bytes \<Rightarrow> wsconn \<Rightarrow> (ws_err + unit) \<times> wsconn" where
  \<comment> \<open>one \<open>c.Conn.Write\<close>\<close>
  "wsSend b c =
     (case conn_write b (ws_sink c) of
        (Inl e, s) \<Rightarrow> (Inl (WsIo e), c\<lparr>ws_sink := s\<rparr>)
      | (Inr n, s) \<Rightarrow> (Inr (), c\<lparr>ws_sink := s\<rparr>))"

definition wsWriteFrame :: "byte \<Rightarrow> bytes \<Rightarrow> wsconn \<Rightarrow> (ws_err + unit) \<times> wsconn" where
  "wsWriteFrame opcode payload c =
     (case randomBytes 4 (ws_rand c) of
        None \<Rightarrow> (Inl WsRand, c\<lparr>ws_rand := []\<rparr>)
      | Some (key, ds) \<Rightarrow>
          ebind (wsSend (wsHeader opcode (length payload) @ key))
            (\<lambda>_. if length payload = 0 then (\<lambda>c. (Inr (), c)) else wsSend (maskBytes key payload))
            (c\<lparr>ws_rand := ds\<rparr>))"

definition wsDispatch :: "byte \<times> bytes \<Rightarrow> wsconn \<Rightarrow> (ws_err + bytes option) \<times> wsconn" where
  \<comment> \<open>\<open>switch opcode\<close>: \<open>None\<close> is the nil payload of a control frame\<close>
  "wsDispatch f c =
     (let opcode = fst f; payload = snd f in
      if opcode = 8 then (Inl (WsIo EOF), c)
      else if opcode = 9 then ebind (wsWriteFrame 0xA payload) (\<lambda>_ c. (Inr None, c)) c
      else if opcode = 0xA then (Inr None, c)
      else if opcode = 1 \<or> opcode = 2 \<or> opcode = 0 then (Inr (Some payload), c)
      else (Inl (WsOpcode opcode), c))"

definition wsReadFrame :: "wsconn \<Rightarrow> (ws_err + bytes option) \<times> wsconn" where
  "wsReadFrame c =
     (case wsParse (ws_src c) of
        (Inl e, s) \<Rightarrow> (Inl e, c\<lparr>ws_src := s\<rparr>)
      | (Inr f, s) \<Rightarrow> wsDispatch f (c\<lparr>ws_src := s\<rparr>))"

definition ws_left :: "wsconn \<Rightarrow> nat" where
  "ws_left c = length (src_data (ws_src c))"

lemma wsFull_left:
  "wsFull n s = (Inr d, t) \<Longrightarrow> length (src_data s) = n + length (src_data t) \<and> length d = n"
  by (auto simp: wsFull_def split: prod.splits sum.splits dest: readFull_InrD)

lemma wsLength_left: "wsLength b s = (Inr n, t) \<Longrightarrow> length (src_data t) \<le> length (src_data s) \<and> n \<le> maxWSFrame"
  by (auto simp: wsLength_def Let_def split: if_splits prod.splits sum.splits dest!: readFull_InrD)

lemma wsParse_left:
  "wsParse s = (Inr f, t) \<Longrightarrow>
     length (src_data t) + 2 + length (snd f) \<le> length (src_data s) \<and> length (snd f) \<le> maxWSFrame"
  by (auto simp: wsParse_def ebind_eq_Inr split: if_splits dest!: wsLength_left wsFull_left)

lemma wsSend_src: "wsSend b c = (x, c') \<Longrightarrow> ws_src c' = ws_src c \<and> ws_rbuf c' = ws_rbuf c"
  by (auto simp: wsSend_def split: prod.splits sum.splits)

lemma wsWriteFrame_src: "wsWriteFrame op p c = (x, c') \<Longrightarrow> ws_src c' = ws_src c \<and> ws_rbuf c' = ws_rbuf c"
  by (auto simp: wsWriteFrame_def ebind_def split: option.splits prod.splits sum.splits if_splits
      dest!: wsSend_src)

lemma wsDispatch_src: "wsDispatch f c = (x, c') \<Longrightarrow> ws_src c' = ws_src c \<and> ws_rbuf c' = ws_rbuf c"
  by (auto simp: wsDispatch_def ebind_def Let_def split: if_splits prod.splits sum.splits
      dest: wsWriteFrame_src)

lemma wsReadFrame_left: "wsReadFrame c = (Inr p, c') \<Longrightarrow> ws_left c' < ws_left c \<and> ws_rbuf c' = ws_rbuf c"
  by (auto simp: wsReadFrame_def ws_left_def split: prod.splits sum.splits
      dest!: wsParse_left wsDispatch_src)

function wsRead :: "nat \<Rightarrow> wsconn \<Rightarrow> (ws_err + bytes) \<times> wsconn" where
  "wsRead k c =
     (if ws_rbuf c = [] then
        (case wsReadFrame c of
           (Inl e, c') \<Rightarrow> (Inl e, c')
         | (Inr None, c') \<Rightarrow> wsRead k c'
         | (Inr (Some payload), c') \<Rightarrow> wsRead k (c'\<lparr>ws_rbuf := payload\<rparr>))
      else (Inr (take k (ws_rbuf c)), c\<lparr>ws_rbuf := drop k (ws_rbuf c)\<rparr>))"
  by pat_completeness auto
termination
  by (relation "measure (\<lambda>(k, c). ws_left c)") (auto simp: ws_left_def dest!: wsReadFrame_left [OF sym])

declare wsRead.simps [simp del]

definition wsWrite :: "bytes \<Rightarrow> wsconn \<Rightarrow> (ws_err + nat) \<times> wsconn" where
  "wsWrite p = ebind (wsWriteFrame 0x2 p) (\<lambda>_ c. (Inr (length p), c))"

definition wsClose :: "wsconn \<Rightarrow> wsconn" where
  \<comment> \<open>the close frame; closing the transport is outside the state\<close>
  "wsClose c = snd (wsWriteFrame 0x8 [0x03, 0xe8] c)"

section \<open>The reader as a source of bytes\<close>

definition ws_buf :: "bytes \<Rightarrow> ('e + 'a) \<times> wsconn \<Rightarrow> ('e + 'a) \<times> wsconn" where
  "ws_buf b = map_prod id (\<lambda>c. c\<lparr>ws_rbuf := b\<rparr>)"

lemma wsSend_buf: "wsSend x (c\<lparr>ws_rbuf := b\<rparr>) = ws_buf b (wsSend x c)"
  by (simp add: wsSend_def ws_buf_def split: prod.splits sum.splits)

lemma wsSend_buf_rand:
  "wsSend x (c\<lparr>ws_rbuf := b, ws_rand := r\<rparr>) = ws_buf b (wsSend x (c\<lparr>ws_rand := r\<rparr>))"
proof -
  have "c\<lparr>ws_rbuf := b, ws_rand := r\<rparr> = c\<lparr>ws_rand := r, ws_rbuf := b\<rparr>" by simp
  then show ?thesis by (simp only: wsSend_buf)
qed

lemma wsWriteFrame_buf: "wsWriteFrame op x (c\<lparr>ws_rbuf := b\<rparr>) = ws_buf b (wsWriteFrame op x c)"
  by (auto simp: wsWriteFrame_def ebind_def wsSend_buf wsSend_buf_rand ws_buf_def
      split: option.splits prod.splits sum.splits)

lemma wsDispatch_buf: "wsDispatch f (c\<lparr>ws_rbuf := b\<rparr>) = ws_buf b (wsDispatch f c)"
  by (auto simp: wsDispatch_def ebind_def wsWriteFrame_buf ws_buf_def Let_def
      split: prod.splits sum.splits)

lemma wsDispatch_buf_src:
  "wsDispatch f (c\<lparr>ws_rbuf := b, ws_src := r\<rparr>) = ws_buf b (wsDispatch f (c\<lparr>ws_src := r\<rparr>))"
proof -
  have "c\<lparr>ws_rbuf := b, ws_src := r\<rparr> = c\<lparr>ws_src := r, ws_rbuf := b\<rparr>" by simp
  then show ?thesis by (simp only: wsDispatch_buf)
qed

lemma wsReadFrame_buf: "wsReadFrame (c\<lparr>ws_rbuf := b\<rparr>) = ws_buf b (wsReadFrame c)"
  by (auto simp: wsReadFrame_def wsDispatch_buf_src ws_buf_def split: prod.splits sum.splits)

function ws_plain :: "wsconn \<Rightarrow> bytes" where
  \<comment> \<open>the payloads of all data frames up to the first error\<close>
  "ws_plain c =
     (case wsReadFrame c of
        (Inl e, c') \<Rightarrow> []
      | (Inr None, c') \<Rightarrow> ws_plain c'
      | (Inr (Some p), c') \<Rightarrow> p @ ws_plain c')"
  by pat_completeness auto
termination
  by (relation "measure ws_left") (auto dest!: wsReadFrame_left [OF sym])

declare ws_plain.simps [simp del]

definition ws_pending :: "wsconn \<Rightarrow> bytes" where
  "ws_pending c = ws_rbuf c @ ws_plain c"

lemma ws_plain_buf [simp]: "ws_plain (c\<lparr>ws_rbuf := b\<rparr>) = ws_plain c"
proof (induction c arbitrary: b rule: ws_plain.induct)
  case (1 c)
  then show ?case
    by (simp add: ws_plain.simps [of "c\<lparr>ws_rbuf := b\<rparr>"] ws_plain.simps [of c] wsReadFrame_buf
        ws_buf_def split: prod.split sum.split option.split)
qed

lemma wsRead_buffered:
  "ws_rbuf c \<noteq> [] \<Longrightarrow> wsRead k c = (Inr (take k (ws_rbuf c)), c\<lparr>ws_rbuf := drop k (ws_rbuf c)\<rparr>)"
  by (simp add: wsRead.simps [of k c])

lemma wsRead_laws:
  "(wsRead k c = (Inr d, c') \<longrightarrow> ws_pending c = d @ ws_pending c' \<and> length d \<le> k)
   \<and> (wsRead k c = (Inl e, c') \<longrightarrow> ws_pending c = [])"
proof (induction k c rule: wsRead.induct)
  case (1 k c)
  show ?case
  proof (cases "ws_rbuf c = []")
    case False
    then show ?thesis by (auto simp: wsRead_buffered ws_pending_def simp flip: append_assoc)
  next
    case True
    obtain x c1 where r: "wsReadFrame c = (x, c1)" by (cases "wsReadFrame c")
    consider e where "x = Inl e" | "x = Inr None" | p where "x = Inr (Some p)"
      by (metis option.exhaust sumE)
    then show ?thesis
    proof cases
      case 1
      with r True show ?thesis
        by (simp add: wsRead.simps [of k c] ws_pending_def ws_plain.simps [of c])
    next
      case 2
      with r have b: "ws_rbuf c1 = []" using wsReadFrame_left True by auto
      from 2 r True b have "ws_pending c = ws_pending c1" "wsRead k c = wsRead k c1"
        by (simp_all add: wsRead.simps [of k c] ws_pending_def ws_plain.simps [of c])
      with "1.IH"(1) [OF True r [symmetric] 2] show ?thesis by simp
    next
      case (3 p)
      with r True have "ws_pending c = ws_pending (c1\<lparr>ws_rbuf := p\<rparr>)"
        "wsRead k c = wsRead k (c1\<lparr>ws_rbuf := p\<rparr>)"
        by (simp_all add: wsRead.simps [of k c] ws_pending_def ws_plain.simps [of c])
      with "1.IH"(2) [OF True r [symmetric] 3] show ?thesis by simp
    qed
  qed
qed

interpretation ws_stream: byte_source wsRead ws_pending
  by unfold_locales (use wsRead_laws in blast)+

section \<open>What the connection delivers and sends\<close>

type_synonym ws_fr = "bool \<times> bytes option \<times> byte \<times> bytes"
  \<comment> \<open>final bit, masking key, opcode, payload\<close>

abbreviation fr_op :: "ws_fr \<Rightarrow> byte" where "fr_op f \<equiv> fst (snd (snd f))"
abbreviation fr_payload :: "ws_fr \<Rightarrow> bytes" where "fr_payload f \<equiv> snd (snd (snd f))"

definition wire :: "ws_fr list \<Rightarrow> bytes" where
  "wire fs = concat (map (\<lambda>(fin, key, op, p). ws_frame fin key op p) fs)"

definition stream_ok :: "ws_fr list \<Rightarrow> bool" where
  \<comment> \<open>frames with or without a mask: data, ping and pong frames within the size limit\<close>
  "stream_ok fs \<longleftrightarrow>
     (\<forall>(fin, key, op, p) \<in> set fs. (\<forall>k. key = Some k \<longrightarrow> length k = 4) \<and> length p \<le> maxWSFrame
        \<and> op \<in> {0, 1, 2, 9, 10})"

definition data_of :: "ws_fr list \<Rightarrow> bytes" where
  \<comment> \<open>the payloads of the data frames\<close>
  "data_of fs = concat (map fr_payload (filter (\<lambda>f. fr_op f \<in> {0, 1, 2}) fs))"

definition pings :: "ws_fr list \<Rightarrow> bytes list" where
  "pings fs = map fr_payload (filter (\<lambda>f. fr_op f = 9) fs)"

fun pongs :: "entropy \<Rightarrow> bytes list \<Rightarrow> bytes" where
  \<comment> \<open>the answers: one masked pong with the same payload for each ping\<close>
  "pongs ds [] = []"
| "pongs ds (p # ps) = ws_frame True (Some (map word_of_nat (take 4 ds))) 10 p @ pongs (drop 4 ds) ps"

lemma wsWriteFrame_plain:
  assumes "snk_script (ws_sink c) = []" and "4 \<le> length (ws_rand c)"
  shows "wsWriteFrame op p c =
    (Inr (), c\<lparr>ws_rand := drop 4 (ws_rand c),
               ws_sink := (ws_sink c)\<lparr>snk_data := snk_data (ws_sink c)
                  @ wsEncode (map word_of_nat (take 4 (ws_rand c))) (op, p)\<rparr>\<rparr>)"
  using assms
  by (cases "p = []")
     (simp_all add: wsWriteFrame_def randomBytes_def ebind_def wsSend_def conn_write_def wsEncode_def
      maskBytes_def)

definition ws_at :: "bytes \<Rightarrow> bytes \<Rightarrow> io_err \<Rightarrow> bytes \<Rightarrow> entropy \<Rightarrow> wsconn" where
  \<comment> \<open>a connection with \<open>buf\<close> buffered, \<open>data\<close> to read, that has sent \<open>sent\<close>\<close>
  "ws_at buf data e sent ds =
     \<lparr>ws_src = wsSource data e, ws_sink = \<lparr>snk_data = sent, snk_script = []\<rparr>, ws_rbuf = buf, ws_rand = ds\<rparr>"

lemma stream_ok_Cons: "stream_ok ((fin, key, op, p) # fs) \<longleftrightarrow> (\<forall>k. key = Some k \<longrightarrow> length k = 4)
    \<and> length p \<le> maxWSFrame \<and> op \<in> {0, 1, 2, 9, 10} \<and> stream_ok fs"
  by (simp add: stream_ok_def)

lemma wsReadFrame_at:
  assumes "stream_ok ((fin, key, op, p) # fs)"
  shows "wsReadFrame (ws_at buf (wire ((fin, key, op, p) # fs) @ rest) e sent ds)
    = wsDispatch (op, p) (ws_at buf (wire fs @ rest) e sent ds)"
proof -
  have "wsFrame_ok (op, p)" "\<forall>k. key = Some k \<longrightarrow> length k = 4"
    using assms by (auto simp: stream_ok_Cons wsFrame_ok_def)
  from wsParse_frame [OF this] show ?thesis by (simp add: wsReadFrame_def ws_at_def wire_def)
qed

lemma wsRead_step:
  assumes "stream_ok ((fin, key, op, p) # fs)" and "op = 9 \<longrightarrow> 4 \<le> length ds"
  shows "wsRead k (ws_at [] (wire ((fin, key, op, p) # fs) @ rest) e sent ds) =
    (if op \<in> {0, 1, 2} then wsRead k (ws_at p (wire fs @ rest) e sent ds)
     else if op = 9 then wsRead k (ws_at [] (wire fs @ rest) e
            (sent @ ws_frame True (Some (map word_of_nat (take 4 ds))) 10 p) (drop 4 ds))
     else wsRead k (ws_at [] (wire fs @ rest) e sent ds))"
proof -
  have op: "op \<in> {0, 1, 2, 9, 10}" and "wsFrame_ok (0xA, p)"
    using assms(1) by (simp_all add: stream_ok_Cons wsFrame_ok_def)
  note enc = wsEncode_frame [OF this(2)]
  have buf: "(ws_at [] d e sent ds)\<lparr>ws_rbuf := p\<rparr> = ws_at p d e sent ds" "ws_rbuf (ws_at [] d e sent ds) = []" for d
    by (simp_all add: ws_at_def)
  have ping: "wsWriteFrame 0xA p (ws_at [] d e sent ds) =
      (Inr (), ws_at [] d e (sent @ ws_frame True (Some (map word_of_nat (take 4 ds))) 10 p) (drop 4 ds))"
    if "4 \<le> length ds" for d
    using that enc by (simp add: wsWriteFrame_plain ws_at_def)
  show ?thesis
    using op assms(2)
    by (subst wsRead.simps) (auto simp: wsReadFrame_at [OF assms(1)] wsDispatch_def buf ebind_def ping)
qed

text \<open>One \<open>Read\<close> on a wire of such frames: it returns data, or all data has been returned.\<close>

lemma wsRead_at:
  assumes "stream_ok fs" and "4 * length (pings fs) \<le> length ds"
  shows "(\<exists>d buf' fs' sent' ds'.
        wsRead k (ws_at buf (wire fs @ rest) e sent ds) = (Inr d, ws_at buf' (wire fs' @ rest) e sent' ds')
        \<and> buf @ data_of fs = d @ buf' @ data_of fs' \<and> buf @ data_of fs \<noteq> [] \<and> (0 < k \<longrightarrow> d \<noteq> []) \<and> stream_ok fs'
        \<and> 4 * length (pings fs') \<le> length ds' \<and> sent' @ pongs ds' (pings fs') = sent @ pongs ds (pings fs))
    \<or> (buf @ data_of fs = [] \<and> (\<exists>ds'. wsRead k (ws_at buf (wire fs @ rest) e sent ds)
          = wsRead k (ws_at [] rest e (sent @ pongs ds (pings fs)) ds')))"
  using assms
proof (induction fs arbitrary: buf sent ds)
  case Nil
  show ?case
  proof (cases "buf = []")
    case True
    then show ?thesis by (auto simp: data_of_def wire_def pings_def)
  next
    case False
    then have "wsRead k (ws_at buf rest e sent ds) = (Inr (take k buf), ws_at (drop k buf) rest e sent ds)"
      by (subst wsRead_buffered) (simp_all add: ws_at_def)
    with False Nil show ?thesis
      by (intro disjI1 exI [of _ "take k buf"] exI [of _ "drop k buf"] exI [of _ "[]"] exI [of _ sent] exI [of _ ds])
        (simp add: data_of_def wire_def)
  qed
next
  case (Cons f fs)
  obtain fin key op p where f: "f = (fin, key, op, p)" by (cases f)
  show ?case
  proof (cases "buf = []")
    case False
    then have "wsRead k (ws_at buf (wire (f # fs) @ rest) e sent ds)
        = (Inr (take k buf), ws_at (drop k buf) (wire (f # fs) @ rest) e sent ds)"
      by (subst wsRead_buffered) (simp_all add: ws_at_def)
    with False Cons.prems show ?thesis
      by (intro disjI1 exI [of _ "take k buf"] exI [of _ "drop k buf"] exI [of _ "f # fs"] exI [of _ sent] exI [of _ ds])
        simp
  next
    case True
    have ok: "stream_ok fs" "op \<in> {0, 1, 2, 9, 10}" using Cons.prems(1) f by (simp_all add: stream_ok_Cons)
    note step = wsRead_step [OF Cons.prems(1) [unfolded f], of ds k rest e sent]
    consider "op \<in> {0, 1, 2}" | "op = 9" | "op = 10" using ok(2) by auto
    then show ?thesis
    proof cases
      case 1
      then have "op \<noteq> 9" by auto
      with 1 have c: "[] @ data_of (f # fs) = p @ data_of fs" "pings (f # fs) = pings fs"
        by (simp_all add: f data_of_def pings_def)
      have r: "wsRead k (ws_at [] (wire (f # fs) @ rest) e sent ds) = wsRead k (ws_at p (wire fs @ rest) e sent ds)"
        using step 1 \<open>op \<noteq> 9\<close> by (simp only: f if_True simp_thms)
      show ?thesis unfolding True c r by (rule Cons.IH [OF ok(1)]) (use Cons.prems(2) c in simp)
    next
      case 2
      let ?s = "sent @ ws_frame True (Some (map word_of_nat (take 4 ds))) 10 p"
      have c: "[] @ data_of (f # fs) = [] @ data_of fs" "pings (f # fs) = p # pings fs"
        using 2 by (simp_all add: f data_of_def pings_def)
      then have l: "4 \<le> length ds" using Cons.prems(2) by simp
      have r: "wsRead k (ws_at [] (wire (f # fs) @ rest) e sent ds) = wsRead k (ws_at [] (wire fs @ rest) e ?s (drop 4 ds))"
        using step 2 l by (simp add: f)
      have o: "sent @ pongs ds (p # pings fs) = ?s @ pongs (drop 4 ds) (pings fs)" by simp
      show ?thesis unfolding True c r o by (rule Cons.IH [OF ok(1)]) (use Cons.prems(2) c in simp)
    next
      case 3
      have c: "[] @ data_of (f # fs) = [] @ data_of fs" "pings (f # fs) = pings fs"
        using 3 by (simp_all add: f data_of_def pings_def)
      have r: "wsRead k (ws_at [] (wire (f # fs) @ rest) e sent ds) = wsRead k (ws_at [] (wire fs @ rest) e sent ds)"
        using step 3 by (simp add: f)
      show ?thesis unfolding True c r by (rule Cons.IH [OF ok(1)]) (use Cons.prems(2) c in simp)
    qed
  qed
qed

text \<open>After the frames: the end of the transport, or a close frame.\<close>

definition ws_tail :: "bytes \<Rightarrow> io_err \<Rightarrow> io_err \<Rightarrow> bool" where
  \<comment> \<open>after \<open>rest\<close>, on a transport that ends with \<open>e\<close>, the reader reports \<open>err\<close>\<close>
  "ws_tail rest e err \<longleftrightarrow> rest = [] \<and> err = e
     \<or> (\<exists>fin key p junk. rest = ws_frame fin key 8 p @ junk \<and> (\<forall>k. key = Some k \<longrightarrow> length k = 4)
          \<and> length p \<le> maxWSFrame \<and> err = EOF)"

lemma wsRead_tail:
  assumes "ws_tail rest e err"
  shows "\<exists>d. wsRead k (ws_at [] rest e sent ds) = (Inl (WsIo err), ws_at [] d e sent ds) \<and> (rest = [] \<longrightarrow> d = [])"
  using assms unfolding ws_tail_def
proof (elim disjE exE conjE)
  assume "rest = []" "err = e"
  then show ?thesis
    by (subst wsRead.simps) (simp add: wsReadFrame_def wsParse_def wsFull_def readFull_def ebind_def ws_at_def)
next
  fix fin key p junk
  assume r: "rest = ws_frame fin key 8 p @ junk" "\<forall>k. key = Some k \<longrightarrow> length k = 4" "length p \<le> maxWSFrame" "err = EOF"
  then have "wsParse (wsSource rest e) = (Inr (8, p), wsSource junk e)"
    using wsParse_frame [of 8 p key fin] by (simp add: wsFrame_ok_def)
  moreover have "rest \<noteq> []" using r(1,3) by (simp add: ws_frame_parts)
  ultimately show ?thesis
    by (subst wsRead.simps) (simp add: wsReadFrame_def wsDispatch_def ws_at_def r(4))
qed

lemma reads_at:
  assumes "stream_ok fs" and "4 * length (pings fs) \<le> length ds" and "ws_tail rest e err"
    and "reads wsRead ks (ws_at buf (wire fs @ rest) e sent ds) = (got, c')"
  shows "(\<exists>r. buf @ data_of fs = got @ r \<and> (length (buf @ data_of fs) \<le> length (filter (\<lambda>k. 0 < k) ks) \<longrightarrow> r = []))
    \<and> (rest = [] \<longrightarrow> (\<exists>buf' fs' sent' ds'. c' = ws_at buf' (wire fs') e sent' ds' \<and> buf @ data_of fs = got @ buf' @ data_of fs'
          \<and> stream_ok fs' \<and> 4 * length (pings fs') \<le> length ds' \<and> sent' @ pongs ds' (pings fs') = sent @ pongs ds (pings fs)))"
  using assms(1,2,4)
proof (induction ks arbitrary: buf fs sent ds got)
  case Nil
  then have "\<exists>buf' fs' sent' ds'. c' = ws_at buf' (wire fs') e sent' ds'
      \<and> buf @ data_of fs = got @ buf' @ data_of fs' \<and> stream_ok fs' \<and> 4 * length (pings fs') \<le> length ds'
      \<and> sent' @ pongs ds' (pings fs') = sent @ pongs ds (pings fs)" if "rest = []"
    using that by (intro exI [of _ buf] exI [of _ fs] exI [of _ sent] exI [of _ ds]) simp
  with Nil show ?case by simp
next
  case (Cons k ks)
  from wsRead_at [OF Cons.prems(1,2), of k buf rest e sent] show ?case
  proof (elim disjE exE conjE)
    fix d buf' fs' sent' ds'
    assume a: "wsRead k (ws_at buf (wire fs @ rest) e sent ds) = (Inr d, ws_at buf' (wire fs' @ rest) e sent' ds')"
      and b: "buf @ data_of fs = d @ buf' @ data_of fs'" "0 < k \<longrightarrow> d \<noteq> []"
      and ok: "stream_ok fs'" "4 * length (pings fs') \<le> length ds'"
      and o: "sent' @ pongs ds' (pings fs') = sent @ pongs ds (pings fs)"
    obtain got' where g: "reads wsRead ks (ws_at buf' (wire fs' @ rest) e sent' ds') = (got', c')" "got = d @ got'"
      using Cons.prems(3) a by (auto split: prod.splits)
    note IH = Cons.IH [OF ok g(1)]
    from IH obtain r where r: "buf' @ data_of fs' = got' @ r"
      "length (buf' @ data_of fs') \<le> length (filter (\<lambda>k. 0 < k) ks) \<longrightarrow> r = []" by blast
    have "length (buf' @ data_of fs') \<le> length (filter (\<lambda>k. 0 < k) ks)"
      if "length (buf @ data_of fs) \<le> length (filter (\<lambda>k. 0 < k) (k # ks))"
      using that b by (cases d) (auto split: if_splits)
    with r b(1) g(2) have "buf @ data_of fs = got @ r
        \<and> (length (buf @ data_of fs) \<le> length (filter (\<lambda>k. 0 < k) (k # ks)) \<longrightarrow> r = [])" by simp
    moreover have "rest = [] \<longrightarrow> (\<exists>buf' fs' sent' ds'. c' = ws_at buf' (wire fs') e sent' ds'
          \<and> buf @ data_of fs = got @ buf' @ data_of fs' \<and> stream_ok fs' \<and> 4 * length (pings fs') \<le> length ds'
          \<and> sent' @ pongs ds' (pings fs') = sent @ pongs ds (pings fs))"
      using IH b(1) g(2) o by fastforce
    ultimately show ?thesis by blast
  next
    fix ds'
    assume a: "buf @ data_of fs = []" "wsRead k (ws_at buf (wire fs @ rest) e sent ds)
          = wsRead k (ws_at [] rest e (sent @ pongs ds (pings fs)) ds')"
    from wsRead_tail [OF assms(3), of k "sent @ pongs ds (pings fs)" ds'] obtain d where
      d: "wsRead k (ws_at buf (wire fs @ rest) e sent ds) = (Inl (WsIo err), ws_at [] d e (sent @ pongs ds (pings fs)) ds')"
        "rest = [] \<longrightarrow> d = []"
      using a(2) by auto
    with Cons.prems(3) have g: "got = []" "c' = ws_at [] d e (sent @ pongs ds (pings fs)) ds'" by simp_all
    have "rest = [] \<longrightarrow> c' = ws_at [] (wire []) e (sent @ pongs ds (pings fs)) ds' \<and> buf @ data_of fs = got @ [] @ data_of []
       \<and> stream_ok [] \<and> 4 * length (pings []) \<le> length ds' \<and> (sent @ pongs ds (pings fs)) @ pongs ds' (pings []) = sent @ pongs ds (pings fs)"
      using g a(1) d(2) by (simp add: wire_def data_of_def pings_def stream_ok_def)
    with a(1) g(1) show ?thesis by blast
  qed
qed

text \<open>
  C14. A message of at most 2^20 bytes that \<open>wsConn.Write\<close> accepts is on the wire one final
  binary frame of RFC 6455 (opcode 2), masked with four fresh random bytes; the reader parses it
  back to the same bytes and nothing of what follows it; the call consumes the four random bytes
  and reports the whole length.
\<close>
theorem wsWrite_read_back:
  assumes "snk_script (ws_sink c) = []" and "4 \<le> length (ws_rand c)" and "length p \<le> maxWSFrame"
  shows "\<exists>key c'. wsWrite p c = (Inr (length p), c')
    \<and> key = map word_of_nat (take 4 (ws_rand c)) \<and> length key = 4
    \<and> snk_data (ws_sink c') = snk_data (ws_sink c) @ ws_frame True (Some key) 2 p
    \<and> ws_src c' = ws_src c \<and> ws_rbuf c' = ws_rbuf c \<and> ws_rand c' = drop 4 (ws_rand c)
    \<and> (\<forall>rest e. wsParse (wsSource (ws_frame True (Some key) 2 p @ rest) e) = (Inr (2, p), wsSource rest e))"
proof -
  let ?key = "map word_of_nat (take 4 (ws_rand c)) :: bytes"
  have k: "length ?key = 4" using assms(2) by simp
  have ok: "wsFrame_ok (2, p)" using assms(3) by (simp add: wsFrame_ok_def)
  from k wsParse_frame [OF ok, of "Some ?key" True]
  have "\<forall>rest e. wsParse (wsSource (ws_frame True (Some ?key) 2 p @ rest) e) = (Inr (2, p), wsSource rest e)" by simp
  with k show ?thesis
    by (simp add: wsWrite_def ebind_Inr wsWriteFrame_plain assms(1,2) wsEncode_frame [OF ok])
qed

theorem wsWrite_read_back_witness:
  "\<exists>c'. wsWrite [7, 8] (ws_at [] [] EOF [1] [5, 6, 7, 8, 9]) = (Inr 2, c')
    \<and> snk_data (ws_sink c') = [1, 0x82, 0x82, 5, 6, 7, 8, 2, 14]
    \<and> wsParse (wsSource ([0x82, 0x82, 5, 6, 7, 8, 2, 14] @ [3]) EOF) = (Inr (2, [7, 8]), wsSource [3] EOF)"
proof -
  have "take 4 (ws_rand (ws_at [] [] EOF [1] [5, 6, 7, 8, 9])) = [5, 6, 7, 8]" by (simp add: ws_at_def)
  moreover have "ws_frame True (Some [5, 6, 7, 8]) 2 [7, 8] = [0x82, 0x82, 5, 6, 7, 8, 2, 14]"
    by (simp add: ws_frame_def Let_def)
  ultimately show ?thesis
    using wsWrite_read_back [of "ws_at [] [] EOF [1] [5, 6, 7, 8, 9]" "[7, 8]"]
    by (auto simp: ws_at_def maxWSFrame_def)
qed

text \<open>
  C13. The reader of a WebSocket connection: over any wire of data, ping and pong frames in the
  layout of RFC 6455, masked or not, final or not, followed by the end of the transport or a
  close frame with anything after it, the bytes that successive \<open>Read\<close> calls return, whatever
  their buffer sizes, are the data payloads in order - control frames never appear in the
  stream, nothing is lost across short reads, nothing behind a close frame is read -, and as
  many reads into non-empty buffers as there are bytes return all of them. When all data has
  been returned and the transport has ended, the next \<open>Read\<close> reports the error of the
  transport, and by then exactly one pong with the same payload has been sent for every ping.
\<close>
theorem wsRead_stream:
  assumes "stream_ok fs" and "4 * length (pings fs) \<le> length ds" and "ws_tail rest e err"
    and "reads wsRead ks (ws_at [] (wire fs @ rest) e sent ds) = (got, c')"
  shows "(\<exists>r. data_of fs = got @ r \<and> (length (data_of fs) \<le> length (filter (\<lambda>k. 0 < k) ks) \<longrightarrow> r = []))
    \<and> (rest = [] \<and> got = data_of fs \<longrightarrow> (\<exists>c''. wsRead k c' = (Inl (WsIo e), c'')
          \<and> snk_data (ws_sink c'') = sent @ pongs ds (pings fs)))"
proof (intro conjI impI)
  note run = reads_at [OF assms, unfolded append_Nil]
  show "\<exists>r. data_of fs = got @ r \<and> (length (data_of fs) \<le> length (filter (\<lambda>k. 0 < k) ks) \<longrightarrow> r = [])"
    using run by blast
  assume a: "rest = [] \<and> got = data_of fs"
  with run obtain buf' fs' sent' ds' where c: "c' = ws_at buf' (wire fs') e sent' ds'" "buf' @ data_of fs' = []"
    "stream_ok fs'" "4 * length (pings fs') \<le> length ds'" "sent' @ pongs ds' (pings fs') = sent @ pongs ds (pings fs)"
    by auto
  from wsRead_at [OF c(3,4), of k buf' "[]" e sent'] c(2)
  obtain ds'' where "wsRead k c' = wsRead k (ws_at [] [] e (sent @ pongs ds (pings fs)) ds'')"
    using c(1,5) by auto
  with wsRead_tail [of "[]" e e k "sent @ pongs ds (pings fs)" ds'']
  show "\<exists>c''. wsRead k c' = (Inl (WsIo e), c'') \<and> snk_data (ws_sink c'') = sent @ pongs ds (pings fs)"
    by (auto simp: ws_tail_def ws_at_def)
qed

theorem wsRead_stream_witness:
  "\<exists>got c' c''. reads wsRead [3, 2] (ws_at [] (wire [(True, None, 9, [7]), (False, Some [1, 2, 3, 4], 2, [8, 9])]) EOF [] [0, 0, 0, 0])
     = (got, c') \<and> got = [8, 9]
     \<and> wsRead 5 c' = (Inl (WsIo EOF), c'') \<and> snk_data (ws_sink c'') = [0x8A, 0x81, 0, 0, 0, 0, 7]"
proof -
  let ?w = "[(True, None, 9, [7]), (False, Some [1, 2, 3, 4], 2, [8, 9])] :: ws_fr list"
  obtain got c' where r: "reads wsRead [3, 2] (ws_at [] (wire ?w @ []) EOF [] [0, 0, 0, 0]) = (got, c')"
    by fastforce
  have ok: "stream_ok ?w" "4 * length (pings ?w) \<le> length [0, 0, 0, 0 :: nat]" "ws_tail [] EOF EOF"
    by (simp_all add: stream_ok_def maxWSFrame_def pings_def ws_tail_def)
  have d: "data_of ?w = [8, 9]" "pings ?w = [[7]]" by (simp_all add: data_of_def pings_def)
  have p: "pongs [0, 0, 0, 0] [[7]] = [0x8A, 0x81, 0, 0, 0, 0, 7]" by (simp add: ws_frame_def Let_def)
  from wsRead_stream [OF ok r, of 5] r d p show ?thesis by auto
qed

end
