(* ===== verification/Go_Std.thy ===== *)
theory Go_Std
  imports Prelude
begin

text \<open>
  The parts of Go's standard library the text-handling components use, as functions on
  byte strings: \<open>strings\<close> (trimming, prefixes, splitting, cutting, ASCII case folding),
  \<open>strconv\<close> (\<open>Itoa\<close>, \<open>Atoi\<close>) and \<open>net\<close> (\<open>ParseIP\<close>, \<open>IP.String\<close>, \<open>JoinHostPort\<close>,
  \<open>SplitHostPort\<close>). Unicode case tables are a parameter of the functions that need them.
\<close>

section \<open>strings\<close>

definition HasPrefix :: "string \<Rightarrow> string \<Rightarrow> bool" where
  "HasPrefix s p \<longleftrightarrow> take (length p) s = p"

definition HasSuffix :: "string \<Rightarrow> string \<Rightarrow> bool" where
  "HasSuffix s p \<longleftrightarrow> length p \<le> length s \<and> drop (length s - length p) s = p"

definition TrimPrefix :: "string \<Rightarrow> string \<Rightarrow> string" where
  "TrimPrefix s p = (if HasPrefix s p then drop (length p) s else s)"

definition TrimSuffix :: "string \<Rightarrow> string \<Rightarrow> string" where
  "TrimSuffix s p = (if HasSuffix s p then take (length s - length p) s else s)"

lemma HasPrefix_append [simp]: "HasPrefix (p @ s) p"
  by (simp add: HasPrefix_def)

lemma HasPrefix_iff: "HasPrefix s p \<longleftrightarrow> (\<exists>r. s = p @ r)"
  unfolding HasPrefix_def by (metis append_eq_conv_conj append_take_drop_id)

lemma HasPrefix_length: "HasPrefix s p \<Longrightarrow> length p \<le> length s"
  by (auto simp: HasPrefix_iff)

lemma HasSuffix_iff: "HasSuffix s p \<longleftrightarrow> (\<exists>r. s = r @ p)"
  unfolding HasSuffix_def
  by (metis append_eq_conv_conj append_take_drop_id diff_diff_cancel le_add2 length_append
      length_drop diff_add_inverse2)

lemma HasSuffix_last: "HasSuffix s [c] \<longleftrightarrow> s \<noteq> [] \<and> last s = c"
  by (auto simp: HasSuffix_iff) (metis append_butlast_last_id)

lemma TrimPrefix_append [simp]: "TrimPrefix (p @ s) p = s"
  by (simp add: TrimPrefix_def)

fun indexOf :: "string \<Rightarrow> string \<Rightarrow> nat option" where
  \<comment> \<open>\<open>strings.Index\<close>\<close>
  "indexOf [] p = (if p = [] then Some 0 else None)"
| "indexOf (c # s) p =
     (if HasPrefix (c # s) p then Some 0 else map_option Suc (indexOf s p))"

definition Contains :: "string \<Rightarrow> string \<Rightarrow> bool" where
  "Contains s p \<longleftrightarrow> indexOf s p \<noteq> None"

definition Cut :: "string \<Rightarrow> string \<Rightarrow> string \<times> string \<times> bool" where
  "Cut s p =
     (case indexOf s p of
        None \<Rightarrow> (s, [], False)
      | Some i \<Rightarrow> (take i s, drop (i + length p) s, True))"

fun splitOn :: "char \<Rightarrow> string \<Rightarrow> string list" where
  \<comment> \<open>\<open>strings.Split\<close> at a one-byte separator\<close>
  "splitOn sep [] = [[]]"
| "splitOn sep (c # s) =
     (if c = sep then [] # splitOn sep s
      else case splitOn sep s of
             [] \<Rightarrow> [[c]]
           | w # ws \<Rightarrow> (c # w) # ws)"

fun joinWith :: "string \<Rightarrow> string list \<Rightarrow> string" where
  "joinWith sep [] = []"
| "joinWith sep [w] = w"
| "joinWith sep (w # ws) = w @ sep @ joinWith sep ws"

lemma splitOn_not_Nil [simp]: "splitOn sep s \<noteq> []"
  by (induction s) (auto split: list.splits)

lemma splitOn_none: "sep \<notin> set s \<Longrightarrow> splitOn sep s = [s]"
  by (induction s) auto

lemma splitOn_append: "sep \<notin> set w \<Longrightarrow> splitOn sep (w @ sep # s) = w # splitOn sep s"
  by (induction w) auto

lemma splitOn_joinWith:
  "ws \<noteq> [] \<Longrightarrow> (\<And>w. w \<in> set ws \<Longrightarrow> sep \<notin> set w) \<Longrightarrow> splitOn sep (joinWith [sep] ws) = ws"
  by (induction "[sep]" ws rule: joinWith.induct) (auto simp: splitOn_none splitOn_append)

lemma indexOf_Some:
  "indexOf s p = Some i \<Longrightarrow> i + length p \<le> length s \<and> take (length p) (drop i s) = p"
proof (induction s arbitrary: i)
  case Nil
  then show ?case by (simp split: if_splits)
next
  case (Cons c s)
  show ?case
  proof (cases "HasPrefix (c # s) p")
    case True
    with Cons.prems HasPrefix_length [OF True] show ?thesis by (simp add: HasPrefix_def)
  next
    case False
    with Cons.prems obtain j where "indexOf s p = Some j" "i = Suc j" by auto
    with Cons.IH show ?thesis by fastforce
  qed
qed

lemma Cut_split:
  "Cut s p = (a, b, True) \<Longrightarrow> s = a @ p @ b"
proof -
  assume a: "Cut s p = (a, b, True)"
  then obtain i where i: "indexOf s p = Some i" "a = take i s" "b = drop (i + length p) s"
    by (auto simp: Cut_def split: option.splits)
  from indexOf_Some [OF i(1)] have "p = take (length p) (drop i s)" by simp
  with i show "s = a @ p @ b"
    by (metis append_take_drop_id drop_drop add.commute)
qed

lemma indexOf_char: "indexOf s [c] = (if c \<in> set s then Some (length (takeWhile (\<lambda>x. x \<noteq> c) s)) else None)"
  by (induction s) (auto simp: HasPrefix_def)

lemma Cut_char: "Cut s [c] = (a, b, True) \<longleftrightarrow> s = a @ c # b \<and> c \<notin> set a"
proof
  assume "Cut s [c] = (a, b, True)"
  moreover from this have "s = a @ c # b" using Cut_split [of s "[c]" a b] by simp
  moreover from calculation have "a = take (length (takeWhile (\<lambda>x. x \<noteq> c) s)) s"
    by (simp add: Cut_def indexOf_char split: if_splits)
  then have "a = takeWhile (\<lambda>x. x \<noteq> c) s" by (simp only: takeWhile_eq_take [symmetric])
  then have "c \<notin> set a" by (auto dest: set_takeWhileD)
  ultimately show "s = a @ c # b \<and> c \<notin> set a" by simp
next
  assume s: "s = a @ c # b \<and> c \<notin> set a"
  then have "takeWhile (\<lambda>x. x \<noteq> c) s = a" by (auto simp: takeWhile_append)
  with s show "Cut s [c] = (a, b, True)" by (simp add: Cut_def indexOf_char)
qed

text \<open>
  White space as \<open>unicode.IsSpace\<close> defines it, by its UTF-8 encodings (no encoding is a
  prefix or a suffix of another rune's).
\<close>

definition spaceTokens :: "nat list list" where
  "spaceTokens =
     [[9], [10], [11], [12], [13], [32], [0xc2, 0x85], [0xc2, 0xa0], [0xe1, 0x9a, 0x80]]
     @ map (\<lambda>b. [0xe2, 0x80, b]) ([0x80..<0x8b] @ [0xa8, 0xa9, 0xaf])
     @ [[0xe2, 0x81, 0x9f], [0xe3, 0x80, 0x80]]"

definition spaceAt :: "string \<Rightarrow> nat" where
  \<comment> \<open>the length of the white-space rune at the start of \<open>s\<close>, or 0\<close>
  "spaceAt s = foldr (\<lambda>t n. if HasPrefix s (map char_of t) then length t else n) spaceTokens 0"

definition spaceEnd :: "string \<Rightarrow> nat" where
  "spaceEnd s = foldr (\<lambda>t n. if HasSuffix s (map char_of t) then length t else n) spaceTokens 0"

lemma spaceAt_le: "spaceAt s \<le> length s"
proof -
  have "foldr (\<lambda>t n. if HasPrefix s (map char_of t) then length t else n) ts 0 \<le> length s" for ts
    by (induction ts) (auto simp: HasPrefix_iff)
  then show ?thesis by (simp add: spaceAt_def)
qed

function trimLeft :: "string \<Rightarrow> string" where
  "trimLeft s = (if spaceAt s = 0 then s else trimLeft (drop (spaceAt s) s))"
  by pat_completeness auto
termination
proof (relation "measure length")
  fix s assume "spaceAt s \<noteq> 0"
  with spaceAt_le [of s] show "(drop (spaceAt s) s, s) \<in> measure length" by simp
qed simp

lemma spaceEnd_le: "spaceEnd s \<le> length s"
proof -
  have "foldr (\<lambda>t n. if HasSuffix s (map char_of t) then length t else n) ts 0 \<le> length s" for ts
    by (induction ts) (auto simp: HasSuffix_def)
  then show ?thesis by (simp add: spaceEnd_def)
qed

function trimRight :: "string \<Rightarrow> string" where
  "trimRight s = (if spaceEnd s = 0 then s else trimRight (take (length s - spaceEnd s) s))"
  by pat_completeness auto
termination
proof (relation "measure length")
  fix s assume "spaceEnd s \<noteq> 0"
  with spaceEnd_le [of s] show "(take (length s - spaceEnd s) s, s) \<in> measure length" by simp
qed simp

declare trimLeft.simps [simp del] trimRight.simps [simp del]

definition TrimSpace :: "string \<Rightarrow> string" where
  "TrimSpace s = trimRight (trimLeft s)"

lemma trimRight_prefix: "\<exists>r. s = trimRight s @ r"
proof (induction s rule: trimRight.induct)
  case (1 s)
  show ?case
  proof (cases "spaceEnd s = 0")
    case True
    then show ?thesis by (simp add: trimRight.simps [of s])
  next
    case False
    from "1.IH" [OF this] obtain r where
      "take (length s - spaceEnd s) s = trimRight (take (length s - spaceEnd s) s) @ r" by blast
    with False show ?thesis
      by (metis append.assoc append_take_drop_id trimRight.simps)
  qed
qed

lemma trimLeft_suffix: "\<exists>r. s = r @ trimLeft s"
proof (induction s rule: trimLeft.induct)
  case (1 s)
  show ?case
  proof (cases "spaceAt s = 0")
    case True
    then show ?thesis by (simp add: trimLeft.simps [of s])
  next
    case False
    from "1.IH" [OF this] obtain r where "drop (spaceAt s) s = r @ trimLeft (drop (spaceAt s) s)"
      by blast
    with False show ?thesis
      by (metis append.assoc append_take_drop_id trimLeft.simps)
  qed
qed

lemma TrimSpace_infix: "\<exists>a b. s = a @ TrimSpace s @ b"
proof -
  obtain a where "s = a @ trimLeft s" using trimLeft_suffix by blast
  moreover obtain b where "trimLeft s = trimRight (trimLeft s) @ b" using trimRight_prefix by blast
  ultimately have "s = a @ TrimSpace s @ b" by (simp add: TrimSpace_def)
  then show ?thesis by blast
qed

lemma set_TrimSpace: "set (TrimSpace s) \<subseteq> set s"
  using TrimSpace_infix [of s] by (metis Un_iff set_append subsetI)

text \<open>A string that starts and ends with a visible ASCII character is already trimmed.\<close>

definition visible :: "char \<Rightarrow> bool" where
  "visible c \<longleftrightarrow> 33 \<le> (of_char c :: nat) \<and> (of_char c :: nat) < 127"

lemma spaceTokens_ends:
  "\<forall>t \<in> set spaceTokens. t \<noteq> [] \<and> \<not> visible (char_of (hd t)) \<and> \<not> visible (char_of (last t))"
  by (simp add: spaceTokens_def visible_def upt_rec)

lemma token_none: "\<forall>t \<in> set ts. \<not> P t \<Longrightarrow> foldr (\<lambda>t n. if P t then f t else n) ts (0 :: nat) = 0"
  by (induction ts) auto

lemma spaceAt_visible: "visible (hd s) \<Longrightarrow> spaceAt s = 0"
proof -
  assume v: "visible (hd s)"
  have "\<not> HasPrefix s (map char_of t)" if "t \<in> set spaceTokens" for t
    using that spaceTokens_ends v by (auto simp: HasPrefix_iff hd_append hd_map)
  then show ?thesis by (simp add: spaceAt_def token_none)
qed

lemma spaceEnd_visible: "visible (last s) \<Longrightarrow> spaceEnd s = 0"
proof -
  assume v: "visible (last s)"
  have "\<not> HasSuffix s (map char_of t)" if "t \<in> set spaceTokens" for t
    using that spaceTokens_ends v by (auto simp: HasSuffix_iff last_append last_map)
  then show ?thesis by (simp add: spaceEnd_def token_none)
qed

lemma TrimSpace_visible [simp]: "visible (hd s) \<Longrightarrow> visible (last s) \<Longrightarrow> TrimSpace s = s"
  by (simp add: TrimSpace_def trimLeft.simps [of s] trimRight.simps [of s] spaceAt_visible spaceEnd_visible)

text \<open>Case: ASCII letters here, everything else by the Unicode tables \<open>L\<close>.\<close>

definition lower_char :: "char \<Rightarrow> char" where
  "lower_char c = (if 65 \<le> (of_char c :: nat) \<and> (of_char c :: nat) \<le> 90 then char_of ((of_char c :: nat) + 32) else c)"

definition is_ascii :: "string \<Rightarrow> bool" where
  "is_ascii s \<longleftrightarrow> list_all (\<lambda>c. (of_char c :: nat) < 128) s"

definition ToLower :: "(string \<Rightarrow> string) \<Rightarrow> string \<Rightarrow> string" where
  "ToLower L s = (if is_ascii s then map lower_char s else L s)"

text \<open>
  \<open>strings.EqualFold\<close> against a lower-case ASCII word: besides the letters themselves, the
  Kelvin sign folds to k and the long s to s.
\<close>

fun fold_is :: "string \<Rightarrow> string \<Rightarrow> bool" where
  "fold_is s [] = (s = [])"
| "fold_is s (w # ws) =
     ((case s of [] \<Rightarrow> False | c # t \<Rightarrow> lower_char c = w \<and> fold_is t ws)
      \<or> (w = CHR ''k'' \<and> HasPrefix s (map char_of [0xe2, 0x84, 0xaa :: nat]) \<and> fold_is (drop 3 s) ws)
      \<or> (w = CHR ''s'' \<and> HasPrefix s (map char_of [0xc5, 0xbf :: nat]) \<and> fold_is (drop 2 s) ws))"

section \<open>strconv\<close>

definition digit :: "nat \<Rightarrow> char" where
  "digit d = char_of (48 + d)"

fun nat_str :: "nat \<Rightarrow> string" where
  "nat_str n = (if n < 10 then [digit n] else nat_str (n div 10) @ [digit (n mod 10)])"

declare nat_str.simps [simp del]

definition Itoa :: "int \<Rightarrow> string" where
  "Itoa i = (if i < 0 then CHR ''-'' # nat_str (nat (- i)) else nat_str (nat i))"

definition is_digit :: "char \<Rightarrow> bool" where
  "is_digit c \<longleftrightarrow> 48 \<le> (of_char c :: nat) \<and> (of_char c :: nat) \<le> 57"

definition digit_val :: "char \<Rightarrow> nat" where
  "digit_val c = of_char c - 48"

definition dec_val :: "string \<Rightarrow> nat" where
  "dec_val s = foldl (\<lambda>n c. 10 * n + digit_val c) 0 s"

definition Atoi :: "string \<Rightarrow> int option" where
  \<comment> \<open>on a 64-bit platform\<close>
  "Atoi s =
     (let neg = (case s of c # _ \<Rightarrow> c = CHR ''-'' | [] \<Rightarrow> False);
          t = (case s of c # t \<Rightarrow> if c = CHR ''-'' \<or> c = CHR ''+'' then t else s | [] \<Rightarrow> s);
          v = (if neg then - int (dec_val t) else int (dec_val t))
      in if t = [] \<or> \<not> list_all is_digit t \<or> v < - (2 ^ 63) \<or> 2 ^ 63 \<le> v then None else Some v)"

definition Atoi_value :: "string \<Rightarrow> int" where
  \<comment> \<open>the value \<open>Atoi\<close> returns beside its error: 0 on bad syntax, the nearest bound out of range\<close>
  "Atoi_value s =
     (let neg = (case s of c # _ \<Rightarrow> c = CHR ''-'' | [] \<Rightarrow> False);
          t = (case s of c # t \<Rightarrow> if c = CHR ''-'' \<or> c = CHR ''+'' then t else s | [] \<Rightarrow> s);
          v = (if neg then - int (dec_val t) else int (dec_val t))
      in if t = [] \<or> \<not> list_all is_digit t then 0 else max (- (2 ^ 63)) (min (2 ^ 63 - 1) v))"

lemma of_char_digit: "d < 10 \<Longrightarrow> (of_char (digit d) :: nat) = 48 + d"
  by (simp add: digit_def)

lemma is_digit_digit [simp]: "d < 10 \<Longrightarrow> is_digit (digit d)"
  by (simp add: is_digit_def of_char_digit)

lemma digit_val_digit [simp]: "d < 10 \<Longrightarrow> digit_val (digit d) = d"
  by (simp add: digit_val_def of_char_digit)

lemma nat_str_digits: "list_all is_digit (nat_str n)"
  by (induction n rule: nat_str.induct) (simp add: nat_str.simps)

lemma nat_str_not_Nil [simp]: "nat_str n \<noteq> []"
  by (simp add: nat_str.simps [of n])

lemma dec_val_nat_str [simp]: "dec_val (nat_str n) = n"
proof (induction n rule: nat_str.induct)
  case (1 n)
  then show ?case
    by (simp add: nat_str.simps [of n] dec_val_def)
qed

lemma nat_str_inj: "nat_str m = nat_str n \<longleftrightarrow> m = n"
  by (metis dec_val_nat_str)

lemma is_digit_sign: "is_digit c \<Longrightarrow> c \<noteq> CHR ''-'' \<and> c \<noteq> CHR ''+'' \<and> c \<noteq> CHR '':'' \<and> c \<noteq> CHR ''.''"
  by (auto simp: is_digit_def)

lemma nat_str_hd: "\<exists>c t. nat_str n = c # t \<and> is_digit c"
  using nat_str_digits [of n] by (cases "nat_str n") auto

lemma Atoi_Itoa: "0 \<le> i \<Longrightarrow> i < 2 ^ 63 \<Longrightarrow> Atoi (Itoa i) = Some i"
proof -
  assume i: "0 \<le> i" "i < 2 ^ 63"
  obtain c t where "nat_str (nat i) = c # t" "is_digit c" using nat_str_hd by blast
  then show ?thesis
    using i nat_str_digits [of "nat i"] dec_val_nat_str [of "nat i"] is_digit_sign [of c]
    by (auto simp: Atoi_def Itoa_def Let_def)
qed

lemma Atoi_value_Some: "Atoi s = Some i \<Longrightarrow> Atoi_value s = i"
  by (auto simp: Atoi_def Atoi_value_def Let_def split: if_splits)

end
