(* ===== verification/Go_Net.thy ===== *)
theory Go_Net
  imports Go_Std
begin

text \<open>
  The address functions of Go's \<open>net\<close> package: \<open>IP\<close> values (4 or 16 bytes), \<open>To4\<close>,
  \<open>Equal\<close>, the class predicates, \<open>ParseIP\<close>, \<open>String\<close>, \<open>JoinHostPort\<close> and \<open>SplitHostPort\<close>.
\<close>

section \<open>IP values\<close>

type_synonym ip = "bytes"

definition v4Prefix :: bytes where
  "v4Prefix = replicate 10 0 @ [0xff, 0xff]"

definition To4 :: "ip \<Rightarrow> ip option" where
  "To4 ip =
     (if length ip = 4 then Some ip
      else if length ip = 16 \<and> take 12 ip = v4Prefix then Some (drop 12 ip)
      else None)"

definition To16 :: "ip \<Rightarrow> ip option" where
  "To16 ip =
     (if length ip = 4 then Some (v4Prefix @ ip) else if length ip = 16 then Some ip else None)"

definition IPEqual :: "ip \<Rightarrow> ip \<Rightarrow> bool" where
  "IPEqual a b =
     (if length a = length b then a = b
      else if length a = 4 \<and> length b = 16 then v4Prefix @ a = b
      else if length a = 16 \<and> length b = 4 then a = v4Prefix @ b
      else False)"

definition IPv4 :: "byte \<Rightarrow> byte \<Rightarrow> byte \<Rightarrow> byte \<Rightarrow> ip" where
  "IPv4 a b c d = v4Prefix @ [a, b, c, d]"

definition IsUnspecified :: "ip \<Rightarrow> bool" where
  "IsUnspecified ip \<longleftrightarrow> IPEqual ip (IPv4 0 0 0 0) \<or> IPEqual ip (replicate 16 0)"

definition IsLoopback :: "ip \<Rightarrow> bool" where
  "IsLoopback ip =
     (case To4 ip of Some v4 \<Rightarrow> v4 ! 0 = 127 | None \<Rightarrow> IPEqual ip (replicate 15 0 @ [1]))"

lemma To4_length: "To4 ip = Some v \<Longrightarrow> length v = 4"
  by (auto simp: To4_def split: if_splits)

lemma length_v4Prefix [simp]: "length v4Prefix = 12"
  by (simp add: v4Prefix_def)

lemma To4_mapped [simp]: "length v = 4 \<Longrightarrow> To4 (v4Prefix @ v) = Some v"
  by (simp add: To4_def)

lemma IPEqual_refl [simp]: "IPEqual a a"
  by (simp add: IPEqual_def)

lemma IPEqual_sym: "IPEqual a b \<Longrightarrow> IPEqual b a"
  by (auto simp: IPEqual_def split: if_splits)

lemma IPEqual_iff_To16: "To16 a \<noteq> None \<Longrightarrow> To16 b \<noteq> None \<Longrightarrow> IPEqual a b \<longleftrightarrow> To16 a = To16 b"
  by (auto simp: IPEqual_def To16_def split: if_splits)

section \<open>Parsing and printing addresses\<close>

definition v4Field :: "string \<Rightarrow> byte option" where
  "v4Field w =
     (if w \<noteq> [] \<and> list_all is_digit w \<and> (length w = 1 \<or> hd w \<noteq> CHR ''0'') \<and> dec_val w \<le> 255
      then Some (word_of_nat (dec_val w)) else None)"

definition parseIPv4 :: "string \<Rightarrow> ip option" where
  "parseIPv4 s =
     (case map v4Field (splitOn CHR ''.'' s) of
        [Some a, Some b, Some c, Some d] \<Rightarrow> Some [a, b, c, d]
      | _ \<Rightarrow> None)"

definition hex_val :: "char \<Rightarrow> nat option" where
  "hex_val c =
     (let n = of_char c in
      if 48 \<le> n \<and> n \<le> 57 then Some (n - 48)
      else if 97 \<le> n \<and> n \<le> 102 then Some (n - 87)
      else if 65 \<le> n \<and> n \<le> 70 then Some (n - 55)
      else None)"

definition isHex :: "char \<Rightarrow> bool" where "isHex c \<longleftrightarrow> hex_val c \<noteq> None"

definition hexGroup :: "string \<Rightarrow> nat" where
  "hexGroup w = foldl (\<lambda>n c. 16 * n + the (hex_val c)) 0 w"

fun v6Groups :: "nat \<Rightarrow> string \<Rightarrow> bytes \<Rightarrow> nat option \<Rightarrow> (bytes \<times> nat option) option" where
  \<comment> \<open>the loop of \<open>netip.parseIPv6\<close>; the first argument is the number of groups it may still
     read, \<open>ip\<close> holds the bytes so far\<close>
  "v6Groups 0 s ip ell = (if s = [] then Some (ip, ell) else None)"
| "v6Groups (Suc n) s ip ell =
     (let w = takeWhile isHex s; t = dropWhile isHex s in
      if w = [] \<or> 4 < length w then None
      else if t \<noteq> [] \<and> hd t = CHR ''.'' then
        (if (ell = None \<and> length ip \<noteq> 12) \<or> 12 < length ip then None
         else map_option (\<lambda>v4. (ip @ v4, ell)) (parseIPv4 s))
      else
        let ip' = ip @ be16 (word_of_nat (hexGroup w)) in
        case t of
          [] \<Rightarrow> Some (ip', ell)
        | c # u \<Rightarrow>
            if c \<noteq> CHR '':'' \<or> u = [] then None
            else if hd u = CHR '':'' then
              (if ell \<noteq> None then None
               else if tl u = [] then Some (ip', Some (length ip'))
               else v6Groups n (tl u) ip' (Some (length ip')))
            else v6Groups n u ip' ell)"

definition parseIPv6 :: "string \<Rightarrow> ip option" where
  \<comment> \<open>without a zone, which \<open>ParseIP\<close> refuses\<close>
  "parseIPv6 s =
     (let lead = HasPrefix s ''::'';
          t = (if lead then drop 2 s else s);
          ell0 = (if lead then Some 0 else None) in
      if lead \<and> t = [] then Some (replicate 16 0)
      else case v6Groups 8 t [] ell0 of
             None \<Rightarrow> None
           | Some (ip, None) \<Rightarrow> if length ip < 16 then None else Some ip
           | Some (ip, Some k) \<Rightarrow>
               if length ip < 16 then Some (take k ip @ replicate (16 - length ip) 0 @ drop k ip)
               else None)"

fun ParseIP :: "string \<Rightarrow> ip option" where
  "ParseIP s =
     (case dropWhile (\<lambda>c. c \<noteq> CHR ''.'' \<and> c \<noteq> CHR '':'' \<and> c \<noteq> CHR ''%'') s of
        [] \<Rightarrow> None
      | c # _ \<Rightarrow>
          if c = CHR ''.'' then map_option (\<lambda>v. v4Prefix @ v) (parseIPv4 s)
          else if c = CHR '':'' \<and> CHR ''%'' \<notin> set s then parseIPv6 s
          else None)"

definition hex_char :: "nat \<Rightarrow> char" where
  "hex_char d = (if d < 10 then char_of (48 + d) else char_of (87 + d))"

fun hex_str :: "nat \<Rightarrow> string" where
  "hex_str n = (if n < 16 then [hex_char n] else hex_str (n div 16) @ [hex_char (n mod 16)])"

declare hex_str.simps [simp del]

definition v4String :: "ip \<Rightarrow> string" where
  "v4String v = joinWith ''.'' (map (\<lambda>b. nat_str (unat b)) v)"

fun groups :: "bytes \<Rightarrow> nat list" where
  "groups (a # b # r) = unat (de16 a b) # groups r"
| "groups _ = []"

definition zeroRun :: "nat list \<Rightarrow> nat" where
  "zeroRun g = length (takeWhile (\<lambda>x. x = 0) g)"

definition longestZeros :: "nat list \<Rightarrow> nat \<times> nat" where
  \<comment> \<open>start and end of the first longest run of at least two zero groups\<close>
  "longestZeros g =
     foldl (\<lambda>(s, e) i. let l = zeroRun (drop i g) in
               if 2 \<le> l \<and> e - s < l then (i, i + l) else (s, e)) (255, 255) [0..<length g]"

definition v6String :: "ip \<Rightarrow> string" where
  "v6String ip =
     (let g = groups ip; (s, e) = longestZeros g;
          part = (\<lambda>xs. joinWith '':'' (map hex_str xs)) in
      if s = 255 then part g else part (take s g) @ ''::'' @ part (drop e g))"

definition IPString :: "ip \<Rightarrow> string" where
  "IPString ip =
     (if ip = [] then ''<nil>''
      else if length ip \<noteq> 4 \<and> length ip \<noteq> 16
      then CHR ''?'' # concat (map (\<lambda>b. [hex_char (unat b div 16), hex_char (unat b mod 16)]) ip)
      else case To4 ip of Some v \<Rightarrow> v4String v | None \<Rightarrow> v6String ip)"

section \<open>host:port\<close>

definition JoinHostPort :: "string \<Rightarrow> string \<Rightarrow> string" where
  "JoinHostPort host port =
     (if CHR '':'' \<in> set host then ''['' @ host @ '']:'' @ port else host @ '':'' @ port)"

definition byteIndex :: "char \<Rightarrow> string \<Rightarrow> nat option" where
  "byteIndex c s = (if c \<in> set s then Some (length (takeWhile (\<lambda>x. x \<noteq> c) s)) else None)"

definition lastByteIndex :: "char \<Rightarrow> string \<Rightarrow> nat option" where
  "lastByteIndex c s = map_option (\<lambda>i. length s - 1 - i) (byteIndex c (rev s))"

definition SplitHostPort :: "string \<Rightarrow> (string \<times> string) option" where
  "SplitHostPort hp =
     (case lastByteIndex CHR '':'' hp of
        None \<Rightarrow> None
      | Some i \<Rightarrow>
          if hd hp = CHR ''['' then
            (case byteIndex CHR '']'' hp of
               None \<Rightarrow> None
             | Some k \<Rightarrow>
                 if k + 1 \<noteq> i \<or> CHR ''['' \<in> set (drop 1 hp) \<or> CHR '']'' \<in> set (drop (k + 1) hp) then None
                 else Some (slice hp 1 k, drop (i + 1) hp))
          else if CHR '':'' \<in> set (take i hp) \<or> CHR ''['' \<in> set hp \<or> CHR '']'' \<in> set hp then None
          else Some (take i hp, drop (i + 1) hp))"

lemma byteIndex_append: "c \<notin> set a \<Longrightarrow> byteIndex c (a @ c # b) = Some (length a)"
  by (induction a) (auto simp: byteIndex_def split: if_splits)

lemma lastByteIndex_append: "c \<notin> set b \<Longrightarrow> lastByteIndex c (a @ c # b) = Some (length a)"
  using byteIndex_append [of c "rev b" "rev a"] by (simp add: lastByteIndex_def)

definition host_ok :: "string \<Rightarrow> bool" where
  "host_ok h \<longleftrightarrow> CHR ''['' \<notin> set h \<and> CHR '']'' \<notin> set h"

definition port_ok :: "string \<Rightarrow> bool" where
  "port_ok p \<longleftrightarrow> CHR '':'' \<notin> set p \<and> CHR ''['' \<notin> set p \<and> CHR '']'' \<notin> set p"

lemma SplitHostPort_Join:
  assumes "host_ok h" and "port_ok p"
  shows "SplitHostPort (JoinHostPort h p) = Some (h, p)"
proof (cases "CHR '':'' \<in> set h")
  case True
  let ?s = "CHR ''['' # h @ CHR '']'' # CHR '':'' # p"
  have s: "JoinHostPort h p = ?s" using True by (simp add: JoinHostPort_def)
  have "lastByteIndex CHR '':'' ((CHR ''['' # h @ [CHR '']'']) @ CHR '':'' # p) = Some (length (CHR ''['' # h @ [CHR '']'']))"
    by (rule lastByteIndex_append) (use assms in \<open>simp add: port_ok_def\<close>)
  then have i: "lastByteIndex CHR '':'' ?s = Some (length h + 2)" by simp
  have "byteIndex CHR '']'' ((CHR ''['' # h) @ CHR '']'' # CHR '':'' # p) = Some (length (CHR ''['' # h))"
    by (rule byteIndex_append) (use assms in \<open>simp add: host_ok_def\<close>)
  then have k: "byteIndex CHR '']'' ?s = Some (length h + 1)" by simp
  show ?thesis
    using assms unfolding s SplitHostPort_def i
    by (simp add: k slice_def host_ok_def port_ok_def)
next
  case False
  have s: "JoinHostPort h p = h @ CHR '':'' # p" using False by (simp add: JoinHostPort_def)
  have i: "lastByteIndex CHR '':'' (h @ CHR '':'' # p) = Some (length h)"
    by (rule lastByteIndex_append) (use assms in \<open>simp add: port_ok_def\<close>)
  have "hd (h @ CHR '':'' # p) \<noteq> CHR ''[''" using assms by (cases h) (auto simp: host_ok_def)
  then show ?thesis
    using assms False unfolding s SplitHostPort_def i by (simp add: host_ok_def port_ok_def)
qed

lemma port_ok_digits: "list_all is_digit s \<Longrightarrow> port_ok s"
  by (auto simp: port_ok_def list_all_iff is_digit_def)

lemma port_ok_nat_str [simp]: "port_ok (nat_str n)"
  by (rule port_ok_digits) (rule nat_str_digits)

section \<open>Dotted quads\<close>

lemma nat_str_hd_pos: "10 \<le> n \<Longrightarrow> hd (nat_str n) \<noteq> CHR ''0''"
proof (induction n rule: nat_str.induct)
  case (1 n)
  have h: "hd (nat_str n) = hd (nat_str (n div 10))"
    using 1 by (simp add: nat_str.simps [of n])
  show ?case
  proof (cases "n div 10 < 10")
    case True
    have "digit (n div 10) \<noteq> CHR ''0''"
    proof
      assume "digit (n div 10) = CHR ''0''"
      then have "of_char (digit (n div 10)) = (48 :: nat)" by simp
      with True 1(2) show False by (simp add: of_char_digit)
    qed
    with h True show ?thesis by (simp add: nat_str.simps [of "n div 10"])
  next
    case False
    with 1 h show ?thesis by simp
  qed
qed

lemma v4Field_nat_str: "v4Field (nat_str (unat b)) = Some b"
proof -
  have "length (nat_str (unat b)) = 1 \<or> hd (nat_str (unat b)) \<noteq> CHR ''0''"
    using nat_str_hd_pos [of "unat b"] by (cases "unat b < 10") (simp_all add: nat_str.simps [of "unat b"])
  then show ?thesis
    using unat_byte_less [of b] nat_str_digits [of "unat b"] by (simp add: v4Field_def)
qed

lemma no_dot_digits: "list_all is_digit s \<Longrightarrow> CHR ''.'' \<notin> set s"
  by (auto simp: list_all_iff is_digit_def)

lemma parseIPv4_v4String:
  assumes "length v = 4"
  shows "parseIPv4 (v4String v) = Some v"
proof -
  have "splitOn CHR ''.'' (joinWith [CHR ''.''] (map (\<lambda>b. nat_str (unat b)) v)) = map (\<lambda>b. nat_str (unat b)) v"
    by (rule splitOn_joinWith) (use assms no_dot_digits [OF nat_str_digits] in auto)
  moreover obtain a b c d where "v = [a, b, c, d]"
    using assms by (auto simp: length_Suc_conv numeral_eq_Suc)
  ultimately show ?thesis by (simp add: parseIPv4_def v4String_def v4Field_nat_str)
qed

lemma ParseIP_v4String:
  assumes "length v = 4"
  shows "ParseIP (v4String v) = Some (v4Prefix @ v)"
proof -
  obtain a b c d where v: "v = [a, b, c, d]"
    using assms by (auto simp: length_Suc_conv numeral_eq_Suc)
  let ?p = "\<lambda>c. c \<noteq> CHR ''.'' \<and> c \<noteq> CHR '':'' \<and> c \<noteq> CHR ''%''"
  have "dropWhile ?p (w @ CHR ''.'' # r) = CHR ''.'' # r" if "list_all is_digit w" for w r
    using that by (induction w) (auto simp: is_digit_def)
  from this [OF nat_str_digits] show ?thesis
    using parseIPv4_v4String [OF assms] by (simp add: v v4String_def)
qed

lemma IPString_v4: "length v = 4 \<Longrightarrow> IPString v = v4String v"
  by (auto simp: IPString_def To4_def)

section \<open>Parsed addresses have sixteen bytes\<close>

lemma length_v6Groups:
  "v6Groups n s ip ell = Some (ip', ell') \<Longrightarrow> length ip + 2 * n = 16
     \<Longrightarrow> (\<forall>k. ell = Some k \<longrightarrow> k \<le> length ip)
     \<Longrightarrow> length ip' \<le> 16 \<and> (\<forall>k. ell' = Some k \<longrightarrow> k \<le> length ip')"
proof (induction n s ip ell rule: v6Groups.induct)
  case (1 s ip ell)
  then show ?case by (auto split: if_splits)
next
  case (2 n s ip ell)
  have v4: "length v = 4" if "parseIPv4 s = Some v" for v
    using that by (auto simp: parseIPv4_def split: list.splits option.splits)
  have mono: "\<forall>k. ell = Some k \<longrightarrow> k \<le> Suc (Suc (length ip))"
    using 2(5) by auto
  show ?case
    using 2(3-) 2(1) [OF refl refl] 2(2) [OF refl refl] v4 mono
    by (auto simp: Let_def be16_def split: if_splits list.splits)
qed

lemma parseIPv6_length: "parseIPv6 s = Some ip \<Longrightarrow> length ip = 16"
proof -
  assume a: "parseIPv6 s = Some ip"
  let ?t = "if HasPrefix s ''::'' then drop 2 s else s"
  let ?e = "if HasPrefix s ''::'' then Some 0 else None :: nat option"
  show ?thesis
  proof (cases "v6Groups 8 ?t [] ?e")
    case None
    with a show ?thesis by (auto simp: parseIPv6_def Let_def split: if_splits)
  next
    case (Some r)
    obtain b ell where r: "r = (b, ell)" by (cases r)
    have l: "length b \<le> 16 \<and> (\<forall>k. ell = Some k \<longrightarrow> k \<le> length b)"
      by (rule length_v6Groups [OF Some [unfolded r]]) auto
    show ?thesis
      using a Some r l by (cases ell) (auto simp: parseIPv6_def Let_def split: if_splits)
  qed
qed

lemma ParseIP_length: "ParseIP s = Some ip \<Longrightarrow> length ip = 16"
proof -
  assume a: "ParseIP s = Some ip"
  have "length v = 4" if "parseIPv4 s = Some v" for v
    using that by (auto simp: parseIPv4_def split: list.splits option.splits)
  then show ?thesis using a parseIPv6_length by (auto split: list.splits if_splits)
qed

lemma ParseIP_To4_or_16:
  "ParseIP s = Some ip \<Longrightarrow> (\<exists>v. To4 ip = Some v \<and> length v = 4) \<or> (To4 ip = None \<and> To16 ip = Some ip \<and> length ip = 16)"
  using ParseIP_length [of s ip] To4_length [of ip] by (cases "To4 ip") (auto simp: To16_def)

end
