(* ===== verification/Dns.thy ===== *)
theory Dns
  imports Go_Net
begin

text \<open>
  DNS messages as \<open>internal/dialer/dest.go\<close> writes and reads them: the query encoder, the
  answer iterator with its name skipping, the A and HTTPS/SVCB hint parsers and the merge of
  both. Every slice access of the source is written out with an \<open>IndexPanic\<close> outcome for an
  index out of range.
\<close>

section \<open>Names and resource records\<close>

datatype dns_err =
  ShortResponse | BadName | BadPointer | TruncatedQuestion | TruncatedRR | TruncatedRdata
| LabelTooLong | IndexPanic

definition at :: "bytes \<Rightarrow> nat \<Rightarrow> dns_err + byte" where
  "at bs i = (if i < length bs then Inr (bs ! i) else Inl IndexPanic)"

definition sub_bytes :: "bytes \<Rightarrow> nat \<Rightarrow> nat \<Rightarrow> dns_err + bytes" where
  "sub_bytes bs i j = (if i \<le> j \<and> j \<le> length bs then Inr (slice bs i j) else Inl IndexPanic)"

definition u16_at :: "bytes \<Rightarrow> nat \<Rightarrow> dns_err + u16" where
  \<comment> \<open>\<open>binary.BigEndian.Uint16(msg[i:i+2])\<close>\<close>
  "u16_at bs i = sbind (sub_bytes bs i (i + 2)) (\<lambda>w. Inr (de16 (w ! 0) (w ! 1)))"

function skipName :: "bytes \<Rightarrow> nat \<Rightarrow> dns_err + nat" where
  "skipName msg off =
     (if length msg \<le> off then Inl BadName
      else sbind (at msg off) (\<lambda>l.
        if l = 0 then Inr (off + 1)
        else if l AND 0xC0 = 0xC0 then
          (if length msg \<le> off + 1 then Inl BadPointer else Inr (off + 2))
        else skipName msg (off + (1 + unat l))))"
  by pat_completeness auto
termination by (relation "measure (\<lambda>(msg, off). length msg - off)") auto

function skipNameIn :: "bytes \<Rightarrow> bytes \<Rightarrow> nat \<Rightarrow> dns_err + nat" where
  "skipNameIn msg rdata off =
     (if length rdata \<le> off then Inl BadName
      else sbind (at rdata off) (\<lambda>l.
        if l = 0 then Inr (off + 1)
        else if l AND 0xC0 = 0xC0 then
          (if length rdata \<le> off + 1 then Inl BadPointer else Inr (off + 2))
        else skipNameIn msg rdata (off + (1 + unat l))))"
  by pat_completeness auto
termination by (relation "measure (\<lambda>(msg, rdata, off). length rdata - off)") auto

declare skipName.simps [simp del] skipNameIn.simps [simp del]

record dnsRR =
  rr_typ :: u16
  rr_rdata :: bytes

fun skipQuestions :: "nat \<Rightarrow> bytes \<Rightarrow> nat \<Rightarrow> dns_err + nat" where
  \<comment> \<open>the first loop of \<open>iterAnswers\<close>\<close>
  "skipQuestions 0 msg off = Inr off"
| "skipQuestions (Suc n) msg off =
     sbind (skipName msg off) (\<lambda>off.
       if length msg < off + 4 then Inl TruncatedQuestion else skipQuestions n msg (off + 4))"

fun readAnswers :: "nat \<Rightarrow> bytes \<Rightarrow> nat \<Rightarrow> dns_err + dnsRR list" where
  \<comment> \<open>the second loop\<close>
  "readAnswers 0 msg off = Inr []"
| "readAnswers (Suc n) msg off =
     sbind (skipName msg off) (\<lambda>off.
     if length msg < off + 10 then Inl TruncatedRR
     else sbind (u16_at msg off) (\<lambda>typ.
          sbind (u16_at msg (off + 8)) (\<lambda>rdlen.
            let off = off + 10 in
            if length msg < off + unat rdlen then Inl TruncatedRdata
            else sbind (sub_bytes msg off (off + unat rdlen)) (\<lambda>rdata.
                 sbind (readAnswers n msg (off + unat rdlen)) (\<lambda>out.
                   Inr (\<lparr>rr_typ = typ, rr_rdata = rdata\<rparr> # out))))))"

definition iterAnswers :: "bytes \<Rightarrow> dns_err + dnsRR list" where
  "iterAnswers msg =
     (if length msg < 12 then Inl ShortResponse
      else sbind (u16_at msg 4) (\<lambda>qd.
           sbind (u16_at msg 6) (\<lambda>an.
           sbind (skipQuestions (unat qd) msg 12) (\<lambda>off.
             readAnswers (unat an) msg off))))"

definition parseAAnswers :: "bytes \<Rightarrow> dns_err + ip list" where
  "parseAAnswers msg =
     sbind (iterAnswers msg) (\<lambda>records.
       Inr (map rr_rdata (filter (\<lambda>rr. rr_typ rr = 1 \<and> length (rr_rdata rr) = 4) records)))"

fun fourByteGroups :: "bytes \<Rightarrow> ip list" where
  \<comment> \<open>\<open>for i := 0; i+4 <= len(val); i += 4\<close>\<close>
  "fourByteGroups (a # b # c # d # r) = [a, b, c, d] # fourByteGroups r"
| "fourByteGroups _ = []"

function svcParams :: "bytes \<Rightarrow> nat \<Rightarrow> dns_err + ip list" where
  \<comment> \<open>the parameter loop of \<open>ipv4HintsFromHTTPS\<close>\<close>
  "svcParams rdata off =
     (if length rdata < off + 4 then Inr []
      else sbind (u16_at rdata off) (\<lambda>key.
           sbind (u16_at rdata (off + 2)) (\<lambda>ln.
             let off' = off + 4 in
             if length rdata < off' + unat ln then Inr []
             else sbind (sub_bytes rdata off' (off' + unat ln)) (\<lambda>val.
                  sbind (svcParams rdata (off + 4 + unat ln)) (\<lambda>ips.
                    Inr ((if key = 4 \<and> unat ln mod 4 = 0 then fourByteGroups val else []) @ ips))))))"
  by pat_completeness auto
termination by (relation "measure (\<lambda>(rdata, off). length rdata - off)") auto

declare svcParams.simps [simp del]

definition ipv4HintsFromHTTPS :: "bytes \<Rightarrow> bytes \<Rightarrow> dns_err + ip list" where
  \<comment> \<open>a bad name gives no hints; only an index out of range is an error here\<close>
  "ipv4HintsFromHTTPS msg rdata =
     (if length rdata < 3 then Inr []
      else case skipNameIn msg rdata 2 of
             Inl e \<Rightarrow> if e = IndexPanic then Inl e else Inr []
           | Inr off \<Rightarrow> svcParams rdata off)"

fun hintsOf :: "bytes \<Rightarrow> dnsRR list \<Rightarrow> dns_err + ip list" where
  "hintsOf msg [] = Inr []"
| "hintsOf msg (rr # rrs) =
     (if rr_typ rr \<noteq> 65 \<and> rr_typ rr \<noteq> 64 then hintsOf msg rrs
      else sbind (ipv4HintsFromHTTPS msg (rr_rdata rr)) (\<lambda>h.
           sbind (hintsOf msg rrs) (\<lambda>ips. Inr (h @ ips))))"

definition parseHTTPSIPv4Hints :: "bytes \<Rightarrow> dns_err + ip list" where
  "parseHTTPSIPv4Hints msg = sbind (iterAnswers msg) (hintsOf msg)"

fun mergeLoop :: "ip list \<Rightarrow> string set \<Rightarrow> ip list \<Rightarrow> ip list \<times> string set" where
  \<comment> \<open>the closure \<open>add\<close> of \<open>mergeIPv4\<close>\<close>
  "mergeLoop [] seen out = (out, seen)"
| "mergeLoop (ip # ips) seen out =
     (case To4 ip of
        None \<Rightarrow> mergeLoop ips seen out
      | Some v4 \<Rightarrow>
          if IPString v4 \<in> seen then mergeLoop ips seen out
          else mergeLoop ips (insert (IPString v4) seen) (out @ [v4]))"

definition mergeIPv4 :: "ip list \<Rightarrow> ip list \<Rightarrow> ip list" where
  "mergeIPv4 hint a = (case mergeLoop hint {} [] of (out, seen) \<Rightarrow> fst (mergeLoop a seen out))"

section \<open>Queries\<close>

fun encodeLabels :: "string list \<Rightarrow> dns_err + bytes" where
  "encodeLabels [] = Inr []"
| "encodeLabels (lab # labs) =
     (if lab = [] then encodeLabels labs
      else if 63 < length lab then Inl LabelTooLong
      else sbind (encodeLabels labs) (\<lambda>r. Inr (word_of_nat (length lab) # str_bytes lab @ r)))"

definition queryHeader :: "u16 \<Rightarrow> bytes" where
  "queryHeader qid = be16 qid @ be16 0x0100 @ be16 1 @ replicate 6 0"

definition encodeQuery :: "u16 \<Rightarrow> string \<Rightarrow> u16 \<Rightarrow> dns_err + bytes" where
  "encodeQuery qid name qtype =
     sbind (encodeLabels (splitOn CHR ''.'' (TrimSuffix name ''.''))) (\<lambda>labels.
       Inr (queryHeader qid @ labels @ [0] @ be16 qtype @ [0, 1]))"

definition encodeAQuery :: "u16 \<Rightarrow> string \<Rightarrow> dns_err + bytes" where
  "encodeAQuery qid name = encodeQuery qid name 1"

section \<open>No index is out of range\<close>

lemma at_InrD: "at bs i = Inr b \<Longrightarrow> i < length bs \<and> b = bs ! i"
  by (simp add: at_def split: if_splits)

lemma sub_bytes_ok [simp]: "i \<le> j \<Longrightarrow> j \<le> length bs \<Longrightarrow> sub_bytes bs i j = Inr (slice bs i j)"
  by (simp add: sub_bytes_def)

lemma u16_at_ok: "i + 2 \<le> length bs \<Longrightarrow> u16_at bs i = Inr (de16 (bs ! i) (bs ! (i + 1)))"
  by (simp add: u16_at_def slice_def)

lemma u16_at_ex: "i + 2 \<le> length bs \<Longrightarrow> \<exists>w. u16_at bs i = Inr w"
  by (simp add: u16_at_ok)

lemma skipName_no_panic: "skipName msg off \<noteq> Inl IndexPanic"
proof (induction msg off rule: skipName.induct)
  case (1 msg off)
  then show ?case by (simp add: skipName.simps [of msg off] at_def)
qed

lemma skipName_bounds: "skipName msg off = Inr off' \<Longrightarrow> off < off' \<and> off' \<le> length msg"
proof (induction msg off rule: skipName.induct)
  case (1 msg off)
  show ?case
  proof (cases "length msg \<le> off")
    case False
    then have "at msg off = Inr (msg ! off)" by (simp add: at_def)
    with 1 False show ?thesis
      by (force simp: skipName.simps [of msg off] split: if_splits)
  qed (use "1.prems" in \<open>simp add: skipName.simps\<close>)
qed

lemma skipNameIn_eq: "skipNameIn msg rdata off = skipName rdata off"
proof (induction rdata off rule: skipName.induct)
  case (1 rdata off)
  show ?case
    unfolding skipNameIn.simps [of msg rdata off] skipName.simps [of rdata off]
    using 1 by (auto intro!: sbind_cong simp: at_def)
qed

lemma skipQuestions_ok:
  "off \<le> length msg \<Longrightarrow> (case skipQuestions n msg off of Inl e \<Rightarrow> e \<noteq> IndexPanic | Inr off' \<Rightarrow> off' \<le> length msg)"
proof (induction n msg off rule: skipQuestions.induct)
  case (2 n msg off)
  then show ?case
    using skipName_no_panic [of msg off] by (cases "skipName msg off") auto
qed simp

definition within :: "'a list \<Rightarrow> 'a list \<Rightarrow> bool" where
  "within xs ys \<longleftrightarrow> (\<exists>a b. ys = a @ xs @ b)"

lemma within_slice: "within (slice bs i j) bs"
  unfolding within_def slice_def by (metis append_take_drop_id)

lemma readAnswers_ok:
  "case readAnswers n msg off of
     Inl e \<Rightarrow> e \<noteq> IndexPanic | Inr rrs \<Rightarrow> length rrs = n \<and> (\<forall>rr \<in> set rrs. within (rr_rdata rr) msg)"
proof (induction n arbitrary: off)
  case 0
  then show ?case by simp
next
  case (Suc n)
  show ?case
  proof (cases "skipName msg off")
    case (Inl e)
    with skipName_no_panic [of msg off] show ?thesis by auto
  next
    case (Inr o1)
    show ?thesis
    proof (cases "length msg < o1 + 10")
      case True
      with Inr show ?thesis by simp
    next
      case False
      then obtain ty len where "u16_at msg o1 = Inr ty" "u16_at msg (o1 + 8) = Inr len"
        using u16_at_ex [of o1 msg] u16_at_ex [of "o1 + 8" msg] by auto
      with False Inr Suc.IH [of "o1 + 10 + unat len"] show ?thesis
        by (auto simp: within_slice Let_def split: sum.splits)
    qed
  qed
qed

lemma iterAnswers_ok:
  "case iterAnswers msg of
     Inl e \<Rightarrow> e \<noteq> IndexPanic | Inr rrs \<Rightarrow> \<forall>rr \<in> set rrs. within (rr_rdata rr) msg"
proof (cases "length msg < 12")
  case False
  let ?q = "skipQuestions (unat (de16 (msg ! 4) (msg ! 5))) msg 12"
  have q: "case ?q of Inl e \<Rightarrow> e \<noteq> IndexPanic | Inr off' \<Rightarrow> off' \<le> length msg"
    by (rule skipQuestions_ok) (use False in simp)
  show ?thesis
  proof (cases ?q)
    case (Inl e)
    with False q show ?thesis by (auto simp: iterAnswers_def u16_at_ok)
  next
    case (Inr off)
    with False readAnswers_ok [of "unat (de16 (msg ! 6) (msg ! 7))" msg off] show ?thesis
      by (auto simp: iterAnswers_def u16_at_ok split: sum.splits)
  qed
qed (simp add: iterAnswers_def)

lemma fourByteGroups_length: "ip \<in> set (fourByteGroups bs) \<Longrightarrow> length ip = 4"
  by (induction bs rule: fourByteGroups.induct) auto

lemma svcParams_ok:
  "case svcParams rdata off of Inl e \<Rightarrow> False | Inr ips \<Rightarrow> \<forall>ip \<in> set ips. length ip = 4"
proof (induction rdata off rule: svcParams.induct)
  case (1 rdata off)
  show ?case
  proof (cases "length rdata < off + 4")
    case True
    then show ?thesis by (simp add: svcParams.simps [of rdata off])
  next
    case False
    then obtain key ln where k: "u16_at rdata off = Inr key" "u16_at rdata (off + 2) = Inr ln"
      using u16_at_ex [of off rdata] u16_at_ex [of "off + 2" rdata] by auto
    show ?thesis
    proof (cases "length rdata < off + 4 + unat ln")
      case True
      with k False show ?thesis by (simp add: svcParams.simps [of rdata off] Let_def)
    next
      case F: False
      from "1.IH" [OF False k refl F, of "slice rdata (off + 4) (off + 4 + unat ln)"] F k False
      show ?thesis
        by (auto simp: svcParams.simps [of rdata off] Let_def dest: fourByteGroups_length split: sum.splits)
    qed
  qed
qed

lemma hints_ok:
  "case ipv4HintsFromHTTPS msg rdata of Inl e \<Rightarrow> False | Inr ips \<Rightarrow> \<forall>ip \<in> set ips. length ip = 4"
  using skipName_no_panic [of rdata 2] svcParams_ok [of rdata "projr (skipName rdata 2)"]
  by (cases "skipName rdata 2") (auto simp: ipv4HintsFromHTTPS_def skipNameIn_eq)

lemma hintsOf_ok: "case hintsOf msg rrs of Inl e \<Rightarrow> False | Inr ips \<Rightarrow> \<forall>ip \<in> set ips. length ip = 4"
proof (induction rrs)
  case (Cons rr rrs)
  then show ?case
    using hints_ok [of msg "rr_rdata rr"] by (auto split: sum.splits)
qed simp

text \<open>
  C12. Safety of the parsers on arbitrary bytes from the network: no access of
  \<open>parseAAnswers\<close> or \<open>parseHTTPSIPv4Hints\<close> is out of range, both terminate, every address
  they return has four bytes, and an A address is a contiguous part of the message.
\<close>
theorem dns_parsers_safe:
  "parseAAnswers msg \<noteq> Inl IndexPanic \<and> parseHTTPSIPv4Hints msg \<noteq> Inl IndexPanic
   \<and> (\<forall>ips ip. parseAAnswers msg = Inr ips \<and> ip \<in> set ips \<longrightarrow> length ip = 4 \<and> within ip msg)
   \<and> (\<forall>ips ip. parseHTTPSIPv4Hints msg = Inr ips \<and> ip \<in> set ips \<longrightarrow> length ip = 4)"
proof (cases "iterAnswers msg")
  case (Inl e)
  with iterAnswers_ok [of msg] show ?thesis
    by (simp add: parseAAnswers_def parseHTTPSIPv4Hints_def)
next
  case (Inr rrs)
  with iterAnswers_ok [of msg] hintsOf_ok [of msg rrs] show ?thesis
    by (auto simp: parseAAnswers_def parseHTTPSIPv4Hints_def split: sum.splits)
qed

theorem dns_parsers_safe_witness:
  "length [192, 0, 2, 1 :: byte] = 4 \<and> parseAAnswers (replicate 11 0) \<noteq> Inl IndexPanic"
  using dns_parsers_safe [of "replicate 11 0"] by simp

section \<open>Queries and replies\<close>

lemma small_label_bits: "0 < n \<Longrightarrow> n < 64 \<Longrightarrow> (word_of_nat n :: byte) \<noteq> 0 \<and> word_of_nat n AND (0xC0 :: byte) \<noteq> 0xC0"
proof -
  assume n: "0 < n" "n < 64"
  have u: "unat (word_of_nat n :: byte) = n" using n by (simp add: unat_of_nat)
  have "\<not> bit (word_of_nat n :: byte) 7"
  proof -
    have "\<not> bit n 7" using n by (simp add: bit_iff_odd)
    then show ?thesis by (simp add: bit_simps)
  qed
  moreover have "bit (0xC0 :: byte) 7" by (simp add: bit_numeral_rec)
  ultimately have "word_of_nat n AND (0xC0 :: byte) \<noteq> 0xC0"
    by (metis bit_and_iff)
  with u n show ?thesis by auto
qed

lemma skipName_shift:
  "skipName nm off = Inr off' \<Longrightarrow> skipName (pre @ nm @ rest) (length pre + off) = Inr (length pre + off')"
proof (induction nm off rule: skipName.induct)
  case (1 nm off)
  show ?case
  proof (cases "length nm \<le> off")
    case False
    then have a: "at nm off = Inr (nm ! off)" "at (pre @ nm @ rest) (length pre + off) = Inr (nm ! off)"
      by (simp_all add: at_def nth_append)
    from "1.IH" [OF False a(1)] "1.prems" False a show ?thesis
      unfolding skipName.simps [of nm off] skipName.simps [of "pre @ nm @ rest" "length pre + off"]
      by (auto simp: add.assoc split: if_splits)
  qed (use "1.prems" in \<open>simp add: skipName.simps [of nm off]\<close>)
qed

lemma skipName_at:
  "skipName nm 0 = Inr (length nm) \<Longrightarrow> skipName (pre @ nm @ rest) (length pre) = Inr (length pre + length nm)"
  using skipName_shift [of nm 0 "length nm" pre rest] by simp

lemma skipName_labels: "encodeLabels labs = Inr r \<Longrightarrow> skipName (r @ [0]) 0 = Inr (length r + 1)"
proof (induction labs arbitrary: r)
  case Nil
  then show ?case by (simp add: skipName.simps at_def)
next
  case (Cons lab labs)
  show ?case
  proof (cases "lab = []")
    case True
    with Cons show ?thesis by simp
  next
    case False
    with Cons.prems obtain r' where l: "length lab < 64" and e: "encodeLabels labs = Inr r'"
      and r: "r = word_of_nat (length lab) # str_bytes lab @ r'"
      by (auto simp: sbind_eq_Inr split: if_splits)
    let ?pre = "word_of_nat (length lab) # str_bytes lab :: bytes"
    have "skipName (?pre @ (r' @ [0]) @ []) (length ?pre) = Inr (length ?pre + (length r' + 1))"
      using skipName_shift [OF Cons.IH [OF e], of ?pre "[]"] by simp
    moreover have "unat (word_of_nat (length lab) :: byte) = length lab"
      using l by (simp add: unat_of_nat)
    ultimately show ?thesis
      using small_label_bits [of "length lab"] l False
      by (simp add: r skipName.simps [of _ 0] at_def)
  qed
qed

text \<open>A reference reader for the uncompressed name of a question.\<close>

function readLabels :: "bytes \<Rightarrow> (string list \<times> bytes) option" where
  "readLabels [] = None"
| "readLabels (l # r) =
     (if l = 0 then Some ([], r)
      else if 63 < unat l \<or> length r < unat l then None
      else map_option (\<lambda>(labs, r'). (bytes_str (take (unat l) r) # labs, r')) (readLabels (drop (unat l) r)))"
  by pat_completeness auto
termination by (relation "measure length") auto

lemma readLabels_encode:
  "encodeLabels labs = Inr r \<Longrightarrow>
     readLabels (r @ 0 # rest) = Some (filter (\<lambda>l. l \<noteq> []) labs, rest)"
proof (induction labs arbitrary: r)
  case (Cons lab labs)
  show ?case
  proof (cases "lab = []")
    case False
    with Cons.prems obtain r' where l: "length lab < 64" and e: "encodeLabels labs = Inr r'"
      and r: "r = word_of_nat (length lab) # str_bytes lab @ r'"
      by (auto simp: sbind_eq_Inr split: if_splits)
    have "unat (word_of_nat (length lab) :: byte) = length lab"
      using l by (simp add: unat_of_nat)
    with Cons.IH [OF e] small_label_bits [of "length lab"] l False show ?thesis
      by (simp add: r)
  qed (use Cons in simp)
qed simp

lemma encodeLabels_fails: "(\<exists>e. encodeLabels labs = Inl e) \<longleftrightarrow> (\<exists>l \<in> set labs. 63 < length l)"
proof (induction labs)
  case (Cons lab labs)
  then show ?case by (cases "encodeLabels labs") auto
qed simp

lemma length_queryHeader [simp]: "length (queryHeader qid) = 12"
  by (simp add: queryHeader_def)

definition nameLabels :: "string \<Rightarrow> string list" where
  "nameLabels name = splitOn CHR ''.'' (TrimSuffix name ''.'')"

text \<open>
  The query encoder: it fails exactly when a label exceeds 63 bytes; otherwise the
  message is a 12-byte header with the id, the recursion flag and one question, and a reader
  of the question gets back the non-empty labels of the name in order, the type and class IN.
\<close>
theorem encodeQuery_reads_back:
  "(case encodeQuery qid name qtype of
      Inl e \<Rightarrow> (\<exists>l \<in> set (nameLabels name). 63 < length l)
    | Inr q \<Rightarrow> (\<forall>l \<in> set (nameLabels name). length l \<le> 63)
        \<and> take 12 q = be16 qid @ [1, 0, 0, 1, 0, 0, 0, 0, 0, 0]
        \<and> readLabels (drop 12 q) = Some (filter (\<lambda>l. l \<noteq> []) (nameLabels name), be16 qtype @ [0, 1]))"
proof (cases "encodeLabels (nameLabels name)")
  case (Inl e)
  with encodeLabels_fails [of "nameLabels name"] show ?thesis
    by (auto simp: encodeQuery_def nameLabels_def)
next
  case (Inr r)
  have "be16 0x0100 = [1, 0]" "be16 1 = [0, 1]"
    by (simp_all add: be16_def drop_bit_eq_div word_unat_eq_iff unsigned_ucast_eq unat_div)
  then have "take 12 (queryHeader qid @ x) = be16 qid @ [1, 0, 0, 1, 0, 0, 0, 0, 0, 0]" for x
    by (simp add: queryHeader_def be16_def numeral_eq_Suc)
  then show ?thesis
    using Inr encodeLabels_fails [of "nameLabels name"] readLabels_encode [OF Inr, of "be16 qtype @ [0, 1]"]
    by (auto simp: encodeQuery_def nameLabels_def not_less)
qed

theorem encodeQuery_reads_back_witness:
  "encodeAQuery 7 ''a.b.'' = Inr (queryHeader 7 @ [1, 97, 1, 98, 0, 0, 1, 0, 1])
   \<and> readLabels [1, 97, 1, 98, 0, 0, 1, 0, 1] = Some ([''a'', ''b''], [0, 1, 0, 1])"
proof -
  have "be16 1 = [0, 1]"
    by (simp add: be16_def drop_bit_eq_div word_unat_eq_iff unsigned_ucast_eq unat_div)
  then have q: "encodeQuery 7 ''a.b.'' 1 = Inr (queryHeader 7 @ [1, 97, 1, 98, 0, 0, 1, 0, 1])"
    and n: "nameLabels ''a.b.'' = [''a'', ''b'']"
    by (simp_all add: encodeQuery_def nameLabels_def TrimSuffix_def HasSuffix_def str_bytes_def byte_of_def)
  with encodeQuery_reads_back [where qid = 7 and name = "''a.b.''" and qtype = 1] \<open>be16 1 = [0, 1]\<close> show ?thesis
    by (simp add: encodeAQuery_def)
qed

text \<open>
  A reply: any id and flags, the question of the query, and answer records under names of
  any form (labels or a compression pointer), each with six bytes of class and TTL.
\<close>

record answer =
  an_name :: bytes
  an_meta :: bytes
  an_rr :: dnsRR

definition answer_ok :: "answer \<Rightarrow> bool" where
  "answer_ok a \<longleftrightarrow> skipName (an_name a) 0 = Inr (length (an_name a)) \<and> length (an_meta a) = 6
     \<and> length (rr_rdata (an_rr a)) < 65536"

definition encodeAnswer :: "answer \<Rightarrow> bytes" where
  "encodeAnswer a = an_name a @ be16 (rr_typ (an_rr a)) @ an_meta a
     @ be16 (word_of_nat (length (rr_rdata (an_rr a)))) @ rr_rdata (an_rr a)"

definition reply :: "bytes \<Rightarrow> bytes \<Rightarrow> answer list \<Rightarrow> bytes \<Rightarrow> bytes" where
  "reply idflags question answers trailer =
     idflags @ be16 1 @ be16 (word_of_nat (length answers)) @ replicate 4 0
     @ question @ concat (map encodeAnswer answers) @ trailer"

lemma u16_at_append: "u16_at (pre @ be16 w @ rest) (length pre) = Inr w"
  by (simp add: u16_at_ok be16_def nth_append)

lemma readAnswers_step:
  assumes "skipName msg off = Inr o1" and "u16_at msg o1 = Inr ty" and "u16_at msg (o1 + 8) = Inr len"
    and "o1 + 10 + unat len \<le> length msg" and "readAnswers n msg (o1 + 10 + unat len) = Inr rrs"
  shows "readAnswers (Suc n) msg off
    = Inr (\<lparr>rr_typ = ty, rr_rdata = slice msg (o1 + 10) (o1 + 10 + unat len)\<rparr> # rrs)"
  using assms by (simp add: Let_def)

lemma readAnswers_encode:
  "list_all answer_ok answers \<Longrightarrow>
     readAnswers (length answers) (pre @ concat (map encodeAnswer answers) @ trailer) (length pre)
       = Inr (map an_rr answers)"
proof (induction answers arbitrary: pre)
  case (Cons a answers)
  then have ok: "answer_ok a" and oks: "list_all answer_ok answers" by simp_all
  let ?rest = "concat (map encodeAnswer answers) @ trailer"
  let ?rd = "rr_rdata (an_rr a)"
  let ?ty = "be16 (rr_typ (an_rr a))" and ?ln = "be16 (word_of_nat (length ?rd))"
  let ?msg = "pre @ an_name a @ ?ty @ an_meta a @ ?ln @ ?rd @ ?rest"
  let ?off = "length pre + length (an_name a)"
  have name: "skipName ?msg (length pre) = Inr ?off"
    using ok by (intro skipName_at) (simp add: answer_ok_def)
  have t: "u16_at ?msg ?off = Inr (rr_typ (an_rr a))"
    using u16_at_append [of "pre @ an_name a"] by simp
  have l: "u16_at ?msg (?off + 8) = Inr (word_of_nat (length ?rd))"
    using u16_at_append [of "pre @ an_name a @ ?ty @ an_meta a" "word_of_nat (length ?rd)" "?rd @ ?rest"] ok
    by (simp add: answer_ok_def ac_simps)
  have u: "unat (word_of_nat (length ?rd) :: u16) = length ?rd"
    using ok by (simp add: answer_ok_def unat_of_nat)
  have d: "slice ?msg (?off + 10) (?off + 10 + length ?rd) = ?rd"
    using ok by (simp add: slice_def answer_ok_def)
  have r: "readAnswers (length answers) ?msg (?off + 10 + length ?rd) = Inr (map an_rr answers)"
    using Cons.IH [OF oks, of "pre @ an_name a @ ?ty @ an_meta a @ ?ln @ ?rd"] ok
    by (simp add: answer_ok_def ac_simps)
  have len: "?off + 10 + unat (word_of_nat (length ?rd) :: u16) \<le> length ?msg"
    unfolding u using ok by (simp add: answer_ok_def)
  have "readAnswers (Suc (length answers)) ?msg (length pre) = Inr (an_rr a # map an_rr answers)"
    using readAnswers_step [OF name t l len, unfolded u, OF r] unfolding d by simp
  then show ?case by (simp add: encodeAnswer_def [of a] del: readAnswers.simps)
qed simp

lemma skipName_question:
  assumes "encodeLabels labs = Inr r"
  shows "skipName (pre @ (r @ [0]) @ rest) (length pre) = Inr (length pre + length (r @ [0]))"
  using skipName_at [of "r @ [0]" pre rest] skipName_labels [OF assms] by simp

lemma iterAnswers_reply:
  assumes q: "encodeQuery qid name qtype = Inr q" and "length idflags = 4"
    and ok: "list_all answer_ok answers" and n: "length answers < 65536"
  shows "iterAnswers (reply idflags (drop 12 q) answers trailer) = Inr (map an_rr answers)"
proof -
  from q obtain r where r: "encodeLabels (nameLabels name) = Inr r"
    and d: "drop 12 q = (r @ [0]) @ be16 qtype @ [0, 1]"
    by (auto simp: encodeQuery_def nameLabels_def sbind_eq_Inr)
  let ?cnt = "word_of_nat (length answers) :: u16"
  let ?hdr = "idflags @ be16 1 @ be16 ?cnt @ replicate 4 0 :: bytes"
  let ?tail = "concat (map encodeAnswer answers) @ trailer"
  let ?pre = "?hdr @ (r @ [0]) @ be16 qtype @ [0, 1]"
  let ?msg = "reply idflags (drop 12 q) answers trailer"
  have m: "?msg = ?pre @ ?tail" by (simp add: reply_def d)
  have qd: "u16_at ?msg 4 = Inr 1"
    using u16_at_append [of idflags 1] assms(2) by (simp add: reply_def)
  have an: "u16_at ?msg 6 = Inr ?cnt"
    using u16_at_append [of "idflags @ be16 1" ?cnt] assms(2) by (simp add: reply_def)
  have "skipName (?hdr @ (r @ [0]) @ be16 qtype @ [0, 1] @ ?tail) 12 = Inr (12 + length (r @ [0]))"
    using skipName_question [OF r, of ?hdr "be16 qtype @ [0, 1] @ ?tail"] assms(2) by simp
  then have qs: "skipQuestions 1 ?msg 12 = Inr (length ?pre)"
    using assms(2) by (simp add: m)
  have "unat ?cnt = length answers" using n by (simp add: unat_of_nat)
  with qd an qs readAnswers_encode [OF ok, of ?pre trailer] assms(2) show ?thesis
    by (simp add: iterAnswers_def m)
qed

text \<open>
  Answers are read completely: for a reply to a query the code itself encoded, with any
  answer records under uncompressed or compressed names, \<open>parseAAnswers\<close> returns the data of
  exactly the type-A records with four bytes, in order, whatever follows the answers - and
  whatever the id and flags are, which the parser never looks at.
\<close>
theorem parseA_reply:
  assumes "encodeQuery qid name 1 = Inr q" and "length idflags = 4"
    and "list_all answer_ok answers" and "length answers < 65536"
  shows "parseAAnswers (reply idflags (drop 12 q) answers trailer)
    = Inr (map rr_rdata (filter (\<lambda>rr. rr_typ rr = 1 \<and> length (rr_rdata rr) = 4) (map an_rr answers)))"
  using iterAnswers_reply [OF assms] by (simp add: parseAAnswers_def)

theorem parseA_reply_witness:
  "parseAAnswers (reply [0, 9, 0x81, 0x80] [1, 97, 0, 0, 1, 0, 1]
     [\<lparr>an_name = [0xC0, 12], an_meta = [0, 1, 0, 0, 0, 9], an_rr = \<lparr>rr_typ = 1, rr_rdata = [192, 0, 2, 7]\<rparr>\<rparr>,
      \<lparr>an_name = [1, 98, 0], an_meta = [0, 1, 0, 0, 0, 9], an_rr = \<lparr>rr_typ = 5, rr_rdata = [0]\<rparr>\<rparr>] [42])
   = Inr [[192, 0, 2, 7]]"
proof -
  let ?as = "[\<lparr>an_name = [0xC0, 12], an_meta = [0, 1, 0, 0, 0, 9], an_rr = \<lparr>rr_typ = 1, rr_rdata = [192, 0, 2, 7]\<rparr>\<rparr>,
      \<lparr>an_name = [1, 98, 0], an_meta = [0, 1, 0, 0, 0, 9], an_rr = \<lparr>rr_typ = 5, rr_rdata = [0]\<rparr>\<rparr>]"
  have "be16 1 = [0, 1]"
    by (simp add: be16_def drop_bit_eq_div word_unat_eq_iff unsigned_ucast_eq unat_div)
  then have q: "encodeQuery 3 ''a'' 1 = Inr (queryHeader 3 @ [1, 97, 0, 0, 1, 0, 1])"
    by (simp add: encodeQuery_def TrimSuffix_def HasSuffix_def str_bytes_def byte_of_def)
  have "list_all answer_ok ?as"
    by (simp add: answer_ok_def skipName.simps at_def)
  from parseA_reply [OF q _ this, where idflags = "[0, 9, 0x81, 0x80]" and trailer = "[42]"] show ?thesis
    by simp
qed

section \<open>Merging hints and addresses\<close>

definition first_occ :: "'a list \<Rightarrow> 'a list" where
  "first_occ xs = rev (remdups (rev xs))"

lemma remdups_seen: "v \<in> set ys \<Longrightarrow> remdups (xs @ v # ys) = remdups (xs @ ys)"
  by (induction xs) auto

lemma first_occ_seen: "v \<in> set xs \<Longrightarrow> first_occ (xs @ v # ys) = first_occ (xs @ ys)"
  by (simp add: first_occ_def remdups_seen)

lemma first_occ_distinct: "distinct xs \<Longrightarrow> first_occ xs = xs"
  by (simp add: first_occ_def distinct_remdups_id)

lemma distinct_first_occ [simp]: "distinct (first_occ xs)"
  by (simp add: first_occ_def)

lemma set_first_occ [simp]: "set (first_occ xs) = set xs"
  by (simp add: first_occ_def)

lemma IPString_v4_inj: "length v = 4 \<Longrightarrow> length w = 4 \<Longrightarrow> IPString v = IPString w \<Longrightarrow> v = w"
  by (metis IPString_v4 ParseIP_v4String option.inject same_append_eq)

lemma mergeLoop_first_occ:
  "distinct out \<Longrightarrow> \<forall>v \<in> set out. length v = 4 \<Longrightarrow>
   mergeLoop ips (IPString ` set out) out =
     (let r = first_occ (out @ List.map_filter To4 ips) in (r, IPString ` set r))"
proof (induction ips arbitrary: out)
  case Nil
  then show ?case by (simp add: first_occ_distinct List.map_filter_def)
next
  case (Cons ip ips)
  show ?case
  proof (cases "To4 ip")
    case None
    with Cons show ?thesis by (simp add: List.map_filter_def)
  next
    case (Some v)
    then have lv: "length v = 4" by (rule To4_length)
    show ?thesis
    proof (cases "v \<in> set out")
      case True
      with Some Cons show ?thesis by (simp add: List.map_filter_def first_occ_seen)
    next
      case False
      with lv Cons.prems(2) have "IPString v \<notin> IPString ` set out"
        using IPString_v4_inj by blast
      with Some False lv Cons.prems Cons.IH [of "out @ [v]"] show ?thesis
        by (simp add: List.map_filter_def)
    qed
  qed
qed

lemma mergeIPv4_eq:
  "mergeIPv4 hint a = first_occ (List.map_filter To4 (hint @ a))"
proof -
  let ?h = "first_occ (List.map_filter To4 hint)"
  have l4: "\<forall>v \<in> set (List.map_filter To4 xs). length v = 4" for xs
    by (auto simp: List.map_filter_def dest: To4_length)
  have "mergeLoop hint {} [] = (?h, IPString ` set ?h)"
    using mergeLoop_first_occ [of "[]" hint] by (simp add: Let_def)
  moreover have "mergeLoop a (IPString ` set ?h) ?h
      = (let r = first_occ (?h @ List.map_filter To4 a) in (r, IPString ` set r))"
    by (rule mergeLoop_first_occ) (use l4 in auto)
  moreover have "first_occ (first_occ xs @ ys) = first_occ (xs @ ys)" for xs ys :: "ip list"
  proof -
    have "remdups (as @ remdups bs) = remdups (as @ bs)" for as bs :: "ip list"
      by (induction as) auto
    then show ?thesis by (simp add: first_occ_def)
  qed
  ultimately show ?thesis by (simp add: mergeIPv4_def Let_def List.map_filter_def)
qed

text \<open>
  \<open>mergeIPv4\<close> keeps the IPv4 addresses of both lists, hints before answers, each once
  and at its first position: dropping repeats by their printed form loses no address.
\<close>
theorem mergeIPv4_first_occurrences:
  "mergeIPv4 hint a = first_occ (List.map_filter To4 (hint @ a))"
  by (rule mergeIPv4_eq)

end
