(* ===== verification/Resolver.thy ===== *)
theory Resolver
  imports Dns
begin

text \<open>
  Resolution around the messages of \<open>Dns\<close> (\<open>internal/dialer/dest.go\<close>, \<open>dns.go\<close>, \<open>dnsauth.go\<close>):
  nameserver entries and policy patterns, the signed query names, the TTL cache and the
  single flight per key, racing several servers, racing A against HTTPS hints, and the
  destination list of a node.
\<close>

section \<open>Nameserver entries and policy patterns\<close>

record DNSServer =
  ds_network :: string
  ds_addr :: string

definition ParseNameserver :: "string \<Rightarrow> DNSServer option" where
  "ParseNameserver s0 =
     (let s1 = TrimSpace s0 in
      if s1 = [] then None
      else
        let s2 = (case indexOf s1 ''#'' of Some i \<Rightarrow> take i s1 | None \<Rightarrow> s1);
            s3 = TrimSpace s2 in
        if \<not> HasPrefix s3 ''udp://'' \<and> \<not> HasPrefix s3 ''tcp://''
           \<and> (HasPrefix s3 ''https://'' \<or> HasPrefix s3 ''tls://'' \<or> HasPrefix s3 ''quic://'' \<or> HasPrefix s3 ''h3://'')
        then None
        else
          let network = (if \<not> HasPrefix s3 ''udp://'' \<and> HasPrefix s3 ''tcp://'' then ''tcp'' else ''udp'');
              s4 = (if HasPrefix s3 ''udp://'' then TrimPrefix s3 ''udp://''
                    else if HasPrefix s3 ''tcp://'' then TrimPrefix s3 ''tcp://'' else s3);
              (host, port) = (case SplitHostPort s4 of Some hp \<Rightarrow> hp | None \<Rightarrow> (s4, ''53'')) in
          if host = [] then None
          else
            let port' = (if Atoi port = None then ''53'' else port) in
            Some \<lparr>ds_network = network, ds_addr = JoinHostPort host port'\<rparr>)"

definition DomainMatch :: "(string \<Rightarrow> string) \<Rightarrow> string \<Rightarrow> string \<Rightarrow> bool" where
  "DomainMatch L pattern host =
     (let p = ToLower L (TrimSpace pattern);
          h = ToLower L (TrimSuffix (TrimSpace host) ''.'') in
      if p = [] \<or> h = [] then False
      else if HasPrefix p ''+.'' then h = TrimPrefix p ''+.'' \<or> HasSuffix h (TrimPrefix p ''+'')
      else if HasPrefix p ''*.'' then HasSuffix h (drop 1 p)
      else h = p)"

section \<open>Signed query names\<close>

text \<open>
  The key and suffix come out of \<open>dnsAuthInit\<close>; \<open>da_sign\<close> is the Ed25519 signature under
  the decoded seed, \<open>None\<close> when the seed did not decode.
\<close>

record dnsauth =
  da_sign :: "(bytes \<Rightarrow> bytes) option"
  da_suffix :: string

definition dnsAuthWindow :: int where "dnsAuthWindow = 300"

definition needsDNSAuth :: "(string \<Rightarrow> string) \<Rightarrow> dnsauth \<Rightarrow> string \<Rightarrow> bool" where
  "needsDNSAuth L A host =
     (if da_sign A = None \<or> da_suffix A = [] then False
      else let h = ToLower L (TrimSuffix (TrimSpace host) ''.'') in
           h = da_suffix A \<or> HasSuffix h (''.'' @ da_suffix A))"

definition bits_of :: "bytes \<Rightarrow> bool list" where
  "bits_of bs = concat (map (\<lambda>b. map (bit b) [7, 6, 5, 4, 3, 2, 1, 0]) bs)"

definition base32_char :: "nat \<Rightarrow> char" where
  \<comment> \<open>the standard alphabet\<close>
  "base32_char v = (if v < 26 then char_of (65 + v) else char_of (24 + v))"

function base32_bits :: "bool list \<Rightarrow> string" where
  "base32_bits bs =
     (if bs = [] then []
      else base32_char (foldl (\<lambda>n b. 2 * n + of_bool b) 0 (take 5 (bs @ replicate 4 False)))
           # base32_bits (drop 5 bs))"
  by pat_completeness auto
termination by (relation "measure length") auto

declare base32_bits.simps [simp del]

definition base32 :: "bytes \<Rightarrow> string" where
  \<comment> \<open>\<open>base32.StdEncoding.WithPadding(base32.NoPadding)\<close>\<close>
  "base32 bs = base32_bits (bits_of bs)"

definition tokenizeHostWindow :: "(string \<Rightarrow> string) \<Rightarrow> dnsauth \<Rightarrow> string \<Rightarrow> int \<Rightarrow> string" where
  "tokenizeHostWindow L A name window =
     (case da_sign A of
        None \<Rightarrow> name
      | Some sign \<Rightarrow>
          let sig = sign (str_bytes (name @ ''|'' @ Itoa window));
              p1 = ToLower L (base32 (take 32 sig));
              p2 = ToLower L (base32 (drop 32 sig)) in
          p1 @ ''.'' @ p2 @ ''.'' @ name)"

definition TokenizeHost :: "(string \<Rightarrow> string) \<Rightarrow> dnsauth \<Rightarrow> int \<Rightarrow> string \<Rightarrow> string" where
  \<comment> \<open>\<open>now\<close> is the Unix time, after 1970 (Go's division truncates)\<close>
  "TokenizeHost L A now host =
     (let h = ToLower L (TrimSuffix (TrimSpace host) ''.'') in
      if h = [] \<or> \<not> needsDNSAuth L A h then host
      else tokenizeHostWindow L A h (now div dnsAuthWindow))"

section \<open>The cache\<close>

type_synonym dnsCache = "string \<rightharpoonup> ip list \<times> int"

definition dnsCacheTTL :: int where "dnsCacheTTL = 60 * 10 ^ 9"

definition dnsCacheKey :: "string \<Rightarrow> DNSServer list \<Rightarrow> string" where
  "dnsCacheKey host servers =
     host @ concat (map (\<lambda>s. ''|'' @ ds_network s @ ''@'' @ ds_addr s) servers)"

definition dnsCacheGet :: "string \<Rightarrow> int \<Rightarrow> dnsCache \<Rightarrow> ip list" where
  "dnsCacheGet key now c =
     (case c key of None \<Rightarrow> [] | Some (ips, exp) \<Rightarrow> if exp < now then [] else ips)"

definition dnsCachePut :: "string \<Rightarrow> ip list \<Rightarrow> int \<Rightarrow> dnsCache \<Rightarrow> dnsCache" where
  "dnsCachePut key ips now c = (if ips = [] then c else c(key \<mapsto> (ips, now + dnsCacheTTL)))"

section \<open>Racing queries\<close>

datatype res_err = LookupErr nat | CtxErr | NoARecords | EmptyHost

type_synonym rr_result = "ip list \<times> res_err option"

text \<open>What each \<open>select\<close> of \<open>lookupAAndHints\<close> sees first.\<close>

datatype a_event = AResult rr_result | ADone
datatype wait_event = Hint rr_result | WaitTimer | WaitDone
datatype late_event = LateHint rr_result | LateDone

definition hintErrors :: "rr_result \<Rightarrow> rr_result \<Rightarrow> res_err + ip list" where
  \<comment> \<open>the tail of \<open>lookupAAndHints\<close>\<close>
  "hintErrors a https =
     (case snd a of Some e \<Rightarrow> Inl e
      | None \<Rightarrow> (case snd https of Some e \<Rightarrow> Inl e | None \<Rightarrow> Inl NoARecords))"

definition lookupAAndHints :: "a_event \<Rightarrow> wait_event \<Rightarrow> late_event \<Rightarrow> res_err + ip list" where
  "lookupAAndHints ae we le =
     (case ae of
        ADone \<Rightarrow> Inl CtxErr
      | AResult a \<Rightarrow>
          if we = WaitDone \<and> snd a \<noteq> None then Inl CtxErr
          else
            let https = (case we of Hint r \<Rightarrow> r | _ \<Rightarrow> ([], None));
                httpsGot = (case we of Hint r \<Rightarrow> True | _ \<Rightarrow> False);
                out = mergeIPv4 (fst https) (fst a) in
            if out \<noteq> [] then Inr out
            else if httpsGot then hintErrors a https
            else (case le of
                    LateDone \<Rightarrow> (case snd a of Some e \<Rightarrow> Inl e | None \<Rightarrow> Inl CtxErr)
                  | LateHint r \<Rightarrow>
                      let out = mergeIPv4 (fst r) (fst a) in
                      if out \<noteq> [] then Inr out else hintErrors a r))"

datatype server_event = ServerResult rr_result | CtxDone

fun gatherServers :: "nat \<Rightarrow> server_event list \<Rightarrow> res_err option \<Rightarrow> res_err + ip list" where
  \<comment> \<open>the loop of \<open>lookupServersUncached\<close> over the events in arrival order; the context has a
     deadline, so after the listed events it is done\<close>
  "gatherServers 0 evs prev = Inl (case prev of None \<Rightarrow> NoARecords | Some e \<Rightarrow> e)"
| "gatherServers (Suc n) [] prev = Inl (case prev of None \<Rightarrow> CtxErr | Some e \<Rightarrow> e)"
| "gatherServers (Suc n) (CtxDone # evs) prev = Inl (case prev of None \<Rightarrow> CtxErr | Some e \<Rightarrow> e)"
| "gatherServers (Suc n) (ServerResult r # evs) prev =
     (if fst r \<noteq> [] then Inr (fst r)
      else gatherServers n evs (if snd r \<noteq> None then snd r else prev))"

definition lookupServersUncached ::
  "string \<Rightarrow> DNSServer list \<Rightarrow> server_event list \<Rightarrow> int \<Rightarrow> dnsCache \<Rightarrow> (res_err + ip list) \<times> dnsCache" where
  "lookupServersUncached host servers evs now c =
     (case gatherServers (length servers) evs None of
        Inl e \<Rightarrow> (Inl e, c)
      | Inr ips \<Rightarrow> (Inr ips, dnsCachePut (dnsCacheKey host servers) ips now c))"

section \<open>One lookup\<close>

definition CloudNodesDNS :: string where "CloudNodesDNS = ''124.221.68.73:1053''"

definition fallbackCloudNodesDNS :: "DNSServer list" where
  "fallbackCloudNodesDNS =
     [\<lparr>ds_network = ''udp'', ds_addr = CloudNodesDNS\<rparr>, \<lparr>ds_network = ''tcp'', ds_addr = CloudNodesDNS\<rparr>]"

text \<open>
  \<open>LookupServers\<close> up to the point where it needs somebody else: an answer, the system
  resolver, waiting for the call in flight, or starting one.
\<close>

datatype lookup_action =
  Answer "res_err + ip list" | AskSystem string | AwaitCall string | StartCall string "DNSServer list"

record resolver =
  rs_cache :: dnsCache
  rs_flight :: "string set"  \<comment> \<open>the keys of \<open>dnsSF\<close>\<close>

definition LookupServers ::
  "(string \<Rightarrow> string) \<Rightarrow> dnsauth \<Rightarrow> int \<Rightarrow> string \<Rightarrow> DNSServer list \<Rightarrow> resolver \<Rightarrow> lookup_action \<times> resolver" where
  "LookupServers L A now host0 servers0 r =
     (let host = TrimSuffix (TrimSpace host0) ''.'' in
      if host = [] then (Answer (Inl EmptyHost), r)
      else case ParseIP host of
        Some ip \<Rightarrow> (Answer (Inr [case To4 ip of Some v4 \<Rightarrow> v4 | None \<Rightarrow> ip]), r)
      | None \<Rightarrow>
          let servers = (if servers0 = [] \<and> needsDNSAuth L A host then fallbackCloudNodesDNS else servers0) in
          if servers = [] then (AskSystem host, r)
          else
            let ck = dnsCacheKey host servers; cached = dnsCacheGet ck now (rs_cache r) in
            if cached \<noteq> [] then (Answer (Inr cached), r)
            else if ck \<in> rs_flight r then (AwaitCall ck, r)
            else (StartCall host servers, r\<lparr>rs_flight := insert ck (rs_flight r)\<rparr>))"

text \<open>The goroutine of \<open>LookupServers\<close>: resolve (and fill the cache), later clear the flight.\<close>

definition resolveCall ::
  "string \<Rightarrow> DNSServer list \<Rightarrow> server_event list \<Rightarrow> int \<Rightarrow> resolver \<Rightarrow> (res_err + ip list) \<times> resolver" where
  "resolveCall host servers evs now r =
     (case lookupServersUncached host servers evs now (rs_cache r) of
        (res, c) \<Rightarrow> (res, r\<lparr>rs_cache := c\<rparr>))"

definition clearCall :: "string \<Rightarrow> resolver \<Rightarrow> resolver" where
  "clearCall ck r = r\<lparr>rs_flight := rs_flight r - {ck}\<rparr>"

definition waitDNSCall :: "(res_err + ip list) option \<Rightarrow> res_err + ip list" where
  \<comment> \<open>\<open>None\<close>: the caller's context ends first\<close>
  "waitDNSCall call = (case call of None \<Rightarrow> Inl CtxErr | Some res \<Rightarrow> res)"

section \<open>Destinations\<close>

datatype dest_err = MissingPort | MissingServer | Resolve res_err | ResolveNoA

definition Destinations ::
  "string \<Rightarrow> int \<Rightarrow> string \<Rightarrow> (res_err + ip list) \<Rightarrow> dest_err + string list" where
  \<comment> \<open>\<open>server\<close>, \<open>port\<close> and \<open>DialIP\<close> of the node, and the result of \<open>LookupServers\<close>\<close>
  "Destinations server port dialIP looked =
     (if port \<le> 0 then Inl MissingPort
      else if dialIP \<noteq> [] then Inr [JoinHostPort dialIP (Itoa port)]
      else if server = [] then Inl MissingServer
      else case looked of
             Inl e \<Rightarrow> Inl (Resolve e)
           | Inr ips \<Rightarrow>
               if ips = [] then Inl ResolveNoA
               else Inr (map (\<lambda>ip. JoinHostPort (IPString ip) (Itoa port)) ips))"

definition SelectDestination ::
  "string \<Rightarrow> int \<Rightarrow> string \<Rightarrow> (res_err + ip list) \<Rightarrow> dest_err + string" where
  "SelectDestination server port dialIP looked =
     sbind (Destinations server port dialIP looked) (\<lambda>ds. Inr (hd ds))"

fun prefetchHosts :: "(string \<times> string) list \<Rightarrow> string set \<Rightarrow> string list" where
  \<comment> \<open>\<open>Prefetch\<close>: the hosts (of nodes given as server and DialIP) it resolves\<close>
  "prefetchHosts [] seen = []"
| "prefetchHosts ((server, dialIP) # ns) seen =
     (let host = TrimSuffix (TrimSpace server) ''.'' in
      if host = [] \<or> dialIP \<noteq> [] \<or> host \<in> seen then prefetchHosts ns seen
      else host # prefetchHosts ns (insert host seen))"

section \<open>Patterns and signed names respect labels\<close>

definition labels :: "string \<Rightarrow> string list" where
  "labels s = splitOn CHR ''.'' s"

lemma splitOn_sep: "splitOn c (a @ c # b) = splitOn c a @ splitOn c b"
  by (induction a) (auto split: list.splits)

lemma joinWith_splitOn: "joinWith [c] (splitOn c s) = s"
proof (induction s)
  case (Cons x s)
  then show ?case
    by (cases "splitOn c s"; cases "tl (splitOn c s)") auto
qed simp

lemma joinWith_append:
  "xs \<noteq> [] \<Longrightarrow> ys \<noteq> [] \<Longrightarrow> joinWith sep (xs @ ys) = joinWith sep xs @ sep @ joinWith sep ys"
proof (induction sep xs rule: joinWith.induct)
  case (2 sep w)
  then show ?case by (cases ys) auto
qed auto

lemma label_suffix:
  "(\<exists>xs. labels h = xs @ labels d) \<longleftrightarrow> h = d \<or> HasSuffix h (''.'' @ d)"
proof
  assume "\<exists>xs. labels h = xs @ labels d"
  then obtain xs where x: "splitOn CHR ''.'' h = xs @ splitOn CHR ''.'' d" by (auto simp: labels_def)
  have "h = joinWith ''.'' (splitOn CHR ''.'' h)" "d = joinWith ''.'' (splitOn CHR ''.'' d)"
    by (simp_all add: joinWith_splitOn)
  then show "h = d \<or> HasSuffix h (''.'' @ d)"
    using x joinWith_append [of xs "splitOn CHR ''.'' d" "''.''"]
    by (cases "xs = []") (auto simp: HasSuffix_iff)
next
  assume "h = d \<or> HasSuffix h (''.'' @ d)"
  then show "\<exists>xs. labels h = xs @ labels d"
    by (auto simp: labels_def HasSuffix_iff splitOn_sep)
qed

text \<open>
  A policy pattern \<open>+.d\<close> matches a host exactly when the labels of the host end with the
  labels of \<open>d\<close>, and \<open>*.d\<close> when there is at least one label more: neither matches in the middle
  of a label, so \<open>+.example\<close> does not match \<open>badexample\<close>. The same holds for the suffix that
  decides whether a name is signed.
\<close>
theorem domain_patterns_match_labels:
  fixes L A host
  defines "h \<equiv> ToLower L (TrimSuffix (TrimSpace host) ''.'')"
  shows "(ToLower L (TrimSpace pattern) = ''+.'' @ d \<longrightarrow>
            DomainMatch L pattern host = (h \<noteq> [] \<and> (\<exists>xs. labels h = xs @ labels d)))
       \<and> (ToLower L (TrimSpace pattern) = ''*.'' @ d \<longrightarrow>
            DomainMatch L pattern host = (\<exists>xs. xs \<noteq> [] \<and> labels h = xs @ labels d))
       \<and> needsDNSAuth L A host =
           (da_sign A \<noteq> None \<and> da_suffix A \<noteq> [] \<and> (\<exists>xs. labels h = xs @ labels (da_suffix A)))"
proof -
  have plus: "TrimPrefix (''+.'' @ d) ''+'' = ''.'' @ d" "TrimPrefix (''+.'' @ d) ''+.'' = d"
    by (simp_all add: TrimPrefix_def HasPrefix_def)
  have star: "(\<exists>xs. xs \<noteq> [] \<and> labels h = xs @ labels d) \<longleftrightarrow> HasSuffix h (''.'' @ d)"
  proof
    assume "\<exists>xs. xs \<noteq> [] \<and> labels h = xs @ labels d"
    then have "h \<noteq> d" "\<exists>xs. labels h = xs @ labels d" by auto
    then show "HasSuffix h (''.'' @ d)" by (simp add: label_suffix)
  next
    assume "HasSuffix h (''.'' @ d)"
    then obtain r where "h = r @ CHR ''.'' # d" by (auto simp: HasSuffix_iff)
    then have "labels h = labels r @ labels d" by (simp add: labels_def splitOn_sep)
    moreover have "labels r \<noteq> []" by (simp add: labels_def)
    ultimately show "\<exists>xs. xs \<noteq> [] \<and> labels h = xs @ labels d" by blast
  qed
  have empty: "\<not> HasSuffix [] (''.'' @ d)" by (simp add: HasSuffix_def)
  have "ToLower L (TrimSpace pattern) = ''+.'' @ d \<Longrightarrow>
      DomainMatch L pattern host = (h \<noteq> [] \<and> (h = d \<or> HasSuffix h (''.'' @ d)))"
    using plus by (simp add: DomainMatch_def h_def Let_def HasPrefix_def)
  moreover have "ToLower L (TrimSpace pattern) = ''*.'' @ d \<Longrightarrow>
      DomainMatch L pattern host = HasSuffix h (''.'' @ d)"
    using empty by (auto simp: DomainMatch_def h_def Let_def HasPrefix_def)
  moreover have "needsDNSAuth L A host = (da_sign A \<noteq> None \<and> da_suffix A \<noteq> []
      \<and> (h = da_suffix A \<or> HasSuffix h (''.'' @ da_suffix A)))"
    by (simp add: needsDNSAuth_def h_def Let_def)
  ultimately show ?thesis using star label_suffix by simp
qed

theorem domain_patterns_match_labels_witness:
  "DomainMatch id ''+.example'' ''a.example'' = (\<exists>xs. labels ''a.example'' = xs @ labels ''example'')
   \<and> (\<exists>xs. labels ''a.example'' = xs @ labels ''example'')"
proof -
  have l: "ToLower id ''+.example'' = ''+.example''" "ToLower id ''a.example'' = ''a.example''"
    and t: "TrimSuffix ''a.example'' ''.'' = ''a.example''" by (simp_all add: ToLower_def is_ascii_def lower_char_def TrimSuffix_def HasSuffix_def)
  have "\<exists>xs. labels ''a.example'' = xs @ labels ''example''"
    by (rule exI [of _ "[''a'']"]) (simp add: labels_def)
  then show ?thesis
    using domain_patterns_match_labels [where L = id and pattern = "''+.example''" and host = "''a.example''"
        and d = "''example''"]
    by (simp add: visible_def l t)
qed

lemma Atoi_port_ok: "Atoi p = Some i \<Longrightarrow> port_ok p"
  by (cases p) (auto simp: Atoi_def Let_def port_ok_def list_all_iff is_digit_def split: if_splits)

lemma Atoi_53: "Atoi ''53'' = Some 53"
  by (simp add: Atoi_def is_digit_def dec_val_def digit_val_def)

lemmas eval_ns = ParseNameserver_def visible_def HasPrefix_def TrimPrefix_def SplitHostPort_def
  lastByteIndex_def byteIndex_def JoinHostPort_def Atoi_53

text \<open>
  What \<open>ParseNameserver\<close> accepts is a UDP or TCP server whose address joins a non-empty
  host with a decimal port; unless the host carries brackets of its own, splitting the address
  gives host and port back.
\<close>
theorem ParseNameserver_sound:
  assumes "ParseNameserver s = Some d"
  shows "(ds_network d = ''udp'' \<or> ds_network d = ''tcp'')
    \<and> (\<exists>host port. ds_addr d = JoinHostPort host port \<and> host \<noteq> [] \<and> Atoi port \<noteq> None
         \<and> (host_ok host \<longrightarrow> SplitHostPort (ds_addr d) = Some (host, port)))"
proof -
  obtain network host port where d: "d = \<lparr>ds_network = network, ds_addr = JoinHostPort host port\<rparr>"
    and "network = ''udp'' \<or> network = ''tcp''" and "host \<noteq> []" and p: "Atoi port \<noteq> None"
    using assms Atoi_53
    by (auto simp: ParseNameserver_def Let_def split: if_splits prod.splits)
  moreover have "port_ok port" using p Atoi_port_ok by blast
  ultimately show ?thesis using SplitHostPort_Join by auto
qed

theorem ParseNameserver_sound_witness:
  "ParseNameserver ''tcp://a#x'' = Some \<lparr>ds_network = ''tcp'', ds_addr = ''a:53''\<rparr>
   \<and> (\<exists>host port. ''a:53'' = JoinHostPort host port)"
proof -
  have "ParseNameserver ''tcp://a#x'' = Some \<lparr>ds_network = ''tcp'', ds_addr = ''a:53''\<rparr>"
    by (simp add: eval_ns)
  with ParseNameserver_sound [OF this] show ?thesis by auto
qed

text \<open>A bracketed address without a port gets a second pair of brackets and cannot be dialled.\<close>

theorem ParseNameserver_brackets:
  "ParseNameserver ''[::1]'' = Some \<lparr>ds_network = ''udp'', ds_addr = ''[[::1]]:53''\<rparr>
   \<and> SplitHostPort ''[[::1]]:53'' = None"
  by (simp add: eval_ns)

section \<open>Signed names can be queried\<close>

lemma ceil5: "0 < n \<Longrightarrow> Suc ((n - 5 + 4) div 5) = (n + 4) div (5 :: nat)"
proof -
  assume n: "0 < n"
  then have "(n + 4) div 5 = Suc ((n + 4 - 5) div 5)" by (intro le_div_geq) auto
  moreover have "(n + 4 - 5) div 5 = (n - 5 + 4) div 5" using n by (cases "5 \<le> n") auto
  ultimately show ?thesis by simp
qed

lemma base32_bits_length: "length (base32_bits bs) = (length bs + 4) div 5"
proof (induction bs rule: base32_bits.induct)
  case (1 bs)
  show ?case
  proof (cases "bs = []")
    case True
    then show ?thesis by (simp add: base32_bits.simps)
  next
    case False
    from ceil5 [of "length bs"] False have "Suc ((length bs - 5 + 4) div 5) = (length bs + 4) div 5" by simp
    moreover have "length (base32_bits bs) = Suc (length (base32_bits (drop 5 bs)))"
      using False by (subst base32_bits.simps) simp
    ultimately show ?thesis using "1.IH" [OF False] by simp
  qed
qed

lemma bits_of_length: "length (bits_of bs) = 8 * length bs"
  by (induction bs) (simp_all add: bits_of_def)

lemma base32_char_fold:
  "v < 32 \<Longrightarrow> (of_char (base32_char v) :: nat) < 128 \<and> lower_char (base32_char v) \<noteq> CHR ''.''"
proof -
  assume v: "v < 32"
  then have o: "(of_char (base32_char v) :: nat) = (if v < 26 then 65 + v else 24 + v)"
    by (simp add: base32_char_def)
  with v have "(of_char (lower_char (base32_char v)) :: nat) = (if v < 26 then 97 + v else 24 + v)"
    by (simp add: lower_char_def)
  moreover have "(of_char CHR ''.'' :: nat) = 46" by simp
  ultimately have "lower_char (base32_char v) \<noteq> CHR ''.''" by (auto split: if_splits)
  with o v show ?thesis by auto
qed

lemma fold5_less: "foldl (\<lambda>n b. 2 * n + of_bool b) a bs < (a + 1) * 2 ^ length bs" for a :: nat
proof (induction bs arbitrary: a)
  case (Cons b bs)
  have "foldl (\<lambda>n b. 2 * n + of_bool b) (2 * a + of_bool b) bs < (2 * a + of_bool b + 1) * 2 ^ length bs"
    by (rule Cons.IH)
  also have "\<dots> \<le> ((a + 1) * 2) * 2 ^ length bs" by (intro mult_right_mono) auto
  finally show ?case by simp
qed simp

lemma base32_bits_chars:
  "c \<in> set (base32_bits bs) \<Longrightarrow> (of_char c :: nat) < 128 \<and> lower_char c \<noteq> CHR ''.''"
proof (induction bs rule: base32_bits.induct)
  case (1 bs)
  show ?case
  proof (cases "bs = []")
    case False
    let ?v = "foldl (\<lambda>n b. 2 * n + of_bool b) 0 (take 5 (bs @ replicate 4 False)) :: nat"
    have "length (take 5 (bs @ replicate 4 False)) = 5" using False by (cases bs) auto
    then have v: "?v < 32" using fold5_less [of 0 "take 5 (bs @ replicate 4 False)"] by (simp only: power_numeral) simp
    from "1.prems" False have "c = base32_char ?v \<or> c \<in> set (base32_bits (drop 5 bs))"
      by (simp add: base32_bits.simps [of bs])
    then show ?thesis using base32_char_fold [OF v] "1.IH" [OF False] by blast
  qed (use "1.prems" in \<open>simp add: base32_bits.simps\<close>)
qed

lemma lower_base32:
  "length bs = 32 \<Longrightarrow> length (ToLower L (base32 bs)) = 52 \<and> CHR ''.'' \<notin> set (ToLower L (base32 bs))"
proof -
  assume l: "length bs = 32"
  have "is_ascii (base32 bs)"
    by (auto simp: is_ascii_def base32_def list_all_iff dest: base32_bits_chars)
  moreover have "CHR ''.'' \<notin> lower_char ` set (base32 bs)"
    by (auto simp: base32_def dest: base32_bits_chars)
  moreover have "length (base32 bs) = 52"
    using l by (simp add: base32_def base32_bits_length bits_of_length)
  ultimately show ?thesis by (simp add: ToLower_def)
qed

text \<open>
  A dedicated hostname is queried under two signature labels in front of its own labels.
  With a 64-byte signature both have 52 characters, so the signed query can be encoded exactly
  when the bare one can; a name outside the signed suffix is queried as it is.
\<close>
theorem TokenizeHost_labels:
  fixes L host
  defines "h \<equiv> ToLower L (TrimSuffix (TrimSpace host) ''.'')"
  assumes "\<forall>sign m. da_sign A = Some sign \<longrightarrow> length (sign m) = 64"
  shows "if h \<noteq> [] \<and> needsDNSAuth L A h
    then \<exists>p1 p2. labels (TokenizeHost L A now host) = p1 # p2 # labels h
           \<and> length p1 = 52 \<and> length p2 = 52
           \<and> (HasSuffix h ''.'' \<or> (\<forall>qid qtype. (\<exists>e. encodeQuery qid (TokenizeHost L A now host) qtype = Inl e)
                \<longleftrightarrow> (\<exists>e. encodeQuery qid h qtype = Inl e)))
    else TokenizeHost L A now host = host"
proof (cases "h \<noteq> [] \<and> needsDNSAuth L A h")
  case True
  then obtain sign where s: "da_sign A = Some sign" by (auto simp: needsDNSAuth_def split: if_splits)
  let ?sig = "sign (str_bytes (h @ ''|'' @ Itoa (now div dnsAuthWindow)))"
  let ?p1 = "ToLower L (base32 (take 32 ?sig))" and ?p2 = "ToLower L (base32 (drop 32 ?sig))"
  have l: "length ?sig = 64" using assms(2) s by simp
  have t: "TokenizeHost L A now host = ?p1 @ CHR ''.'' # ?p2 @ CHR ''.'' # h"
    using True s by (simp add: TokenizeHost_def h_def [symmetric] tokenizeHostWindow_def Let_def)
  have p1: "length ?p1 = 52" "CHR ''.'' \<notin> set ?p1" using lower_base32 [of "take 32 ?sig" L] l by simp_all
  have p2: "length ?p2 = 52" "CHR ''.'' \<notin> set ?p2" using lower_base32 [of "drop 32 ?sig" L] l by simp_all
  have lab: "labels (TokenizeHost L A now host) = ?p1 # ?p2 # labels h"
    unfolding t labels_def using p1(2) p2(2) by (simp add: splitOn_append)
  have enc: "(\<exists>e. encodeQuery qid (TokenizeHost L A now host) qtype = Inl e)
      \<longleftrightarrow> (\<exists>e. encodeQuery qid h qtype = Inl e)" if ns: "\<not> HasSuffix h ''.''" for qid qtype
  proof -
    have "\<not> HasSuffix (TokenizeHost L A now host) ''.''"
      using ns True by (simp add: t HasSuffix_last)
    with ns lab have "nameLabels (TokenizeHost L A now host) = ?p1 # ?p2 # nameLabels h"
      by (simp add: nameLabels_def TrimSuffix_def labels_def)
    moreover have "(\<exists>e. encodeQuery qid nm qtype = Inl e) \<longleftrightarrow> (\<exists>l \<in> set (nameLabels nm). 63 < length l)" for nm
      using encodeLabels_fails [of "nameLabels nm"]
      by (simp add: encodeQuery_def nameLabels_def sbind_eq_Inl)
    ultimately show ?thesis using p1 p2 by auto
  qed
  from True lab p1(1) p2(1) enc show ?thesis by auto
next
  case False
  then show ?thesis by (auto simp: TokenizeHost_def h_def Let_def)
qed

theorem TokenizeHost_labels_witness:
  "\<exists>p1 p2. labels (TokenizeHost id \<lparr>da_sign = Some (\<lambda>m. replicate 64 7), da_suffix = ''n.x''\<rparr> 900 ''a.n.x'')
     = [p1, p2, ''a'', ''n'', ''x''] \<and> length p1 = 52 \<and> length p2 = 52"
proof -
  let ?A = "\<lparr>da_sign = Some (\<lambda>m. replicate 64 7), da_suffix = ''n.x''\<rparr>"
  have h: "ToLower id (TrimSuffix (TrimSpace ''a.n.x'') ''.'') = ''a.n.x''"
    by (simp add: visible_def ToLower_def is_ascii_def lower_char_def TrimSuffix_def HasSuffix_def)
  then have n: "needsDNSAuth id ?A ''a.n.x''" by (simp add: needsDNSAuth_def HasSuffix_def)
  from n TokenizeHost_labels [where L = id and A = ?A and now = 900 and host = "''a.n.x''"]
  obtain p1 p2 where "labels (TokenizeHost id ?A 900 ''a.n.x'') = p1 # p2 # labels ''a.n.x''"
    and l: "length p1 = 52" "length p2 = 52"
    by (auto simp: h)
  moreover have "labels ''a.n.x'' = [''a'', ''n'', ''x'']" by (simp add: labels_def)
  ultimately have "labels (TokenizeHost id ?A 900 ''a.n.x'') = [p1, p2, ''a'', ''n'', ''x'']"
    by (simp only:)
  with l show ?thesis by blast
qed

section \<open>Racing\<close>

lemma mergeIPv4_superset:
  "\<forall>ip \<in> set a. length ip = 4 \<Longrightarrow> set a \<subseteq> set (mergeIPv4 hint a)"
proof -
  assume "\<forall>ip \<in> set a. length ip = 4"
  then have "To4 ip = Some ip" if "ip \<in> set a" for ip using that by (simp add: To4_def)
  then have "set a \<subseteq> set (List.map_filter To4 a)" by (force simp: List.map_filter_def)
  then show ?thesis using mergeLoop_first_occ [of "[]" hint]
    unfolding mergeIPv4_eq by (auto simp: List.map_filter_def)
qed

text \<open>
  C20. The A answer decides: once a non-empty A answer is in, the lookup succeeds and keeps all
  its addresses, whatever happens to the HTTPS query - in time, late, failed or cancelled. A
  hint that arrives within the wait comes first in the list, and a late one never delays an
  A answer.
\<close>
theorem A_answer_decides:
  assumes "a \<noteq> []" and "\<forall>ip \<in> set a. length ip = 4"
  shows "\<exists>r. lookupAAndHints (AResult (a, None)) we le = Inr r \<and> set a \<subseteq> set r
     \<and> (we = WaitTimer \<or> we = WaitDone \<longrightarrow> r = first_occ a)
     \<and> (\<forall>h e. we = Hint (h, e) \<longrightarrow> (\<exists>s. r = first_occ (List.map_filter To4 h) @ s))"
proof -
  have ne: "mergeIPv4 h a \<noteq> []" for h
    using mergeIPv4_superset [OF assms(2), of h] assms(1) by (cases a) auto
  have id: "List.map_filter To4 a = a"
    using assms(2) by (induction a) (simp_all add: List.map_filter_def To4_def)
  have mf: "List.map_filter To4 (h @ a) = List.map_filter To4 h @ List.map_filter To4 a" for h
    by (simp add: List.map_filter_def)
  have pre: "\<exists>s. first_occ (xs @ ys) = first_occ xs @ s" for xs ys :: "ip list"
  proof (induction ys rule: rev_induct)
    case (snoc y ys)
    then obtain s where "first_occ (xs @ ys) = first_occ xs @ s" by blast
    then show ?case by (cases "y \<in> set (xs @ ys)") (auto simp: first_occ_def intro: exI [of _ "s @ [y]"])
  qed simp
  show ?thesis
    using ne mergeIPv4_superset [OF assms(2)] id pre mf
    by (cases we) (auto simp: lookupAAndHints_def mergeIPv4_eq Let_def)
qed

theorem A_answer_decides_witness:
  "\<exists>r. lookupAAndHints (AResult ([[1, 2, 3, 4]], None)) (Hint ([[9, 9, 9, 9]], None)) LateDone = Inr r
     \<and> (\<exists>s. r = [9, 9, 9, 9] # s)"
  using A_answer_decides [of "[[1, 2, 3, 4]]" "Hint ([[9, 9, 9, 9]], None)" LateDone]
  by (auto simp: List.map_filter_def To4_def first_occ_def)

lemma gatherServers_first_fact:
  "gatherServers n evs prev = Inr ips \<longleftrightarrow>
     ips \<noteq> [] \<and> (\<exists>k < n. k < length evs \<and> (\<exists>e. evs ! k = ServerResult (ips, e))
       \<and> (\<forall>j < k. \<exists>e. evs ! j = ServerResult ([], e)))"
proof (induction n evs prev rule: gatherServers.induct)
  case (4 n r evs prev)
  obtain rips re where r: "r = (rips, re)" by (cases r)
  show ?case
  proof (cases "rips = []")
    case True
    with 4 r show ?thesis by (auto simp: Ex_less_Suc2 All_less_Suc2)
  next
    case False
    with r show ?thesis by (auto simp: Ex_less_Suc2 All_less_Suc2)
  qed
qed (auto simp: nth_Cons split: nat.splits option.splits)

text \<open>
  Racing several nameservers: the result is the address list of the first server, in
  arrival order and among the answers awaited before the context ends, that has any address;
  there is a success exactly when such an answer exists.
\<close>
theorem gatherServers_first:
  "gatherServers n evs None = Inr ips \<longleftrightarrow>
     ips \<noteq> [] \<and> (\<exists>k < n. k < length evs \<and> (\<exists>e. evs ! k = ServerResult (ips, e))
       \<and> (\<forall>j < k. \<exists>e. evs ! j = ServerResult ([], e)))"
  by (rule gatherServers_first_fact)

theorem gatherServers_first_witness:
  "gatherServers 2 [ServerResult ([], Some CtxErr), ServerResult ([[1, 2, 3, 4]], None)] None
     = Inr [[1, 2, 3, 4]]"
  by (subst gatherServers_first) (auto intro!: exI [of _ 1])

section \<open>The cache and the flight\<close>

definition cache_ok :: "dnsCache \<Rightarrow> bool" where
  "cache_ok c \<longleftrightarrow> (\<forall>k ips e. c k = Some (ips, e) \<longrightarrow> ips \<noteq> [])"

record lookups =
  lk_rs :: resolver
  lk_running :: "(string \<times> DNSServer list) list"  \<comment> \<open>goroutines before the result is published\<close>
  lk_done :: "string list"  \<comment> \<open>goroutines that still have to clear their key\<close>

inductive lookup_step :: "(string \<Rightarrow> string) \<Rightarrow> dnsauth \<Rightarrow> lookups \<Rightarrow> lookups \<Rightarrow> bool"
  for L A where
  ask: "LookupServers L A now host servers (lk_rs w) = (act, r') \<Longrightarrow>
    lookup_step L A w
      (w\<lparr>lk_rs := r',
         lk_running := (case act of StartCall h s \<Rightarrow> (h, s) # lk_running w | _ \<Rightarrow> lk_running w)\<rparr>)"
| publish: "lk_running w = xs @ (h, s) # ys \<Longrightarrow> resolveCall h s evs now (lk_rs w) = (res, r') \<Longrightarrow>
    lookup_step L A w
      (w\<lparr>lk_rs := r', lk_running := xs @ ys, lk_done := dnsCacheKey h s # lk_done w\<rparr>)"
| clear: "lk_done w = xs @ k # ys \<Longrightarrow>
    lookup_step L A w (w\<lparr>lk_rs := clearCall k (lk_rs w), lk_done := xs @ ys\<rparr>)"

definition lookups0 :: lookups where
  "lookups0 = \<lparr>lk_rs = \<lparr>rs_cache = Map.empty, rs_flight = {}\<rparr>, lk_running = [], lk_done = []\<rparr>"

definition flight_inv :: "lookups \<Rightarrow> bool" where
  "flight_inv w \<longleftrightarrow>
     (let ks = map (\<lambda>(h, s). dnsCacheKey h s) (lk_running w) @ lk_done w in
      distinct ks \<and> set ks = rs_flight (lk_rs w)) \<and> cache_ok (rs_cache (lk_rs w))"

lemma cache_ok_put: "cache_ok c \<Longrightarrow> cache_ok (dnsCachePut k ips now c)"
  by (auto simp: cache_ok_def dnsCachePut_def)

lemma LookupServers_effect:
  "LookupServers L A now host servers r = (act, r') \<Longrightarrow>
     rs_cache r' = rs_cache r \<and>
     (case act of
        StartCall h s \<Rightarrow> dnsCacheKey h s \<notin> rs_flight r \<and> rs_flight r' = insert (dnsCacheKey h s) (rs_flight r)
      | _ \<Rightarrow> rs_flight r' = rs_flight r)"
  by (auto simp: LookupServers_def Let_def split: if_splits option.splits simp del: ParseIP.simps)

lemma resolveCall_effect:
  "resolveCall h s evs now r = (res, r') \<Longrightarrow>
     rs_flight r' = rs_flight r \<and> (cache_ok (rs_cache r) \<longrightarrow> cache_ok (rs_cache r'))"
  by (auto simp: resolveCall_def lookupServersUncached_def cache_ok_put split: sum.splits prod.splits)

lemma flight_inv_step: "lookup_step L A w w' \<Longrightarrow> flight_inv w \<Longrightarrow> flight_inv w'"
proof (induction rule: lookup_step.induct)
  case (ask now host servers w act r')
  from LookupServers_effect [OF ask.hyps] ask.prems show ?case
    by (cases act) (auto simp: flight_inv_def)
next
  case (publish w xs h s ys evs now res r')
  from resolveCall_effect [OF publish.hyps(2)] publish.hyps(1) publish.prems show ?case
    by (auto simp: flight_inv_def)
next
  case (clear w xs k ys)
  then show ?case by (auto simp: flight_inv_def clearCall_def)
qed

interpretation lookup_machine: state_machine lookups0 "lookup_step L A" flight_inv for L A
proof
  show "flight_inv lookups0" by (simp add: flight_inv_def lookups0_def cache_ok_def)
qed (rule flight_inv_step)

text \<open>
  C11. At most one query per host and server list: in every state the lookups can reach, the
  goroutines in flight have pairwise different keys, and these are exactly the keys of
  \<open>dnsSF\<close>, so a second caller always finds the first one's call; and the cache never holds an
  empty list.
\<close>
theorem single_flight:
  assumes "(lookup_step L A)\<^sup>*\<^sup>* lookups0 w"
  shows "distinct (map (\<lambda>(h, s). dnsCacheKey h s) (lk_running w) @ lk_done w)
    \<and> set (map (\<lambda>(h, s). dnsCacheKey h s) (lk_running w) @ lk_done w) = rs_flight (lk_rs w)
    \<and> cache_ok (rs_cache (lk_rs w))"
proof -
  from lookup_machine.reachable [OF assms] show ?thesis by (simp add: flight_inv_def Let_def)
qed

theorem single_flight_witness:
  "\<exists>w. (lookup_step id \<lparr>da_sign = None, da_suffix = []\<rparr>)\<^sup>*\<^sup>* lookups0 w
     \<and> lk_running w = [(''a'', [\<lparr>ds_network = ''udp'', ds_addr = ''d''\<rparr>])]
     \<and> rs_flight (lk_rs w) = {''a|udp@d''}"
proof -
  let ?A = "\<lparr>da_sign = None, da_suffix = []\<rparr>" and ?s = "[\<lparr>ds_network = ''udp'', ds_addr = ''d''\<rparr>]"
  have "LookupServers id ?A 0 ''a'' ?s (lk_rs lookups0)
      = (StartCall ''a'' ?s, \<lparr>rs_cache = Map.empty, rs_flight = {''a|udp@d''}\<rparr>)"
    by (simp add: LookupServers_def visible_def TrimSuffix_def HasSuffix_def lookups0_def dnsCacheKey_def
        dnsCacheGet_def Let_def)
  from lookup_step.ask [OF this]
  have "lookup_step id ?A lookups0
      \<lparr>lk_rs = \<lparr>rs_cache = Map.empty, rs_flight = {''a|udp@d''}\<rparr>, lk_running = [(''a'', ?s)], lk_done = []\<rparr>"
    by (simp add: lookups0_def)
  then have r: "(lookup_step id ?A)\<^sup>*\<^sup>* lookups0
      \<lparr>lk_rs = \<lparr>rs_cache = Map.empty, rs_flight = {''a|udp@d''}\<rparr>, lk_running = [(''a'', ?s)], lk_done = []\<rparr>"
    by (rule r_into_rtranclp)
  from r single_flight [OF r] show ?thesis by (intro exI conjI) (assumption | simp)+
qed

text \<open>
  The destination list: a node with a positive port and a literal \<open>DialIP\<close> is dialled there
  without resolution; otherwise every resolved address appears with the node's port, in the
  resolver's order, each entry splits back into address and port, and the list is never empty,
  so taking its first element in \<open>SelectDestination\<close> is safe.
\<close>
theorem Destinations_correct:
  "Destinations server port dialIP looked = Inr ds \<Longrightarrow>
     ds \<noteq> [] \<and> 0 < port \<and> SelectDestination server port dialIP looked = Inr (ds ! 0)
     \<and> (if dialIP \<noteq> [] then ds = [JoinHostPort dialIP (Itoa port)]
        else \<exists>ips. looked = Inr ips \<and> length ds = length ips
          \<and> (\<forall>i < length ips. host_ok (IPString (ips ! i)) \<longrightarrow>
               SplitHostPort (ds ! i) = Some (IPString (ips ! i), Itoa port)))"
proof -
  assume d: "Destinations server port dialIP looked = Inr ds"
  have p: "0 < port \<Longrightarrow> port_ok (Itoa port)" by (simp add: Itoa_def)
  from d have "ds \<noteq> []" by (auto simp: Destinations_def split: if_splits sum.splits)
  moreover from this d have "SelectDestination server port dialIP looked = Inr (ds ! 0)"
    by (simp add: SelectDestination_def hd_conv_nth)
  ultimately show ?thesis using d p
    by (auto simp: Destinations_def SplitHostPort_Join split: if_splits sum.splits)
qed

theorem Destinations_correct_witness:
  "Destinations ''a'' 443 [] (Inr [[1, 2, 3, 4]]) = Inr [''1.2.3.4:443'']
   \<and> SplitHostPort ''1.2.3.4:443'' = Some (''1.2.3.4'', ''443'')"
proof -
  have s: "IPString [1, 2, 3, 4] = ''1.2.3.4''" "Itoa 443 = ''443''"
    by (simp_all add: IPString_v4 v4String_def nat_str.simps digit_def Itoa_def char_of_def bit_0)
  then have "Destinations ''a'' 443 [] (Inr [[1, 2, 3, 4]]) = Inr [''1.2.3.4:443'']"
    by (simp add: Destinations_def JoinHostPort_def)
  with Destinations_correct [OF this] s show ?thesis by (simp add: host_ok_def)
qed

end
