(* ===== verification/Socks.thy ===== *)
theory Socks
  imports Go_Net
begin

text \<open>
  The client-facing listener of \<open>internal/inbound/mixed.go\<close>: protocol detection, the SOCKS5
  handshake with its authentication and requests, the HTTP CONNECT handler on a parsed
  request, and the helpers (addresses, Basic credentials, retry delays).
\<close>

section \<open>The client connection\<close>

datatype in_err =
    ClientIo io_err | DeadlineErr nat | HandlerErr nat
  | NoMethod | AuthVersion byte | AuthFailed | SocksVersion byte | SocksCommand byte | SocksAtyp byte
  | HttpAuthFailed | HttpMethod string | EmptyHostPort | BadPort

record client =
  cl_in :: source
  cl_out :: sink
  cl_dials :: "(string \<times> u16) list"  \<comment> \<open>calls of the handler, latest first\<close>

text \<open>What surrounds the connection: results of \<open>SetDeadline\<close> and the handler.\<close>

record inbound_env =
  ie_setDeadline :: "nat option"
  ie_clearDeadline :: "nat option"
  ie_handler :: "string \<Rightarrow> u16 \<Rightarrow> nat + nat"  \<comment> \<open>error, or an upstream connection\<close>

datatype served =
    Relay nat                       \<comment> \<open>relaying between the client and this upstream\<close>
  | Associate string u16            \<comment> \<open>\<open>serveUDPAssociate\<close> with the expected address\<close>

definition cl_full :: "nat \<Rightarrow> client \<Rightarrow> (in_err + bytes) \<times> client" where
  "cl_full n c =
     (case readFull n (cl_in c) of
        (Inl e, s) \<Rightarrow> (Inl (ClientIo e), c\<lparr>cl_in := s\<rparr>)
      | (Inr d, s) \<Rightarrow> (Inr d, c\<lparr>cl_in := s\<rparr>))"

definition cl_write :: "bytes \<Rightarrow> client \<Rightarrow> (in_err + unit) \<times> client" where
  "cl_write b c =
     (case conn_write b (cl_out c) of
        (Inl e, s) \<Rightarrow> (Inl (ClientIo e), c\<lparr>cl_out := s\<rparr>)
      | (Inr n, s) \<Rightarrow> (Inr (), c\<lparr>cl_out := s\<rparr>))"

definition cl_fail :: "bytes \<Rightarrow> in_err \<Rightarrow> client \<Rightarrow> (in_err + 'a) \<times> client" where
  \<comment> \<open>\<open>_, _ = c.Write(b); return err\<close>\<close>
  "cl_fail b e c = (Inl e, snd (cl_write b c))"

definition cl_clear :: "inbound_env \<Rightarrow> client \<Rightarrow> (in_err + unit) \<times> client" where
  "cl_clear E c = ((case ie_clearDeadline E of Some e \<Rightarrow> Inl (DeadlineErr e) | None \<Rightarrow> Inr ()), c)"

definition cl_dial :: "inbound_env \<Rightarrow> string \<Rightarrow> u16 \<Rightarrow> bytes \<Rightarrow> client \<Rightarrow> (in_err + nat) \<times> client" where
  \<comment> \<open>\<open>h("tcp", host, port)\<close> and the reply \<open>b\<close> when it fails\<close>
  "cl_dial E host port b c =
     (let c' = c\<lparr>cl_dials := (host, port) # cl_dials c\<rparr> in
      case ie_handler E host port of
        Inl e \<Rightarrow> cl_fail b (HandlerErr e) c'
      | Inr up \<Rightarrow> (Inr up, c'))"

section \<open>SOCKS5\<close>

definition readSOCKSAddr :: "byte \<Rightarrow> client \<Rightarrow> (in_err + string \<times> u16) \<times> client" where
  "readSOCKSAddr atyp =
     ebind (if atyp = 1 then ebind (cl_full 4) (\<lambda>ip c. (Inr (IPString ip), c))
            else if atyp = 3 then
              ebind (cl_full 1) (\<lambda>l. ebind (cl_full (unat (l ! 0))) (\<lambda>b c. (Inr (bytes_str b), c)))
            else if atyp = 4 then ebind (cl_full 16) (\<lambda>ip c. (Inr (IPString ip), c))
            else (\<lambda>c. (Inl (SocksAtyp atyp), c)))
       (\<lambda>host. ebind (cl_full 2) (\<lambda>p c. (Inr (host, de16 (p ! 0) (p ! 1)), c)))"

definition socksAuth :: "string \<Rightarrow> string \<Rightarrow> client \<Rightarrow> (in_err + unit) \<times> client" where
  \<comment> \<open>the block \<open>if needAuth\<close>\<close>
  "socksAuth user pass =
     ebind (cl_full 2) (\<lambda>authHdr.
       if authHdr ! 0 \<noteq> 1 then cl_fail [1, 1] (AuthVersion (authHdr ! 0))
       else
         ebind (cl_full (unat (authHdr ! 1))) (\<lambda>ubuf.
         ebind (cl_full 1) (\<lambda>plen.
         ebind (cl_full (unat (plen ! 0))) (\<lambda>pbuf.
           if bytes_str ubuf \<noteq> user \<or> bytes_str pbuf \<noteq> pass then cl_fail [1, 1] AuthFailed
           else cl_write [1, 0]))))"

definition socksHandshake :: "string \<Rightarrow> string \<Rightarrow> client \<Rightarrow> (in_err + unit) \<times> client" where
  \<comment> \<open>\<open>serveSOCKS\<close> up to \<open>var req [4]byte\<close>\<close>
  "socksHandshake user pass =
     ebind (cl_full 2) (\<lambda>hdr.
     ebind (cl_full (unat (hdr ! 1))) (\<lambda>methods.
       let wantMethod = (if user \<noteq> [] then 2 else 0) in
       if wantMethod \<notin> set methods then cl_fail [5, 0xff] NoMethod
       else
         ebind (cl_write [5, wantMethod]) (\<lambda>_.
           if user \<noteq> [] then socksAuth user pass else (\<lambda>c. (Inr (), c)))))"

definition socksReply :: "byte \<Rightarrow> bytes" where
  "socksReply rep = [5, rep, 0, 1, 0, 0, 0, 0, 0, 0]"

definition socksRequest :: "inbound_env \<Rightarrow> client \<Rightarrow> (in_err + served) \<times> client" where
  \<comment> \<open>from \<open>var req [4]byte\<close> on\<close>
  "socksRequest E =
     ebind (cl_full 4) (\<lambda>req.
       if req ! 0 \<noteq> 5 \<or> req ! 2 \<noteq> 0 then (\<lambda>c. (Inl (SocksVersion (req ! 0)), c))
       else if req ! 1 = 3 then
         ebind (readSOCKSAddr (req ! 3)) (\<lambda>(host, port).
         ebind (cl_clear E) (\<lambda>_ c. (Inr (Associate host port), c)))
       else if req ! 1 \<noteq> 1 then cl_fail (socksReply 7) (SocksCommand (req ! 1))
       else
         ebind (readSOCKSAddr (req ! 3)) (\<lambda>(host, port).
         ebind (cl_dial E host port (socksReply 1)) (\<lambda>up.
         ebind (cl_clear E) (\<lambda>_.
         ebind (cl_write (socksReply 0)) (\<lambda>_ c. (Inr (Relay up), c))))))"

definition serveSOCKS :: "inbound_env \<Rightarrow> string \<Rightarrow> string \<Rightarrow> client \<Rightarrow> (in_err + served) \<times> client" where
  "serveSOCKS E user pass = ebind (socksHandshake user pass) (\<lambda>_. socksRequest E)"

section \<open>HTTP CONNECT\<close>

text \<open>A request as \<open>http.ReadRequest\<close> delivers it.\<close>

record http_request =
  hr_method :: string
  hr_host :: string
  hr_proxyAuth :: string  \<comment> \<open>\<open>Header.Get("Proxy-Authorization")\<close>\<close>

definition b64_val :: "char \<Rightarrow> nat option" where
  "b64_val c =
     (let n = of_char c in
      if 65 \<le> n \<and> n \<le> 90 then Some (n - 65)
      else if 97 \<le> n \<and> n \<le> 122 then Some (n - 71)
      else if 48 \<le> n \<and> n \<le> 57 then Some (n + 4)
      else if n = 43 then Some 62 else if n = 47 then Some 63 else None)"

fun b64_quanta :: "string \<Rightarrow> bytes option" where
  \<comment> \<open>\<open>base64.StdEncoding\<close> on a text without line breaks\<close>
  "b64_quanta [] = Some []"
| "b64_quanta [a, b, c, d] =
     (case (b64_val a, b64_val b, b64_val c, b64_val d) of
        (Some w, Some x, Some y, Some z) \<Rightarrow>
          Some [word_of_nat (4 * w + x div 16), word_of_nat (16 * x + y div 4), word_of_nat (64 * y + z)]
      | (Some w, Some x, Some y, None) \<Rightarrow>
          if d = CHR ''='' then Some [word_of_nat (4 * w + x div 16), word_of_nat (16 * x + y div 4)] else None
      | (Some w, Some x, None, None) \<Rightarrow>
          if c = CHR ''='' \<and> d = CHR ''='' then Some [word_of_nat (4 * w + x div 16)] else None
      | _ \<Rightarrow> None)"
| "b64_quanta (a # b # c # d # r) =
     (case (b64_val a, b64_val b, b64_val c, b64_val d) of
        (Some w, Some x, Some y, Some z) \<Rightarrow>
          map_option (\<lambda>t. [word_of_nat (4 * w + x div 16), word_of_nat (16 * x + y div 4), word_of_nat (64 * y + z)] @ t)
            (b64_quanta r)
      | _ \<Rightarrow> None)"
| "b64_quanta _ = None"

definition b64_decode :: "string \<Rightarrow> string option" where
  "b64_decode s = map_option bytes_str (b64_quanta (filter (\<lambda>c. c \<noteq> CHR 0x0A \<and> c \<noteq> CHR 0x0D) s))"

definition parseBasicB64 :: "string \<Rightarrow> string \<times> string \<times> bool" where
  "parseBasicB64 s =
     (case b64_decode s of
        None \<Rightarrow> ([], [], False)
      | Some raw \<Rightarrow> Cut raw '':'')"

definition parseBasic :: "string \<Rightarrow> string \<times> string \<times> bool" where
  "parseBasic h =
     (case Cut (TrimSpace h) '' '' of (scheme, encoded, ok) \<Rightarrow>
        if \<not> ok \<or> \<not> fold_is scheme ''basic'' then ([], [], False)
        else parseBasicB64 (TrimSpace encoded))"

definition splitHostPort :: "string \<Rightarrow> u16 \<Rightarrow> in_err + string \<times> u16" where
  "splitHostPort hp def =
     (if hp = [] then Inl EmptyHostPort
      else case SplitHostPort hp of
        None \<Rightarrow> Inr (hp, def)
      | Some (host, ps) \<Rightarrow>
          (case Atoi ps of
             None \<Rightarrow> Inl BadPort
           | Some p \<Rightarrow> if p < 1 \<or> 65535 < p then Inl BadPort else Inr (host, word_of_int p)))"

definition crlf :: string where "crlf = [CHR 0x0D, CHR 0x0A]"

definition http407 :: string where
  "http407 = ''HTTP/1.1 407 Proxy Authentication Required'' @ crlf
     @ ''Proxy-Authenticate: Basic realm='' @ [CHR 0x22] @ ''oixproxy'' @ [CHR 0x22] @ crlf
     @ ''Content-Length: 0'' @ crlf @ crlf"

definition http502 :: string where
  "http502 = ''HTTP/1.1 502 Bad Gateway'' @ crlf @ ''Content-Length: 0'' @ crlf @ crlf"

definition http200 :: string where
  "http200 = ''HTTP/1.1 200 Connection Established'' @ crlf @ crlf"

definition http405 :: string where
  "http405 = ''HTTP/1.1 405 Method Not Allowed'' @ crlf @ ''Allow: CONNECT'' @ crlf
     @ ''Content-Length: 0'' @ crlf @ crlf"

definition serveHTTP ::
  "inbound_env \<Rightarrow> string \<Rightarrow> string \<Rightarrow> http_request \<Rightarrow> client \<Rightarrow> (in_err + served) \<times> client" where
  \<comment> \<open>on the request that \<open>http.ReadRequest\<close> returned\<close>
  "serveHTTP E user pass req c =
     (if user \<noteq> [] \<and> parseBasic (hr_proxyAuth req) \<noteq> (user, pass, True)
      then cl_fail (str_bytes http407) HttpAuthFailed c
      else if hr_method req = ''CONNECT'' then
        (case splitHostPort (hr_host req) 443 of
           Inl e \<Rightarrow> (Inl e, c)
         | Inr (host, port) \<Rightarrow>
             ebind (cl_dial E host port (str_bytes http502)) (\<lambda>up.
             ebind (cl_clear E) (\<lambda>_.
             ebind (cl_write (str_bytes http200)) (\<lambda>_ c. (Inr (Relay up), c)))) c)
      else cl_fail (str_bytes http405) (HttpMethod (hr_method req)) c)"

definition serve ::
  "inbound_env \<Rightarrow> string \<Rightarrow> string \<Rightarrow> (client \<Rightarrow> (in_err + http_request) \<times> client)
   \<Rightarrow> client \<Rightarrow> (in_err + served) \<times> client" where
  \<comment> \<open>\<open>readRequest\<close> is \<open>http.ReadRequest\<close> on the buffered connection\<close>
  "serve E user pass readRequest c =
     (case ie_setDeadline E of
        Some e \<Rightarrow> (Inl (DeadlineErr e), c)
      | None \<Rightarrow>
          (case src_data (cl_in c) of
             [] \<Rightarrow> (Inl (ClientIo (src_end (cl_in c))), c)
           | b # _ \<Rightarrow>
               if b = 5 then serveSOCKS E user pass c
               else ebind readRequest (serveHTTP E user pass) c))"

section \<open>Accepting\<close>

definition retryInitialDelay :: int where "retryInitialDelay = 5 * 10 ^ 6"
definition retryMaxDelay :: int where "retryMaxDelay = 10 ^ 9"

definition nextRetryDelay :: "int \<Rightarrow> int" where
  "nextRetryDelay current =
     (if current \<le> 0 then retryInitialDelay
      else if retryMaxDelay < current * 2 then retryMaxDelay else current * 2)"

datatype accept_event = Accepted nat | AcceptClosed | AcceptRetryable | AcceptFatal nat

fun AcceptLoop :: "accept_event list \<Rightarrow> int \<Rightarrow> nat list \<times> int list \<times> nat option option" where
  \<comment> \<open>served connections, the sleeps, and the result (\<open>None\<close> while the loop goes on)\<close>
  "AcceptLoop [] d = ([], [], None)"
| "AcceptLoop (AcceptClosed # es) d = ([], [], Some None)"
| "AcceptLoop (AcceptFatal e # es) d = ([], [], Some (Some e))"
| "AcceptLoop (AcceptRetryable # es) d =
     (case AcceptLoop es (nextRetryDelay d) of (cs, ds, r) \<Rightarrow> (cs, nextRetryDelay d # ds, r))"
| "AcceptLoop (Accepted c # es) d =
     (case AcceptLoop es 0 of (cs, ds, r) \<Rightarrow> (c # cs, ds, r))"

section \<open>What a client has to present\<close>

lemma cl_full_Inr:
  "cl_full n c = (Inr d, c') \<Longrightarrow>
     src_data (cl_in c) = d @ src_data (cl_in c') \<and> length d = n \<and> cl_dials c' = cl_dials c \<and> cl_out c' = cl_out c"
  by (auto simp: cl_full_def split: prod.splits sum.splits dest: readFull_InrD)

lemma cl_full_dials: "cl_full n c = (r, c') \<Longrightarrow> cl_dials c' = cl_dials c"
  by (auto simp: cl_full_def split: prod.splits sum.splits)

lemma cl_write_keeps: "cl_write b c = (r, c') \<Longrightarrow> cl_dials c' = cl_dials c \<and> cl_in c' = cl_in c"
  by (auto simp: cl_write_def split: prod.splits sum.splits)

lemma cl_fail_keeps: "cl_fail b e c = (r, c') \<Longrightarrow> r = Inl e \<and> cl_dials c' = cl_dials c \<and> cl_in c' = cl_in c"
  by (cases "cl_write b c") (auto simp: cl_fail_def dest: cl_write_keeps)

definition keeps_dials :: "(client \<Rightarrow> 'a \<times> client) \<Rightarrow> bool" where
  "keeps_dials m \<longleftrightarrow> (\<forall>c r c'. m c = (r, c') \<longrightarrow> cl_dials c' = cl_dials c)"

lemma keeps_dials_ebind:
  "keeps_dials m \<Longrightarrow> (\<And>a. keeps_dials (f a)) \<Longrightarrow> keeps_dials (ebind m f)"
  by (fastforce simp: keeps_dials_def ebind_def split: prod.splits sum.splits)

lemma keeps_dials_simps [simp]:
  "keeps_dials (cl_full n)" "keeps_dials (cl_write b)" "keeps_dials (cl_fail b e)" "keeps_dials (\<lambda>c. (x, c))"
  by (auto simp: keeps_dials_def dest: cl_full_dials cl_write_keeps cl_fail_keeps)

lemma keeps_dials_handshake: "keeps_dials (socksHandshake user pass)"
  unfolding socksHandshake_def socksAuth_def Let_def
  by (intro keeps_dials_ebind) (auto intro!: keeps_dials_ebind)

definition credentials :: "string \<Rightarrow> string \<Rightarrow> bytes" where
  \<comment> \<open>RFC 1929\<close>
  "credentials user pass =
     [1, word_of_nat (length user)] @ str_bytes user @ [word_of_nat (length pass)] @ str_bytes pass"

lemma byte_length: "length xs = unat (b :: byte) \<Longrightarrow> b = word_of_nat (length xs)"
  by simp

lemma two_bytes: "length xs = 2 \<Longrightarrow> xs = [xs ! 0, xs ! 1]"
  by (cases xs; cases "tl xs") auto

lemma socksAuth_Inr:
  assumes "socksAuth user pass c = (Inr (), c')"
  shows "\<exists>rest. src_data (cl_in c) = credentials user pass @ rest \<and> src_data (cl_in c') = rest
    \<and> length user < 256 \<and> length pass < 256"
proof -
  from assms obtain h c1 u c2 l c3 p c4 where
    h: "cl_full 2 c = (Inr h, c1)" "h ! 0 = 1" and u: "cl_full (unat (h ! 1)) c1 = (Inr u, c2)"
    and l: "cl_full 1 c2 = (Inr l, c3)" and p: "cl_full (unat (l ! 0)) c3 = (Inr p, c4)"
    and eq: "bytes_str u = user" "bytes_str p = pass" and w: "cl_write [1, 0] c4 = (Inr (), c')"
    by (auto simp: socksAuth_def ebind_eq_Inr split: if_splits dest: cl_fail_keeps)
  from cl_full_Inr [OF h(1)] cl_full_Inr [OF u] cl_full_Inr [OF l] cl_full_Inr [OF p] cl_write_keeps [OF w]
  have d: "src_data (cl_in c) = h @ u @ l @ p @ src_data (cl_in c')"
    and n: "length h = 2" "length u = unat (h ! 1)" "length l = 1" "length p = unat (l ! 0)" by auto
  have "h = [1, word_of_nat (length user)]" using two_bytes [OF n(1)] h(2) n(2) eq(1) by auto
  moreover have "l = [word_of_nat (length pass)]" using n(3,4) eq(2) by (cases l) auto
  moreover have "u = str_bytes user" "p = str_bytes pass" using eq by auto
  moreover have "length user < 256" "length pass < 256"
    using n(2,4) eq unat_byte_less [of "h ! 1"] unat_byte_less [of "l ! 0"] by auto
  ultimately show ?thesis using d by (simp add: credentials_def)
qed

lemma socksHandshake_Inr:
  assumes "socksHandshake user pass c = (Inr (), c')"
  shows "\<exists>v methods rest. src_data (cl_in c)
      = [v, word_of_nat (length methods)] @ methods @ (if user \<noteq> [] then credentials user pass else []) @ rest
    \<and> (if user \<noteq> [] then 2 else 0) \<in> set methods \<and> src_data (cl_in c') = rest"
proof -
  from assms obtain h c1 m c2 c3 where
    h: "cl_full 2 c = (Inr h, c1)" and m: "cl_full (unat (h ! 1)) c1 = (Inr m, c2)"
    and w: "cl_write [5, if user \<noteq> [] then 2 else 0] c2 = (Inr (), c3)"
    and i: "(if user \<noteq> [] then 2 else 0) \<in> set m"
    and a: "(if user \<noteq> [] then socksAuth user pass else (\<lambda>c. (Inr (), c))) c3 = (Inr (), c')"
    by (auto simp: socksHandshake_def ebind_eq_Inr Let_def split: if_splits dest: cl_fail_keeps)
  from cl_full_Inr [OF h] cl_full_Inr [OF m] cl_write_keeps [OF w]
  have d: "src_data (cl_in c) = h @ m @ src_data (cl_in c3)" and n: "length h = 2" "length m = unat (h ! 1)" by auto
  obtain v where h2: "h = [v, word_of_nat (length m)]" using two_bytes [OF n(1)] n(2) by (metis byte_length)
  show ?thesis
  proof (cases "user = []")
    case True
    with d h2 i a show ?thesis
      by - (rule exI [of _ v], rule exI [of _ m], auto)
  next
    case False
    with a socksAuth_Inr [of user pass c3 c'] obtain rest where
      "src_data (cl_in c3) = credentials user pass @ rest" "src_data (cl_in c') = rest" by auto
    with d h2 i False show ?thesis
      by - (rule exI [of _ v], rule exI [of _ m], auto)
  qed
qed

lemma socks_auth_fact:
  assumes "serveSOCKS E user pass c = (r, c')" and "user \<noteq> []"
    and "(\<exists>s. r = Inr s) \<or> cl_dials c' \<noteq> cl_dials c"
  shows "\<exists>v methods rest. src_data (cl_in c)
      = [v, word_of_nat (length methods)] @ methods @ credentials user pass @ rest
    \<and> 2 \<in> set methods \<and> length user < 256 \<and> length pass < 256"
proof (cases "socksHandshake user pass c")
  case (Pair a c1)
  show ?thesis
  proof (cases a)
    case (Inl e)
    with Pair assms(1) have "r = Inl e" "c' = c1" by (auto simp: serveSOCKS_def ebind_def)
    moreover have "cl_dials c1 = cl_dials c"
      using keeps_dials_handshake [of user pass] Pair unfolding keeps_dials_def by blast
    ultimately show ?thesis using assms(3) by simp
  next
    case (Inr u)
    with Pair have hs: "socksHandshake user pass c = (Inr (), c1)" by simp
    then obtain v methods rest where "src_data (cl_in c)
        = [v, word_of_nat (length methods)] @ methods @ credentials user pass @ rest" "2 \<in> set methods"
      using socksHandshake_Inr [OF hs] assms(2) by auto
    moreover from hs assms(2) have "length user < 256 \<and> length pass < 256"
      by (auto simp: socksHandshake_def ebind_eq_Inr Let_def split: if_splits
          dest: cl_fail_keeps socksAuth_Inr)
    ultimately show ?thesis by blast
  qed
qed

text \<open>
  C7. Nothing is dialled without the password. With a user configured, a SOCKS client that gets
  any service - the handler is called, or a relay or an association starts - has sent a method
  list containing user/password, followed by exactly the configured user name and password; in
  particular a name or password longer than 255 bytes can never be presented.
\<close>
theorem socks_auth_sound:
  assumes "serveSOCKS E user pass c = (r, c')" and "user \<noteq> []"
    and "(\<exists>s. r = Inr s) \<or> cl_dials c' \<noteq> cl_dials c"
  shows "\<exists>v methods rest. src_data (cl_in c)
      = [v, word_of_nat (length methods)] @ methods @ credentials user pass @ rest
    \<and> 2 \<in> set methods \<and> length user < 256 \<and> length pass < 256"
  using assms by (rule socks_auth_fact)

theorem socks_auth_sound_witness:
  "\<exists>r c'. serveSOCKS \<lparr>ie_setDeadline = None, ie_clearDeadline = None, ie_handler = (\<lambda>h p. Inr 1)\<rparr> ''u'' ''p''
       \<lparr>cl_in = \<lparr>src_data = [5, 1, 2, 1, 1, 117, 1, 112, 5, 1, 0, 3, 1, 97, 0, 80], src_end = EOF\<rparr>,
        cl_out = \<lparr>snk_data = [], snk_script = []\<rparr>, cl_dials = []\<rparr> = (r, c')
     \<and> r = Inr (Relay 1) \<and> cl_dials c' = [(''a'', 80)]
     \<and> (\<exists>v methods rest. [5, 1, 2, 1, 1, 117, 1, 112, 5, 1, 0, 3, 1, 97, 0, 80]
          = [v, word_of_nat (length methods)] @ methods @ credentials ''u'' ''p'' @ rest)"
proof -
  let ?E = "\<lparr>ie_setDeadline = None, ie_clearDeadline = None, ie_handler = (\<lambda>h p. Inr 1)\<rparr>"
  let ?d = "[5, 1, 2, 1, 1, 117, 1, 112, 5, 1, 0, 3, 1, 97, 0, 80] :: bytes"
  let ?c = "\<lparr>cl_in = \<lparr>src_data = ?d, src_end = EOF\<rparr>, cl_out = \<lparr>snk_data = [], snk_script = []\<rparr>, cl_dials = []\<rparr>"
  have "be16 80 = [0, 80]"
    by (simp add: be16_def drop_bit_eq_div word_unat_eq_iff unsigned_ucast_eq unat_div)
  then have "de16 0 80 = 80" using de16_be16_nth [of 80] by simp
  then obtain c' where r: "serveSOCKS ?E ''u'' ''p'' ?c = (Inr (Relay 1), c')" "cl_dials c' = [(''a'', 80)]"
    by (simp add: serveSOCKS_def socksHandshake_def socksAuth_def socksRequest_def readSOCKSAddr_def
        cl_full_def readFull_def cl_write_def conn_write_def cl_clear_def cl_dial_def ebind_def Let_def
        bytes_str_def char_at_def char_of_def bit_0)
  have "\<exists>v methods rest. src_data (cl_in ?c)
      = [v, word_of_nat (length methods)] @ methods @ credentials ''u'' ''p'' @ rest
      \<and> 2 \<in> set methods \<and> length ''u'' < 256 \<and> length ''p'' < 256"
    by (rule socks_auth_sound [OF r(1)]) simp_all
  then have "\<exists>v methods rest. ?d = [v, word_of_nat (length methods)] @ methods @ credentials ''u'' ''p'' @ rest"
    unfolding client.simps source.simps by blast
  with r show ?thesis by blast
qed

section \<open>Exact transcripts\<close>

datatype target = T4 bytes | T6 bytes | TDomain string

fun target_ok :: "target \<Rightarrow> bool" where
  "target_ok (T4 ip) = (length ip = 4)"
| "target_ok (T6 ip) = (length ip = 16)"
| "target_ok (TDomain s) = (length s < 256)"

fun target_atyp :: "target \<Rightarrow> byte" where
  "target_atyp (T4 ip) = 1"
| "target_atyp (T6 ip) = 4"
| "target_atyp (TDomain s) = 3"

fun target_body :: "target \<Rightarrow> bytes" where
  "target_body (T4 ip) = ip"
| "target_body (T6 ip) = ip"
| "target_body (TDomain s) = word_of_nat (length s) # str_bytes s"

fun target_host :: "target \<Rightarrow> string" where
  "target_host (T4 ip) = IPString ip"
| "target_host (T6 ip) = IPString ip"
| "target_host (TDomain s) = s"

definition cl_at :: "bytes \<Rightarrow> bytes \<Rightarrow> (string \<times> u16) list \<Rightarrow> client" where
  \<comment> \<open>a client that will send \<open>data\<close>, has received \<open>sent\<close> and never fails to receive\<close>
  "cl_at data sent dials =
     \<lparr>cl_in = \<lparr>src_data = data, src_end = EOF\<rparr>, cl_out = \<lparr>snk_data = sent, snk_script = []\<rparr>, cl_dials = dials\<rparr>"

lemma cl_full_at [simp]: "length a = n \<Longrightarrow> cl_full n (cl_at (a @ b) sent ds) = (Inr a, cl_at b sent ds)"
  by (simp add: cl_full_def cl_at_def)

lemma cl_write_at [simp]: "cl_write b (cl_at d sent ds) = (Inr (), cl_at d (sent @ b) ds)"
  by (simp add: cl_write_def cl_at_def conn_write_def)

lemma cl_fail_at [simp]: "cl_fail b e (cl_at d sent ds) = (Inl e, cl_at d (sent @ b) ds)"
  by (simp add: cl_fail_def)

lemma cl_dial_at:
  "cl_dial E h p b (cl_at d s ds) =
     (case ie_handler E h p of
        Inl e \<Rightarrow> (Inl (HandlerErr e), cl_at d (s @ b) ((h, p) # ds))
      | Inr up \<Rightarrow> (Inr up, cl_at d s ((h, p) # ds)))"
proof -
  have "(cl_at d s ds)\<lparr>cl_dials := (h, p) # ds\<rparr> = cl_at d s ((h, p) # ds)" "cl_dials (cl_at d s ds) = ds"
    by (simp_all add: cl_at_def)
  then show ?thesis by (simp add: cl_dial_def Let_def split: sum.split)
qed

lemma ebind_full_at:
  "length a = n \<Longrightarrow> ebind (cl_full n) f (cl_at (a @ b) sent ds) = f a (cl_at b sent ds)"
  by (simp add: ebind_Inr)

lemma ebind_full_Cons:
  "ebind (cl_full (Suc 0)) f (cl_at (x # b) sent ds) = f [x] (cl_at b sent ds)"
  using ebind_full_at [of "[x]" 1 f b] by simp

lemma ebind_full_at2:
  "ebind (cl_full 2) f (cl_at (x # y # b) sent ds) = f [x, y] (cl_at b sent ds)"
  using ebind_full_at [of "[x, y]" 2 f b] by simp

lemma ebind_full_at4:
  "ebind (cl_full 4) f (cl_at (w # x # y # z # b) sent ds) = f [w, x, y, z] (cl_at b sent ds)"
  using ebind_full_at [of "[w, x, y, z]" 4 f b] by simp

lemmas cl_run = ebind_full_at ebind_full_Cons ebind_full_at2 ebind_full_at4

lemma ebind_write_at: "ebind (cl_write b) f (cl_at d sent ds) = f () (cl_at d (sent @ b) ds)"
  by (simp add: ebind_Inr)

lemma ebind_return [simp]: "ebind (\<lambda>c. (Inr a, c)) f c = f a c"
  by (simp add: ebind_def)

lemma ebind_assoc: "ebind (ebind m f) g c = ebind m (\<lambda>a. ebind (f a) g) c"
  by (simp add: ebind_def split: prod.split sum.split)

lemma readSOCKSAddr_at:
  assumes "target_ok t"
  shows "ebind (readSOCKSAddr (target_atyp t)) f (cl_at (target_body t @ be16 port @ rest) sent ds)
    = f (target_host t, port) (cl_at rest sent ds)"
proof -
  have p: "ebind (cl_full 2) g (cl_at (be16 port @ rest) sent ds) = g (be16 port) (cl_at rest sent ds)"
    for g :: "bytes \<Rightarrow> client \<Rightarrow> (in_err + 'x) \<times> client"
    by (simp add: ebind_Inr)
  show ?thesis
    using assms
    by (cases t) (simp_all add: readSOCKSAddr_def ebind_assoc ebind_full_at ebind_full_Cons p unat_of_nat)
qed

lemma socksAuth_at:
  assumes "length u < 256" and "length p < 256"
  shows "socksAuth user pass (cl_at (credentials u p @ rest) sent ds) =
    (if u \<noteq> user \<or> p \<noteq> pass then (Inl AuthFailed, cl_at rest (sent @ [1, 1]) ds)
     else (Inr (), cl_at rest (sent @ [1, 0]) ds))"
proof -
  have "unat (word_of_nat (length u) :: byte) = length u" "unat (word_of_nat (length p) :: byte) = length p"
    using assms by (simp_all add: unat_of_nat)
  then have "socksAuth user pass (cl_at (credentials u p @ rest) sent ds) =
      (if bytes_str (str_bytes u) \<noteq> user \<or> bytes_str (str_bytes p) \<noteq> pass
       then cl_fail [1, 1] AuthFailed (cl_at rest sent ds) else cl_write [1, 0] (cl_at rest sent ds))"
    by (simp only: socksAuth_def credentials_def append.simps append_assoc cl_run nth_Cons_0 nth_Cons_Suc
        length_str_bytes simp_thms if_False One_nat_def if_distribR)
  then show ?thesis by simp
qed

lemma socks_connect_fact:
  fixes methods rest :: bytes and u p user :: string and t :: target and port :: u16
  defines "data \<equiv> [5, word_of_nat (length methods)] @ methods @ (if user \<noteq> [] then credentials u p else [])
      @ [5, 1, 0, target_atyp t] @ target_body t @ be16 port @ rest"
  assumes "length methods < 256" and "(if user \<noteq> [] then 2 else 0) \<in> set methods"
    and "length u < 256" and "length p < 256" and "target_ok t" and "ie_clearDeadline E = None"
  shows "serveSOCKS E user pass (cl_at data sent ds) =
    (if user \<noteq> [] \<and> (u \<noteq> user \<or> p \<noteq> pass)
     then (Inl AuthFailed, cl_at ([5, 1, 0, target_atyp t] @ target_body t @ be16 port @ rest)
             (sent @ [5, 2] @ [1, 1]) ds)
     else
       let sent' = sent @ (if user \<noteq> [] then [5, 2] @ [1, 0] else [5, 0]);
           ds' = (target_host t, port) # ds in
       case ie_handler E (target_host t) port of
         Inl e \<Rightarrow> (Inl (HandlerErr e), cl_at rest (sent' @ socksReply 1) ds')
       | Inr up \<Rightarrow> (Inr (Relay up), cl_at rest (sent' @ socksReply 0) ds'))"
proof -
  let ?req = "5 # 1 # 0 # target_atyp t # target_body t @ be16 port @ rest"
  have n: "unat (word_of_nat (length methods) :: byte) = length methods" using assms(2) by (simp add: unat_of_nat)
  have hs: "socksHandshake user pass (cl_at data sent ds) =
      (if user \<noteq> [] \<and> (u \<noteq> user \<or> p \<noteq> pass) then (Inl AuthFailed, cl_at ?req (sent @ [5, 2] @ [1, 1]) ds)
       else (Inr (), cl_at ?req (sent @ (if user \<noteq> [] then [5, 2] @ [1, 0] else [5, 0])) ds))"
  proof -
    have "socksHandshake user pass (cl_at data sent ds) =
        (if user \<noteq> [] then socksAuth user pass (cl_at (credentials u p @ ?req) (sent @ [5, 2]) ds)
         else (Inr (), cl_at ?req (sent @ [5, 0]) ds))"
      using assms(3) by (simp add: data_def socksHandshake_def cl_run n ebind_write_at Let_def)
    then show ?thesis unfolding socksAuth_at [OF assms(4,5)] by simp
  qed
  have rq: "socksRequest E (cl_at ?req s ds) =
      (case ie_handler E (target_host t) port of
         Inl e \<Rightarrow> (Inl (HandlerErr e), cl_at rest (s @ socksReply 1) ((target_host t, port) # ds))
       | Inr up \<Rightarrow> (Inr (Relay up), cl_at rest (s @ socksReply 0) ((target_host t, port) # ds)))" for s
    using assms(7)
    by (cases "ie_handler E (target_host t) port")
       (simp_all add: socksRequest_def cl_run readSOCKSAddr_at [OF assms(6)] cl_dial_at ebind_Inr ebind_Inl
        cl_clear_def ebind_write_at)
  show ?thesis
    using hs rq by (simp add: serveSOCKS_def ebind_def Let_def)
qed

text \<open>
  C9. The transcript of a SOCKS CONNECT, byte by byte: a client that offers the wanted method,
  presents some credentials (when a user is configured) and asks for an IPv4, IPv6 or domain
  target. Wrong credentials get the method selection and the refusal 01 01 and dial nothing;
  right ones reach the handler with the decoded host and port, and the client gets the
  succeeded or the general-failure reply; whatever follows the request stays unread for the
  relay.
\<close>
theorem socks_connect_transcript:
  fixes methods rest :: bytes and u p user :: string and t :: target and port :: u16
  defines "data \<equiv> [5, word_of_nat (length methods)] @ methods @ (if user \<noteq> [] then credentials u p else [])
      @ [5, 1, 0, target_atyp t] @ target_body t @ be16 port @ rest"
  assumes "length methods < 256" and "(if user \<noteq> [] then 2 else 0) \<in> set methods"
    and "length u < 256" and "length p < 256" and "target_ok t" and "ie_clearDeadline E = None"
  shows "serveSOCKS E user pass (cl_at data sent ds) =
    (if user \<noteq> [] \<and> (u \<noteq> user \<or> p \<noteq> pass)
     then (Inl AuthFailed, cl_at ([5, 1, 0, target_atyp t] @ target_body t @ be16 port @ rest)
             (sent @ [5, 2] @ [1, 1]) ds)
     else
       let sent' = sent @ (if user \<noteq> [] then [5, 2] @ [1, 0] else [5, 0]);
           ds' = (target_host t, port) # ds in
       case ie_handler E (target_host t) port of
         Inl e \<Rightarrow> (Inl (HandlerErr e), cl_at rest (sent' @ socksReply 1) ds')
       | Inr up \<Rightarrow> (Inr (Relay up), cl_at rest (sent' @ socksReply 0) ds'))"
  unfolding data_def by (rule socks_connect_fact [OF assms(2-)])

theorem socks_connect_transcript_witness:
  "serveSOCKS \<lparr>ie_setDeadline = None, ie_clearDeadline = None, ie_handler = (\<lambda>h p. Inl 4)\<rparr> ''u'' ''p''
     (cl_at ([5, word_of_nat (length [0, 2 :: byte])] @ [0, 2] @ credentials ''u'' ''p''
        @ [5, 1, 0, 3] @ [1, 97] @ be16 80 @ [9]) [] [])
   = (Inl (HandlerErr 4), cl_at [9] ([5, 2, 1, 0] @ socksReply 1) [(''a'', 80)])"
proof -
  have "str_bytes ''a'' = [97]" by (simp add: str_bytes_def byte_of_def)
  then show ?thesis
    using socks_connect_transcript [where methods = "[0, 2]" and user = "''u''" and pass = "''p''" and u = "''u''"
        and p = "''p''" and t = "TDomain ''a''" and port = 80 and rest = "[9]" and sent = "[]" and ds = "[]"
        and E = "\<lparr>ie_setDeadline = None, ie_clearDeadline = None, ie_handler = (\<lambda>h p. Inl 4)\<rparr>"]
    by simp
qed

section \<open>Basic credentials\<close>

definition b64_char :: "nat \<Rightarrow> char" where
  "b64_char v = char_of (if v < 26 then v + 65 else if v < 52 then v + 71 else if v < 62 then v - 4
     else if v = 62 then 43 else 47)"

fun b64_encode :: "bytes \<Rightarrow> string" where
  \<comment> \<open>the reference encoder\<close>
  "b64_encode [] = []"
| "b64_encode [a] = [b64_char (unat a div 4), b64_char (unat a mod 4 * 16), CHR ''='', CHR ''='']"
| "b64_encode [a, b] = [b64_char (unat a div 4), b64_char (unat a mod 4 * 16 + unat b div 16),
     b64_char (unat b mod 16 * 4), CHR ''='']"
| "b64_encode (a # b # c # r) = [b64_char (unat a div 4), b64_char (unat a mod 4 * 16 + unat b div 16),
     b64_char (unat b mod 16 * 4 + unat c div 64), b64_char (unat c mod 64)] @ b64_encode r"

lemma of_char_b64: "v < 64 \<Longrightarrow> (of_char (b64_char v) :: nat) =
    (if v < 26 then v + 65 else if v < 52 then v + 71 else if v < 62 then v - 4 else if v = 62 then 43 else 47)"
  by (simp add: b64_char_def)

lemma b64_val_char [simp]: "v < 64 \<Longrightarrow> b64_val (b64_char v) = Some v"
  by (auto simp: b64_val_def of_char_b64 Let_def)

lemma b64_val_eq [simp]: "b64_val CHR ''='' = None"
  by (simp add: b64_val_def)

lemma word_of_nat_eqI: "n mod 256 = unat b \<Longrightarrow> word_of_nat n = (b :: byte)"
  by (simp add: word_unat_eq_iff unat_of_nat)

lemma b64_byte1: "word_of_nat (4 * (unat a div 4) + (unat a mod 4 * 16 + unat b div 16) div 16) = (a :: byte)"
  if "unat (b :: byte) < 256"
proof (rule word_of_nat_eqI)
  have "(unat a mod 4 * 16 + unat b div 16) div 16 = unat a mod 4" using that by simp
  then show "(4 * (unat a div 4) + (unat a mod 4 * 16 + unat b div 16) div 16) mod 256 = unat a"
    using unat_byte_less [of a] by simp
qed

lemma b64_byte2: "word_of_nat (16 * (unat a mod 4 * 16 + unat b div 16) + (unat b mod 16 * 4 + k) div 4) = (b :: byte)"
  if "k < 4" for a :: byte
proof (rule word_of_nat_eqI)
  have "(unat b mod 16 * 4 + k) div 4 = unat b mod 16" using that by simp
  then have "16 * (unat a mod 4 * 16 + unat b div 16) + (unat b mod 16 * 4 + k) div 4 = 256 * (unat a mod 4) + unat b"
    by simp
  then show "(16 * (unat a mod 4 * 16 + unat b div 16) + (unat b mod 16 * 4 + k) div 4) mod 256 = unat b"
    using unat_byte_less [of b] by simp
qed

lemma b64_byte3: "word_of_nat (64 * (unat b mod 16 * 4 + unat c div 64) + unat c mod 64) = (c :: byte)" for b :: byte
proof (rule word_of_nat_eqI)
  have "64 * (unat b mod 16 * 4 + unat c div 64) + unat c mod 64 = 256 * (unat b mod 16) + unat c" by simp
  then show "(64 * (unat b mod 16 * 4 + unat c div 64) + unat c mod 64) mod 256 = unat c"
    using unat_byte_less [of c] by simp
qed

lemma b64_ranges:
  "unat (a :: byte) div 4 < 64" "unat a mod 4 * 16 + unat (b :: byte) div 16 < 64" "unat a mod 4 * 16 < 64"
  "unat b mod 16 * 4 + unat (c :: byte) div 64 < 64" "unat b mod 16 * 4 < 64" "unat c mod 64 < 64"
proof -
  have "unat a < 256" "unat b < 256" "unat c < 256" by (rule unat_byte_less)+
  then show "unat a div 4 < 64" "unat a mod 4 * 16 + unat b div 16 < 64" "unat a mod 4 * 16 < 64"
    "unat b mod 16 * 4 + unat c div 64 < 64" "unat b mod 16 * 4 < 64" "unat c mod 64 < 64"
    by linarith+
qed

lemma b64_quanta_encode: "b64_quanta (b64_encode bs) = Some bs"
proof (induction bs rule: b64_encode.induct)
  case (2 a)
  then show ?case using b64_byte1 [of 0 a] by (simp add: b64_ranges)
next
  case (3 a b)
  then show ?case
    using b64_byte1 [of b a] b64_byte2 [of 0 a b] unat_byte_less [of b] by (simp add: b64_ranges)
next
  case (4 a b c r)
  note w = b64_byte1 [of b a, OF unat_byte_less] b64_byte2 [of "unat c div 64" a b] b64_byte3 [of b c]
    unat_byte_less [of c]
  show ?case
  proof (cases "b64_encode r")
    case Nil
    with 4 w show ?thesis by (simp add: b64_ranges)
  next
    case (Cons x xs)
    with 4 w show ?thesis by (simp add: b64_ranges)
  qed
qed simp

lemma b64_encode_chars:
  "c \<in> set (b64_encode bs) \<Longrightarrow> visible c"
proof (induction bs rule: b64_encode.induct)
  case (4 a b c' r)
  then show ?case by (auto simp: visible_def of_char_b64 b64_ranges)
qed (auto simp: visible_def of_char_b64 b64_ranges)

lemma b64_decode_encode: "b64_decode (b64_encode bs) = Some (bytes_str bs)"
proof -
  have "filter (\<lambda>c. c \<noteq> CHR 0x0A \<and> c \<noteq> CHR 0x0D) (b64_encode bs) = b64_encode bs"
    by (rule filter_True) (auto dest!: b64_encode_chars simp: visible_def)
  then show ?thesis by (simp add: b64_decode_def b64_quanta_encode)
qed

lemma b64_encode_Nil: "b64_encode bs = [] \<longleftrightarrow> bs = []"
  by (cases bs rule: b64_encode.cases) auto

lemma parseBasic_encode:
  assumes "CHR '':'' \<notin> set user"
  shows "parseBasic (''Basic '' @ b64_encode (str_bytes (user @ '':'' @ pass))) = (user, pass, True)"
proof -
  let ?e = "b64_encode (str_bytes (user @ '':'' @ pass))"
  have ne: "?e \<noteq> []" unfolding b64_encode_Nil by (simp add: str_bytes_def)
  have v: "visible (last ?e)" "visible (hd ?e)" by (rule b64_encode_chars [OF last_in_set [OF ne]], rule b64_encode_chars [OF hd_in_set [OF ne]])
  have "TrimSpace (''Basic '' @ ?e) = ''Basic '' @ ?e"
    by (rule TrimSpace_visible) (use v ne in \<open>simp_all add: visible_def [of "CHR ''B''"]\<close>)
  moreover have "Cut (''Basic '' @ ?e) '' '' = (''Basic'', ?e, True)"
    by (simp add: Cut_char)
  moreover have "fold_is ''Basic'' ''basic''" by (simp add: lower_char_def char_of_def bit_0)
  moreover have "TrimSpace ?e = ?e" using v by simp
  moreover have "Cut (user @ '':'' @ pass) '':'' = (user, pass, True)" using assms by (simp add: Cut_char)
  ultimately show ?thesis by (simp add: parseBasic_def parseBasicB64_def b64_decode_encode)
qed

lemma parseBasic_sound:
  assumes "parseBasic h = (user, pass, True)"
  shows "\<exists>scheme enc. TrimSpace h = scheme @ '' '' @ enc \<and> fold_is scheme ''basic''
    \<and> b64_decode (TrimSpace enc) = Some (user @ '':'' @ pass) \<and> CHR '':'' \<notin> set user"
proof -
  obtain scheme enc ok where c: "Cut (TrimSpace h) '' '' = (scheme, enc, ok)" by (metis prod_cases3)
  with assms have ok: "ok" "fold_is scheme ''basic''" "parseBasicB64 (TrimSpace enc) = (user, pass, True)"
    by (auto simp: parseBasic_def split: if_splits)
  from ok(3) obtain raw where "b64_decode (TrimSpace enc) = Some raw" "Cut raw '':'' = (user, pass, True)"
    by (auto simp: parseBasicB64_def split: option.splits)
  moreover have "TrimSpace h = scheme @ '' '' @ enc" using c ok(1) by (simp add: Cut_char)
  ultimately show ?thesis using ok(2) by (auto simp: Cut_char)
qed

lemma http_auth_fact:
  assumes "serveHTTP E user pass req c = (r, c')" and "user \<noteq> []"
    and "(\<exists>s. r = Inr s) \<or> cl_dials c' \<noteq> cl_dials c"
  shows "hr_method req = ''CONNECT'' \<and> parseBasic (hr_proxyAuth req) = (user, pass, True)"
  using assms by (auto simp: serveHTTP_def split: if_splits dest: cl_fail_keeps)

lemma serve_auth_fact:
  assumes "serve E user pass readRequest c = (r, c')" and "user \<noteq> []" and "keeps_dials readRequest"
    and "(\<exists>s. r = Inr s) \<or> cl_dials c' \<noteq> cl_dials c"
  shows "(\<exists>v methods rest. src_data (cl_in c)
        = [v, word_of_nat (length methods)] @ methods @ credentials user pass @ rest \<and> 2 \<in> set methods)
    \<or> (\<exists>req c1. readRequest c = (Inr req, c1) \<and> hr_method req = ''CONNECT''
         \<and> parseBasic (hr_proxyAuth req) = (user, pass, True))"
proof (cases "ie_setDeadline E")
  case (Some e)
  with assms(1,4) show ?thesis by (auto simp: serve_def)
next
  case None
  show ?thesis
  proof (cases "src_data (cl_in c)")
    case Nil
    with None assms(1,4) show ?thesis by (auto simp: serve_def)
  next
    case (Cons b bs)
    show ?thesis
    proof (cases "b = 5")
      case True
      with None Cons assms(1) have "serveSOCKS E user pass c = (r, c')" by (simp add: serve_def)
      from socks_auth_fact [OF this assms(2,4)] show ?thesis by blast
    next
      case False
      with None Cons assms(1) have s: "ebind readRequest (serveHTTP E user pass) c = (r, c')" by (simp add: serve_def)
      obtain q c1 where q: "readRequest c = (q, c1)" by (cases "readRequest c")
      have k: "cl_dials c1 = cl_dials c" using assms(3) q unfolding keeps_dials_def by blast
      show ?thesis
      proof (cases q)
        case (Inl e)
        with s q k assms(4) show ?thesis by (auto simp: ebind_def)
      next
        case (Inr req)
        with s q have "serveHTTP E user pass req c1 = (r, c')" by (simp add: ebind_def)
        from http_auth_fact [OF this assms(2)] assms(4) k q Inr show ?thesis by auto
      qed
    qed
  qed
qed

lemma splitHostPort_asked:
  assumes "hp = JoinHostPort host (Itoa (uint port)) \<and> host_ok host \<and> port \<noteq> 0
    \<or> hp = host \<and> host \<noteq> [] \<and> CHR '':'' \<notin> set host \<and> port = 443"
  shows "splitHostPort hp 443 = Inr (host, port)"
  using assms
proof
  assume a: "hp = JoinHostPort host (Itoa (uint port)) \<and> host_ok host \<and> port \<noteq> 0"
  then have "SplitHostPort hp = Some (host, Itoa (uint port))"
    by (simp add: SplitHostPort_Join Itoa_def)
  moreover have b: "0 < uint port" "uint port < 65536"
    using a uint_bounded [of port] by (simp_all add: order_less_le uint_0_iff)
  then have "Atoi (Itoa (uint port)) = Some (uint port)" by (intro Atoi_Itoa) simp_all
  moreover have "hp \<noteq> []" using a by (simp add: JoinHostPort_def)
  ultimately show ?thesis using b by (simp add: splitHostPort_def)
next
  assume "hp = host \<and> host \<noteq> [] \<and> CHR '':'' \<notin> set host \<and> port = 443"
  then show ?thesis by (simp add: splitHostPort_def SplitHostPort_def lastByteIndex_def byteIndex_def)
qed

definition presents :: "http_request \<Rightarrow> string \<Rightarrow> string \<Rightarrow> bool" where
  \<comment> \<open>RFC 7617: the request carries the Basic scheme and the base64 text of these credentials\<close>
  "presents req user pass \<longleftrightarrow> CHR '':'' \<notin> set user
     \<and> (\<exists>scheme enc. TrimSpace (hr_proxyAuth req) = scheme @ '' '' @ enc \<and> fold_is scheme ''basic''
          \<and> b64_decode (TrimSpace enc) = Some (user @ '':'' @ pass))"

text \<open>
  C8. The HTTP side asks for the same credentials. With a user configured: a request is served
  or dials only if it is a CONNECT whose \<open>Proxy-Authorization\<close> is the Basic scheme over the
  base64 text of user, colon and password - so a user name with a colon can never be presented -;
  a request without them is answered 407, and nothing is dialled; and every user name without a
  colon can be presented: with the header a client encodes, a CONNECT to a host, with a port or
  with the default 443, is dialled with exactly this host and port and answered 200, or 502 when
  the handler fails.
\<close>
theorem http_auth_exact:
  assumes "user \<noteq> []"
  shows "(serveHTTP E user pass req c = (r, c') \<and> ((\<exists>s. r = Inr s) \<or> cl_dials c' \<noteq> cl_dials c) \<longrightarrow>
            hr_method req = ''CONNECT'' \<and> presents req user pass)
       \<and> (\<not> presents req user pass \<longrightarrow>
            serveHTTP E user pass req (cl_at data sent ds)
              = (Inl HttpAuthFailed, cl_at data (sent @ str_bytes http407) ds))
       \<and> (CHR '':'' \<notin> set user \<and> hr_method req = ''CONNECT''
          \<and> hr_proxyAuth req = ''Basic '' @ b64_encode (str_bytes (user @ '':'' @ pass))
          \<and> (hr_host req = JoinHostPort host (Itoa (uint port)) \<and> host_ok host \<and> port \<noteq> 0
             \<or> hr_host req = host \<and> host \<noteq> [] \<and> CHR '':'' \<notin> set host \<and> port = 443)
          \<and> ie_clearDeadline E = None \<longrightarrow>
            serveHTTP E user pass req (cl_at data sent ds) =
              (case ie_handler E host port of
                 Inl e \<Rightarrow> (Inl (HandlerErr e), cl_at data (sent @ str_bytes http502) ((host, port) # ds))
               | Inr up \<Rightarrow> (Inr (Relay up), cl_at data (sent @ str_bytes http200) ((host, port) # ds))))"
proof (intro conjI impI)
  have ok: "presents req user pass" if "parseBasic (hr_proxyAuth req) = (user, pass, True)"
    using parseBasic_sound [OF that] unfolding presents_def by blast
  {
    assume a: "serveHTTP E user pass req c = (r, c') \<and> ((\<exists>s. r = Inr s) \<or> cl_dials c' \<noteq> cl_dials c)"
    with http_auth_fact [of E user pass req c r c'] assms(1) ok
    show "hr_method req = ''CONNECT''" "presents req user pass" by blast+
  next
    assume "\<not> presents req user pass"
    with ok assms(1) show "serveHTTP E user pass req (cl_at data sent ds)
        = (Inl HttpAuthFailed, cl_at data (sent @ str_bytes http407) ds)"
      by (auto simp: serveHTTP_def)
  next
    assume a: "CHR '':'' \<notin> set user \<and> hr_method req = ''CONNECT''
          \<and> hr_proxyAuth req = ''Basic '' @ b64_encode (str_bytes (user @ '':'' @ pass))
          \<and> (hr_host req = JoinHostPort host (Itoa (uint port)) \<and> host_ok host \<and> port \<noteq> 0
             \<or> hr_host req = host \<and> host \<noteq> [] \<and> CHR '':'' \<notin> set host \<and> port = 443)
          \<and> ie_clearDeadline E = None"
    then have "splitHostPort (hr_host req) 443 = Inr (host, port)" by (intro splitHostPort_asked) blast
    moreover have "parseBasic (hr_proxyAuth req) = (user, pass, True)" using parseBasic_encode a by metis
    ultimately show "serveHTTP E user pass req (cl_at data sent ds) =
              (case ie_handler E host port of
                 Inl e \<Rightarrow> (Inl (HandlerErr e), cl_at data (sent @ str_bytes http502) ((host, port) # ds))
               | Inr up \<Rightarrow> (Inr (Relay up), cl_at data (sent @ str_bytes http200) ((host, port) # ds)))"
      using a by (cases "ie_handler E host port")
        (simp_all add: serveHTTP_def cl_dial_at ebind_Inr ebind_Inl cl_clear_def ebind_write_at)
  }
qed

theorem http_auth_exact_witness:
  "serveHTTP \<lparr>ie_setDeadline = None, ie_clearDeadline = None, ie_handler = (\<lambda>h p. Inr 1)\<rparr> ''u'' ''p''
     \<lparr>hr_method = ''CONNECT'', hr_host = ''h'',
      hr_proxyAuth = ''Basic '' @ b64_encode (str_bytes (''u'' @ '':'' @ ''p''))\<rparr> (cl_at [9] [] [])
   = (Inr (Relay 1), cl_at [9] (str_bytes http200) [(''h'', 443)])
   \<and> serveHTTP \<lparr>ie_setDeadline = None, ie_clearDeadline = None, ie_handler = (\<lambda>h p. Inr 1)\<rparr> ''u:'' ''p''
     \<lparr>hr_method = ''CONNECT'', hr_host = ''h'', hr_proxyAuth = []\<rparr> (cl_at [9] [] [])
   = (Inl HttpAuthFailed, cl_at [9] (str_bytes http407) [])"
proof -
  let ?E = "\<lparr>ie_setDeadline = None, ie_clearDeadline = None, ie_handler = (\<lambda>h p. Inr 1)\<rparr>"
  let ?good = "\<lparr>hr_method = ''CONNECT'', hr_host = ''h'',
      hr_proxyAuth = ''Basic '' @ b64_encode (str_bytes (''u'' @ '':'' @ ''p''))\<rparr>"
    and ?bad = "\<lparr>hr_method = ''CONNECT'', hr_host = ''h'', hr_proxyAuth = []\<rparr>"
  have "serveHTTP ?E ''u'' ''p'' ?good (cl_at [9] [] []) = (Inr (Relay 1), cl_at [9] (str_bytes http200) [(''h'', 443)])"
    using http_auth_exact [of "''u''" ?E "''p''" ?good _ _ _ "[9]" "[]" "[]" "''h''" 443] by simp
  moreover have "\<not> presents ?bad ''u:'' ''p''" by (simp add: presents_def)
  then have "serveHTTP ?E ''u:'' ''p'' ?bad (cl_at [9] [] []) = (Inl HttpAuthFailed, cl_at [9] (str_bytes http407) [])"
    using http_auth_exact [of "''u:''" ?E "''p''" ?bad _ _ _ "[9]" "[]" "[]"] by simp
  ultimately show ?thesis by blast
qed

end
