(* ===== verification/Ip_Text.thy ===== *)
theory Ip_Text
  imports Go_Net
begin

text \<open>
  Printing and parsing of addresses are inverse: \<open>ParseIP\<close> reads back what \<open>IP.String\<close> prints,
  for IPv4 and for every compressed form of IPv6, so printed addresses identify addresses.
\<close>

section \<open>Hexadecimal groups\<close>

lemma hex_val_char [simp]: "d < 16 \<Longrightarrow> hex_val (hex_char d) = Some d"
  by (simp add: hex_val_def hex_char_def Let_def)

lemma isHex_char [simp]: "d < 16 \<Longrightarrow> isHex (hex_char d)"
  by (simp add: isHex_def)

lemma hex_char_inj: "d < 16 \<Longrightarrow> e < 16 \<Longrightarrow> hex_char d = hex_char e \<Longrightarrow> d = e"
  by (metis hex_val_char option.inject)

lemma hex_str_hex: "c \<in> set (hex_str n) \<Longrightarrow> isHex c"
proof (induction n rule: hex_str.induct)
  case (1 n)
  then show ?case by (cases "n < 16") (auto simp: hex_str.simps [of n])
qed

lemma hex_str_not_Nil [simp]: "hex_str n \<noteq> []"
  by (simp add: hex_str.simps [of n])

lemma hexGroup_hex_str [simp]: "hexGroup (hex_str n) = n"
proof (induction n rule: hex_str.induct)
  case (1 n)
  then show ?case by (cases "n < 16") (simp_all add: hex_str.simps [of n] hexGroup_def)
qed

lemma hex_str_length: "n < 16 ^ Suc k \<Longrightarrow> length (hex_str n) \<le> Suc k"
proof (induction k arbitrary: n)
  case 0
  then show ?case by (simp add: hex_str.simps [of n])
next
  case (Suc k)
  have "n div 16 < 16 ^ Suc k" using Suc.prems by (simp add: less_mult_imp_div_less mult.commute)
  from Suc.IH [OF this] show ?case by (simp add: hex_str.simps [of n])
qed

lemma hex_str_length4: "n < 65536 \<Longrightarrow> length (hex_str n) \<le> 4"
  using hex_str_length [of n 3] by simp

lemma isHex_punct [simp]: "\<not> isHex CHR '':''" "\<not> isHex CHR ''.''" "\<not> isHex CHR ''%''" "\<not> isHex CHR ''?''"
  "\<not> isHex CHR ''[''" "\<not> isHex CHR '']''"
  by (simp_all add: isHex_def hex_val_def Let_def)

lemma hex_str_span:
  "takeWhile isHex (hex_str n @ CHR '':'' # r) = hex_str n"
  "dropWhile isHex (hex_str n @ CHR '':'' # r) = CHR '':'' # r"
  "takeWhile isHex (hex_str n) = hex_str n"
  "dropWhile isHex (hex_str n) = []"
  using hex_str_hex [of _ n] by (auto simp: takeWhile_append dropWhile_append)

section \<open>Sixteen-bit groups and their bytes\<close>

definition v6Part :: "nat list \<Rightarrow> string" where
  "v6Part g = joinWith '':'' (map hex_str g)"

definition group_bytes :: "nat list \<Rightarrow> bytes" where
  "group_bytes g = concat (map (\<lambda>x. be16 (word_of_nat x)) g)"

lemma group_bytes_simps [simp]:
  "group_bytes [] = []" "group_bytes (x # g) = be16 (word_of_nat x) @ group_bytes g"
  "group_bytes (g @ h) = group_bytes g @ group_bytes h"
  by (simp_all add: group_bytes_def)

lemma length_group_bytes [simp]: "length (group_bytes g) = 2 * length g"
  by (induction g) simp_all

lemma group_bytes_groups: "even (length ip) \<Longrightarrow> group_bytes (groups ip) = ip"
  by (induction ip rule: groups.induct) (simp_all add: be16_de16)

lemma group_bytes_zeros: "\<forall>x \<in> set g. x = 0 \<Longrightarrow> group_bytes g = replicate (2 * length g) 0"
  by (induction g) (simp_all add: be16_def)

lemma groups_less: "x \<in> set (groups ip) \<Longrightarrow> x < 65536"
  by (induction ip rule: groups.induct) (use unat_u16_less in auto)

lemma groups_len: "length (groups bs) = length bs div 2"
  by (induction bs rule: groups.induct) auto

lemma v6Part_Cons: "v6Part (x # g) = hex_str x @ (if g = [] then [] else CHR '':'' # v6Part g)"
  by (cases g) (simp_all add: v6Part_def)

lemma v6Part_chars: "c \<in> set (v6Part g) \<Longrightarrow> isHex c \<or> c = CHR '':''"
proof (induction g)
  case (Cons x g)
  then show ?case using hex_str_hex [of c x] by (auto simp: v6Part_Cons split: if_splits)
qed (simp add: v6Part_def)

lemma v6Part_hd: "g \<noteq> [] \<Longrightarrow> \<exists>c t. v6Part g = c # t \<and> isHex c"
proof (cases g)
  case (Cons x h)
  obtain c t where "hex_str x = c # t" by (cases "hex_str x") auto
  with Cons hex_str_hex [of c x] show ?thesis by (auto simp: v6Part_Cons)
qed simp

section \<open>Reading groups back\<close>

lemma v6Groups_v6Part:
  assumes "g \<noteq> []" and "\<forall>x \<in> set g. x < 65536" and "length g \<le> n"
  shows "v6Groups n (v6Part g) ip ell = Some (ip @ group_bytes g, ell)"
  using assms
proof (induction g arbitrary: n ip)
  case Nil
  then show ?case by simp
next
  case (Cons x g)
  then obtain m where n: "n = Suc m" by (cases n) auto
  have l: "\<not> 4 < length (hex_str x)" using hex_str_length4 [of x] Cons.prems by auto
  show ?case
  proof (cases "g = []")
    case True
    with l show ?thesis by (simp add: n v6Part_Cons hex_str_span Let_def)
  next
    case False
    with v6Part_hd obtain c t where c: "v6Part g = c # t" "isHex c" by blast
    then have "c \<noteq> CHR '':''" by auto
    with Cons False l c n show ?thesis by (auto simp: v6Part_Cons hex_str_span Let_def)
  qed
qed

lemma v6Groups_ellipsis:
  assumes "g \<noteq> []" and "\<forall>x \<in> set g. x < 65536" and "length g \<le> n"
  shows "v6Groups n (v6Part g @ '':'' @ '':'' @ v6Part h) ip None =
    (if h = [] then Some (ip @ group_bytes g, Some (length ip + 2 * length g))
     else v6Groups (n - length g) (v6Part h) (ip @ group_bytes g) (Some (length ip + 2 * length g)))"
  using assms
proof (induction g arbitrary: n ip)
  case Nil
  then show ?case by simp
next
  case (Cons x g)
  then obtain m where n: "n = Suc m" by (cases n) auto
  have l: "\<not> 4 < length (hex_str x)" using hex_str_length4 [of x] Cons.prems by auto
  show ?case
  proof (cases "g = []")
    case True
    have "v6Part h = [] \<longleftrightarrow> h = []" using v6Part_hd [of h] by (cases "h = []") (auto simp: v6Part_def)
    with l True show ?thesis by (simp add: n v6Part_Cons hex_str_span Let_def)
  next
    case False
    with v6Part_hd obtain c t where c: "v6Part g = c # t" "isHex c" by blast
    then have "c \<noteq> CHR '':''" by auto
    with Cons False l c n show ?thesis by (auto simp: v6Part_Cons hex_str_span Let_def)
  qed
qed

section \<open>The run of zero groups that is left out\<close>

definition zero_run :: "nat list \<Rightarrow> nat \<times> nat \<Rightarrow> bool" where
  "zero_run g = (\<lambda>(s, e). s = 255 \<and> e = 255
     \<or> s < e \<and> e \<le> length g \<and> (\<forall>x \<in> set (take (e - s) (drop s g)). x = 0))"

lemma zeroRun_zeros: "\<forall>x \<in> set (take (zeroRun g) g). x = 0" "zeroRun g \<le> length g"
proof -
  have "take (zeroRun g) g = takeWhile (\<lambda>x. x = 0) g"
    by (simp add: zeroRun_def takeWhile_eq_take [symmetric])
  then show "\<forall>x \<in> set (take (zeroRun g) g). x = 0" by (auto dest: set_takeWhileD)
  show "zeroRun g \<le> length g" by (simp add: zeroRun_def length_takeWhile_le)
qed

lemma longestZeros_run: "zero_run g (longestZeros g)"
proof -
  let ?f = "\<lambda>(s, e) i. let l = zeroRun (drop i g) in
               if 2 \<le> l \<and> e - s < l then (i, i + l) else (s, e)"
  have "zero_run g (foldl ?f p is)" if "zero_run g p" "\<forall>i \<in> set is. i < length g" for p "is"
    using that
  proof (induction "is" arbitrary: p)
    case (Cons i "is")
    obtain s e where p: "p = (s, e)" by (cases p)
    have "zero_run g (?f p i)"
      using Cons.prems zeroRun_zeros [of "drop i g"] by (auto simp: p Let_def zero_run_def)
    with Cons show ?case by simp
  qed simp
  then show ?thesis by (simp add: longestZeros_def zero_run_def)
qed

section \<open>IPv6\<close>

lemma v6String_part:
  "v6String ip = (let g = groups ip; (s, e) = longestZeros g in
     if s = 255 then v6Part g else v6Part (take s g) @ ''::'' @ v6Part (drop e g))"
  by (simp add: v6String_def v6Part_def Let_def split: prod.split)

lemma v6String_cases:
  assumes "length ip = 16"
  obtains (plain) "v6String ip = v6Part (groups ip)"
  | (run) a b k where "v6String ip = v6Part a @ ''::'' @ v6Part b" "0 < k" "groups ip = a @ replicate k 0 @ b"
proof -
  obtain s e where l: "longestZeros (groups ip) = (s, e)" by fastforce
  have g: "length (groups ip) = 8" using assms by (simp add: groups_len)
  from longestZeros_run [of "groups ip"] l g consider "s = 255"
    | "s < e" "e \<le> 8" "\<forall>x \<in> set (take (e - s) (drop s (groups ip))). x = 0"
    by (auto simp: zero_run_def)
  then show thesis
  proof cases
    case 1
    with l plain show thesis by (simp add: v6String_part Let_def)
  next
    case 2
    have "take (e - s) (drop s (groups ip)) = replicate (e - s) 0"
      using 2 g by (intro replicate_eqI) auto
    moreover have "groups ip = take s (groups ip) @ take (e - s) (drop s (groups ip)) @ drop e (groups ip)"
      using 2 by (metis append_take_drop_id drop_drop le_add_diff_inverse2 less_imp_le)
    ultimately have "groups ip = take s (groups ip) @ replicate (e - s) 0 @ drop e (groups ip)" by simp
    with 2 l run [of "take s (groups ip)" "drop e (groups ip)" "e - s"] show thesis
      by (simp add: v6String_part Let_def)
  qed
qed

lemma v6Part_no_lead: "\<not> HasPrefix (v6Part g) ''::''"
  using v6Part_hd [of g] by (cases "g = []") (auto simp: HasPrefix_iff v6Part_def)

lemma v6Part_no_lead': "g \<noteq> [] \<Longrightarrow> \<not> HasPrefix (v6Part g @ r) ''::''"
  using v6Part_hd [of g] by (auto simp: HasPrefix_iff)

lemma parseIPv6_v6String:
  assumes "length ip = 16"
  shows "parseIPv6 (v6String ip) = Some ip"
  using assms
proof (cases rule: v6String_cases)
  case plain
  have len: "length (groups ip) = 8" using assms by (simp add: groups_len)
  then have ne: "groups ip \<noteq> []" by auto
  have "v6Groups 8 (v6Part (groups ip)) [] None = Some (ip, None)"
    using v6Groups_v6Part [OF ne, of 8 "[]" None] groups_less [of _ ip] len assms
    by (simp add: group_bytes_groups)
  with assms v6Part_no_lead [of "groups ip"] show ?thesis by (simp add: plain parseIPv6_def)
next
  case (run a b k)
  have len: "length a + k + length b = 8"
    using arg_cong [OF run(3), of length] assms by (simp add: groups_len)
  have small: "\<forall>x \<in> set a. x < 65536" "\<forall>x \<in> set b. x < 65536"
    using groups_less [of _ ip] run(3) by auto
  have ip: "ip = group_bytes a @ replicate (2 * k) 0 @ group_bytes b"
    using group_bytes_groups [of ip] assms group_bytes_zeros [of "replicate k 0"] by (simp add: run(3))
  let ?r = "Some (group_bytes a @ group_bytes b, Some (2 * length a))"
  have read: "v6Groups 8 (if a = [] then v6Part b else v6Part a @ ''::'' @ v6Part b) [] (if a = [] then Some 0 else None) = ?r"
    if "a \<noteq> [] \<or> b \<noteq> []"
  proof (cases "a = []")
    case True
    with that v6Groups_v6Part [of b 8 "[]" "Some 0"] small len show ?thesis by simp
  next
    case False
    with v6Groups_ellipsis [of a 8 b "[]"] v6Groups_v6Part [of b "8 - length a" "group_bytes a"] small len
    show ?thesis by (cases "b = []") simp_all
  qed
  have fin: "length (group_bytes a @ group_bytes b) < 16" using run(2) len by simp
  have out: "take (2 * length a) (group_bytes a @ group_bytes b)
      @ replicate (16 - length (group_bytes a @ group_bytes b)) 0
      @ drop (2 * length a) (group_bytes a @ group_bytes b) = ip"
  proof -
    have "16 - length (group_bytes a @ group_bytes b) = 2 * k" using len by simp
    then show ?thesis unfolding ip by simp
  qed
  show ?thesis
  proof (cases "a = []")
    case True
    have s: "v6String ip = ''::'' @ v6Part b" using run(1) True by (simp add: v6Part_def)
    have p: "HasPrefix (''::'' @ v6Part b) ''::''" by (rule HasPrefix_append)
    show ?thesis
    proof (cases "b = []")
      case True
      with \<open>a = []\<close> len ip have "ip = replicate 16 0" by simp
      moreover from True s have "v6String ip = ''::''" by (simp add: v6Part_def)
      ultimately show ?thesis by (simp add: parseIPv6_def HasPrefix_def)
    next
      case False
      then have "v6Part b \<noteq> []" using v6Part_hd by fastforce
      with True False read fin out p show ?thesis by (simp add: s parseIPv6_def Let_def)
    qed
  next
    case False
    with read fin out v6Part_no_lead' [OF False, of "''::'' @ v6Part b"] show ?thesis
      by (simp add: run(1) parseIPv6_def Let_def)
  qed
qed

lemma v6String_chars: "length ip = 16 \<Longrightarrow> c \<in> set (v6String ip) \<Longrightarrow> isHex c \<or> c = CHR '':''"
  by (erule v6String_cases) (auto dest: v6Part_chars)

lemma v6String_has_colon:
  assumes "length ip = 16"
  shows "CHR '':'' \<in> set (v6String ip)"
  using assms
proof (cases rule: v6String_cases)
  case plain
  have "length (groups ip) = 8" using assms by (simp add: groups_len)
  then obtain x y g where "groups ip = x # y # g" by (auto simp: numeral_eq_Suc length_Suc_conv)
  then show ?thesis by (simp add: plain v6Part_Cons)
qed auto

lemma ParseIP_v6String:
  assumes "length ip = 16"
  shows "ParseIP (v6String ip) = Some ip"
proof -
  let ?p = "\<lambda>c. c \<noteq> CHR ''.'' \<and> c \<noteq> CHR '':'' \<and> c \<noteq> CHR ''%''"
  have no: "c \<notin> set (v6String ip)" if "c = CHR ''.'' \<or> c = CHR ''%''" for c
    using v6String_chars [OF assms, of c] that by auto
  obtain u t where u: "v6String ip = u @ CHR '':'' # t" "CHR '':'' \<notin> set u"
    using v6String_has_colon [OF assms] by (auto dest: split_list_first)
  have "dropWhile ?p (u @ CHR '':'' # t) = CHR '':'' # t"
    using u(2) no u(1) by (subst dropWhile_append2) auto
  with u no [of "CHR ''%''"] parseIPv6_v6String [OF assms] show ?thesis by simp
qed

section \<open>Both\<close>

lemma ParseIP_IPString:
  assumes "length ip = 4 \<or> length ip = 16"
  shows "ParseIP (IPString ip) = To16 ip"
proof (cases "To4 ip")
  case None
  with assms have l: "length ip = 16" by (auto simp: To4_def)
  with None have "IPString ip = v6String ip" by (auto simp: IPString_def)
  with l ParseIP_v6String show ?thesis by (simp add: To16_def del: ParseIP.simps)
next
  case (Some v)
  with assms have "IPString ip = v4String v" by (auto simp: IPString_def)
  moreover have "To16 ip = Some (v4Prefix @ v)"
    using Some assms by (auto simp: To4_def To16_def split: if_splits) (metis append_take_drop_id)
  ultimately show ?thesis using ParseIP_v4String [OF To4_length [OF Some]] by (simp del: ParseIP.simps)
qed

section \<open>Printed addresses identify addresses\<close>

definition hex2 :: "byte \<Rightarrow> string" where
  "hex2 b = [hex_char (unat b div 16), hex_char (unat b mod 16)]"

lemma hex2_inj: "hex2 a = hex2 b \<Longrightarrow> a = b"
proof -
  assume h: "hex2 a = hex2 b"
  have d: "unat c div 16 < 16" for c :: byte
    using unat_byte_less [of c] by (simp add: less_mult_imp_div_less)
  from h hex_char_inj [OF d [of a] d [of b]] hex_char_inj [of "unat a mod 16" "unat b mod 16"]
  have "unat a div 16 = unat b div 16" "unat a mod 16 = unat b mod 16" by (simp_all add: hex2_def)
  then have "unat a = unat b" by (metis div_mult_mod_eq)
  then show ?thesis by (rule unsigned_word_eqI)
qed

lemma hex2_concat_inj: "concat (map hex2 xs) = concat (map hex2 ys) \<Longrightarrow> xs = ys"
proof (induction xs arbitrary: ys)
  case Nil
  then show ?case by (cases ys) (simp_all add: hex2_def)
next
  case (Cons x xs)
  then obtain y zs where ys: "ys = y # zs" by (cases ys) (simp_all add: hex2_def)
  with Cons.prems have "hex2 x = hex2 y" "concat (map hex2 xs) = concat (map hex2 zs)"
    by (simp_all add: hex2_def [abs_def])
  with hex2_inj Cons.IH ys show ?case by blast
qed

lemma IPString_odd:
  "ip \<noteq> [] \<Longrightarrow> length ip \<noteq> 4 \<Longrightarrow> length ip \<noteq> 16 \<Longrightarrow> IPString ip = CHR ''?'' # concat (map hex2 ip)"
  by (simp add: IPString_def hex2_def [abs_def])

lemma v4String_set: "c \<in> set (v4String v) \<Longrightarrow> is_digit c \<or> c = CHR ''.''"
proof -
  have "c \<in> set (joinWith ''.'' ws) \<Longrightarrow> \<forall>w \<in> set ws. list_all is_digit w \<Longrightarrow> is_digit c \<or> c = CHR ''.''" for ws
    by (induction "''.''" ws rule: joinWith.induct) (auto simp: list_all_iff)
  from this [of "map (\<lambda>b. nat_str (unat b)) v"] nat_str_digits
  show "c \<in> set (v4String v) \<Longrightarrow> is_digit c \<or> c = CHR ''.''" by (auto simp: v4String_def)
qed

lemma IPString_set:
  assumes "c \<in> set (IPString ip)" and "ip \<noteq> []"
  shows "is_digit c \<or> isHex c \<or> c \<in> {CHR ''.'', CHR '':'', CHR ''?''} "
proof (cases "length ip = 4 \<or> length ip = 16")
  case False
  have d: "unat b div 16 < 16" for b :: byte
    using unat_byte_less [of b] by (simp add: less_mult_imp_div_less)
  from False assms d show ?thesis by (auto simp: IPString_odd hex2_def)
next
  case True
  with assms show ?thesis
    using v4String_set [of c] v6String_chars [of ip c]
    by (cases "To4 ip") (auto simp: IPString_def To4_def split: if_splits)
qed

lemma IPString_plain:
  assumes "ip \<noteq> []"
  shows "CHR ''%'' \<notin> set (IPString ip)" "CHR ''['' \<notin> set (IPString ip)" "CHR '']'' \<notin> set (IPString ip)"
  using IPString_set [OF _ assms] by (fastforce simp: is_digit_def)+

lemma host_ok_IPString: "ip \<noteq> [] \<Longrightarrow> host_ok (IPString ip)"
  by (simp add: host_ok_def IPString_plain)

lemma IPString_query: "ip \<noteq> [] \<Longrightarrow> CHR ''?'' \<in> set (IPString ip) \<longleftrightarrow> length ip \<noteq> 4 \<and> length ip \<noteq> 16"
proof -
  assume ne: "ip \<noteq> []"
  show ?thesis
  proof (cases "length ip = 4 \<or> length ip = 16")
    case True
    have "\<not> is_digit CHR ''?''" by (simp add: is_digit_def)
    with True ne v4String_set [of "CHR ''?''"] v6String_chars [of ip "CHR ''?''"] show ?thesis
      by (cases "To4 ip") (auto simp: IPString_def To4_def split: if_splits)
  qed (use ne in \<open>simp add: IPString_odd\<close>)
qed

lemma IPString_inj:
  assumes "IPString a = IPString b" and "a \<noteq> []" and "b \<noteq> []"
  shows "IPEqual a b"
proof (cases "length a = 4 \<or> length a = 16")
  case True
  with assms IPString_query [of a] IPString_query [of b] have b: "length b = 4 \<or> length b = 16" by auto
  with True assms(1) ParseIP_IPString [of a] ParseIP_IPString [of b] have "To16 a = To16 b" by (simp del: ParseIP.simps)
  moreover have "To16 a \<noteq> None" "To16 b \<noteq> None" using True b by (auto simp: To16_def)
  ultimately show ?thesis by (simp add: IPEqual_iff_To16)
next
  case False
  with assms IPString_query [of a] IPString_query [of b] have "length b \<noteq> 4 \<and> length b \<noteq> 16" by auto
  with False assms hex2_concat_inj [of a b] show ?thesis by (auto simp: IPString_odd)
qed

lemma IPString_not_Nil: "ip \<noteq> [] \<Longrightarrow> IPString ip \<noteq> []"
proof
  assume ne: "ip \<noteq> []" and e: "IPString ip = []"
  show False
  proof (cases "length ip = 4 \<or> length ip = 16")
    case True
    then obtain x where "To16 ip = Some x" by (auto simp: To16_def)
    with ParseIP_IPString [OF True] e show False by simp
  qed (use ne e in \<open>simp add: IPString_odd\<close>)
qed

lemma Itoa_inj: "Itoa i = Itoa j \<Longrightarrow> i = j"
proof -
  have "CHR ''-'' \<notin> set (nat_str n)" for n
    using nat_str_digits [of n] by (auto simp: list_all_iff is_digit_def)
  then have "nat_str n \<noteq> CHR ''-'' # t" for n t by (metis list.set_intros(1))
  then have ne: "nat_str n \<noteq> CHR ''-'' # t" "CHR ''-'' # t \<noteq> nat_str n" for n t by metis+
  assume "Itoa i = Itoa j"
  then show ?thesis using ne by (auto simp: Itoa_def nat_str_inj split: if_splits)
qed

lemma Itoa_no_colon: "CHR '':'' \<notin> set (Itoa i)"
proof -
  have "CHR '':'' \<notin> set (nat_str n)" for n
    using nat_str_digits [of n] by (auto simp: list_all_iff is_digit_def)
  then show ?thesis by (simp add: Itoa_def)
qed

lemma JoinHostPort_inj:
  assumes "JoinHostPort h p = JoinHostPort h' p'" and "CHR '':'' \<notin> set p" and "CHR '':'' \<notin> set p'"
  shows "h = h' \<and> p = p'"
proof -
  let ?w = "\<lambda>h. if CHR '':'' \<in> set h then CHR ''['' # h @ '']'' else h"
  have j: "JoinHostPort h p = ?w h @ CHR '':'' # p" for h p by (simp add: JoinHostPort_def)
  have "rev p @ CHR '':'' # rev (?w h) = rev p' @ CHR '':'' # rev (?w h')"
    using arg_cong [OF assms(1) [unfolded j], of rev] by simp
  moreover have "takeWhile (\<lambda>c. c \<noteq> CHR '':'') (rev q @ CHR '':'' # r) = rev q" if "CHR '':'' \<notin> set q" for q r
    using that by (auto simp: takeWhile_append)
  ultimately have "rev p = rev p'" using assms(2,3) by metis
  with assms(1) [unfolded j] have "p = p'" "?w h = ?w h'" by simp_all
  then show ?thesis by (auto split: if_splits)
qed

end
