(* ===== verification/Udp_Hub.thy ===== *)
theory Udp_Hub
  imports Socks Ip_Text "HOL-Library.Multiset"
begin

text \<open>
  SOCKS5 UDP (\<open>internal/inbound/udp.go\<close> and \<open>hub.go\<close>): network addresses as Go prints and
  compares them, the datagram header both ways, the TCP reply with the bind address, and the
  hub that pins client addresses to associations.
\<close>

section \<open>Addresses\<close>

text \<open>
  \<open>net.Addr\<close> values; a nil interface is \<open>None\<close>, a nil \<open>net.IP\<close> is the empty list. The string
  of \<open>UDPAddr\<close> and the others is the zone.
\<close>

datatype addr =
    UDPAddr ip int string
  | TCPAddr ip int string
  | IPAddr ip string
  | HostAddr string int   \<comment> \<open>\<open>socksHostAddr\<close>\<close>
  | OtherAddr string

definition ipEmptyString :: "ip \<Rightarrow> string" where
  "ipEmptyString ip = (if ip = [] then [] else IPString ip)"

definition zoned :: "ip \<Rightarrow> string \<Rightarrow> string" where
  "zoned ip zone = (if zone = [] then ipEmptyString ip else ipEmptyString ip @ ''%'' @ zone)"

fun addr_str :: "addr \<Rightarrow> string" where
  "addr_str (UDPAddr ip port zone) = JoinHostPort (zoned ip zone) (Itoa port)"
| "addr_str (TCPAddr ip port zone) = JoinHostPort (zoned ip zone) (Itoa port)"
| "addr_str (IPAddr ip zone) = zoned ip zone"
| "addr_str (HostAddr host port) = JoinHostPort host (Itoa port)"
| "addr_str (OtherAddr s) = s"

definition parseIP_nil :: "string \<Rightarrow> ip" where
  "parseIP_nil s = (case ParseIP s of None \<Rightarrow> [] | Some ip \<Rightarrow> ip)"

fun addrIP :: "addr option \<Rightarrow> ip" where
  "addrIP None = []"
| "addrIP (Some (UDPAddr ip _ _)) = ip"
| "addrIP (Some (TCPAddr ip _ _)) = ip"
| "addrIP (Some (IPAddr ip _)) = ip"
| "addrIP (Some a) =
     (case SplitHostPort (addr_str a) of
        None \<Rightarrow> parseIP_nil (addr_str a)
      | Some (host, _) \<Rightarrow> parseIP_nil host)"

fun sameUDPAddr :: "addr option \<Rightarrow> addr option \<Rightarrow> bool" where
  "sameUDPAddr (Some (UDPAddr ip port _)) (Some (UDPAddr ip' port' _)) = (IPEqual ip ip' \<and> port = port')"
| "sameUDPAddr (Some a) (Some b) = (addr_str a = addr_str b)"
| "sameUDPAddr _ _ = False"

definition udpAllowed :: "ip \<Rightarrow> addr option \<Rightarrow> addr option \<Rightarrow> addr option \<times> bool" where
  "udpAllowed peerIP pinned from =
     (if from = None then (pinned, False)
      else if peerIP \<noteq> [] \<and> (addrIP from = [] \<or> \<not> IPEqual peerIP (addrIP from)) then (pinned, False)
      else if pinned = None then (from, True)
      else if \<not> sameUDPAddr pinned from then (pinned, False)
      else (pinned, True))"

definition associateExpect :: "string \<Rightarrow> u16 \<Rightarrow> addr option" where
  "associateExpect host port =
     (if port = 0 \<or> host = [] then None
      else case ParseIP host of
             None \<Rightarrow> None
           | Some ip \<Rightarrow> if IsUnspecified ip then None else Some (UDPAddr ip (uint port) []))"

definition IPv4zero :: ip where "IPv4zero = IPv4 0 0 0 0"
definition IPv6zero :: ip where "IPv6zero = replicate 16 0"

definition socksBindAddr :: "addr option \<Rightarrow> addr option \<Rightarrow> ip \<times> int" where
  "socksBindAddr local tcpPeer =
     (case local of
        Some (UDPAddr ip port _) \<Rightarrow>
          if ip \<noteq> [] \<and> \<not> IsUnspecified ip then (ip, port)
          else if addrIP tcpPeer \<noteq> [] \<and> To4 (addrIP tcpPeer) \<noteq> None then (IPv4zero, port)
          else if ip \<noteq> [] \<and> To4 ip = None then (IPv6zero, port)
          else (IPv4zero, port)
      | _ \<Rightarrow> (IPv4zero, 0))"

definition udpNetwork :: "string \<Rightarrow> string" where
  "udpNetwork host =
     (case ParseIP host of
        None \<Rightarrow> ''udp''
      | Some ip \<Rightarrow> if To4 ip \<noteq> None then ''udp4'' else if IsUnspecified ip then ''udp'' else ''udp6'')"

definition listenPacketSame :: "string \<Rightarrow> (string \<times> string) option" where
  \<comment> \<open>network and address handed to \<open>net.ListenPacket\<close>\<close>
  "listenPacketSame addr = map_option (\<lambda>(host, _). (udpNetwork host, addr)) (SplitHostPort addr)"

section \<open>Wire formats\<close>

definition uint16_of :: "int \<Rightarrow> u16" where "uint16_of i = word_of_int i"

definition socksReplyBytes :: "byte \<Rightarrow> ip \<Rightarrow> int \<Rightarrow> bytes" where
  \<comment> \<open>what \<open>writeSOCKSReply\<close> writes\<close>
  "socksReplyBytes rep ip port =
     [5, rep, 0]
     @ (case To4 ip of
          Some v4 \<Rightarrow> 1 # v4
        | None \<Rightarrow> if length ip = 16 then 4 # ip else [1, 0, 0, 0, 0])
     @ be16 (uint16_of port)"

definition writeSOCKSReply :: "byte \<Rightarrow> ip \<Rightarrow> int \<Rightarrow> client \<Rightarrow> (in_err + unit) \<times> client" where
  "writeSOCKSReply rep ip port = cl_write (socksReplyBytes rep ip port)"

datatype udp_err = ShortUDP | FragUDP | AtypUDP byte

definition parseSOCKSUDP :: "bytes \<Rightarrow> udp_err + string \<times> u16 \<times> bytes" where
  "parseSOCKSUDP b =
     (let finish = (\<lambda>host off. Inr (host, de16 (b ! off) (b ! (off + 1)), drop (off + 2) b)) in
      if length b < 4 then Inl ShortUDP
      else if b ! 2 \<noteq> 0 then Inl FragUDP
      else if b ! 3 = 1 then
        (if length b < 3 + 1 + 4 + 2 then Inl ShortUDP else finish (IPString (slice b 4 8)) 8)
      else if b ! 3 = 4 then
        (if length b < 3 + 1 + 16 + 2 then Inl ShortUDP else finish (IPString (slice b 4 20)) 20)
      else if b ! 3 = 3 then
        (if length b < 3 + 2 then Inl ShortUDP
         else
           let n = unat (b ! 4) in
           if length b < 3 + 2 + n + 2 then Inl ShortUDP
           else finish (bytes_str (slice b 5 (5 + n))) (5 + n))
      else Inl (AtypUDP (b ! 3)))"

definition encodeSOCKSUDP :: "addr option \<Rightarrow> bytes \<Rightarrow> bytes" where
  "encodeSOCKSUDP addr payload =
     (let (host, port) =
        (case addr of
           Some (UDPAddr ip port _) \<Rightarrow> (IPString ip, port)
         | Some a \<Rightarrow>
             (case SplitHostPort (addr_str a) of
                Some (h, p) \<Rightarrow> (h, Atoi_value p)
              | None \<Rightarrow> ([], 0))
         | None \<Rightarrow> ([], 0)) in
      [0, 0, 0]
      @ (case ParseIP host of
           Some ip \<Rightarrow> (case To4 ip of Some v4 \<Rightarrow> 1 # v4 | None \<Rightarrow> 4 # the (To16 ip))
         | None \<Rightarrow>
             let h = take 255 host in 3 # word_of_nat (length h) # str_bytes h)
      @ be16 (uint16_of port) @ payload)"

section \<open>The hub\<close>

type_synonym sess_id = nat

record udpSess =
  us_peerIP :: ip
  us_expect :: "addr option"
  us_client :: "addr option"
  us_done :: bool

text \<open>
  \<open>hb_by\<close> is the map \<open>byClient\<close> with its iteration order, which Go leaves open; see
  \<open>hub_reorder\<close> below.
\<close>

record hub =
  hb_sess :: "sess_id \<rightharpoonup> udpSess"
  hb_next :: sess_id
  hb_pending :: "sess_id list"
  hb_by :: "(string \<times> sess_id) list"

definition newUDPHub :: hub where
  "newUDPHub = \<lparr>hb_sess = Map.empty, hb_next = 0, hb_pending = [], hb_by = []\<rparr>"

definition sess :: "hub \<Rightarrow> sess_id \<Rightarrow> udpSess" where
  "sess h i = the (hb_sess h i)"

definition register :: "addr option \<Rightarrow> addr option \<Rightarrow> hub \<Rightarrow> sess_id option \<times> hub" where
  \<comment> \<open>\<open>None\<close> is \<open>errUDPWildcardBusy\<close>\<close>
  "register peer expect h =
     (let ip = addrIP peer in
      if expect = None \<and> ip \<noteq> []
         \<and> list_ex (\<lambda>p. us_expect (sess h p) = None \<and> us_peerIP (sess h p) \<noteq> [] \<and> IPEqual (us_peerIP (sess h p)) ip)
             (hb_pending h)
      then (None, h)
      else
        (Some (hb_next h),
         h\<lparr>hb_sess := (hb_sess h)(hb_next h \<mapsto>
              \<lparr>us_peerIP = ip, us_expect = expect, us_client = None, us_done = False\<rparr>),
           hb_next := hb_next h + 1,
           hb_pending := hb_pending h @ [hb_next h]\<rparr>))"

definition stop :: "sess_id \<Rightarrow> hub \<Rightarrow> hub" where
  "stop i h = h\<lparr>hb_sess := (hb_sess h)(i \<mapsto> (sess h i)\<lparr>us_done := True\<rparr>)\<rparr>"

definition unregister :: "sess_id \<Rightarrow> hub \<Rightarrow> hub" where
  "unregister i h0 =
     (let h = stop i h0 in
      h\<lparr>hb_pending := filter (\<lambda>p. p \<noteq> i) (hb_pending h),
        hb_by := (case us_client (sess h i) of
                    None \<Rightarrow> hb_by h
                  | Some c \<Rightarrow> filter (\<lambda>(k, _). k \<noteq> addr_str c) (hb_by h))\<rparr>)"

definition clientOf :: "sess_id \<Rightarrow> hub \<Rightarrow> addr option" where
  "clientOf i h = us_client (sess h i)"

definition map_set :: "string \<Rightarrow> sess_id \<Rightarrow> (string \<times> sess_id) list \<Rightarrow> (string \<times> sess_id) list" where
  "map_set k i m = (k, i) # filter (\<lambda>(k', _). k' \<noteq> k) m"

definition lookupPinned :: "addr \<Rightarrow> hub \<Rightarrow> sess_id option \<times> hub" where
  "lookupPinned from h =
     (case map_of (hb_by h) (addr_str from) of
        Some s \<Rightarrow> (Some s, h)
      | None \<Rightarrow>
          (case find (\<lambda>(_, s). sameUDPAddr (us_client (sess h s)) (Some from)) (hb_by h) of
             Some (_, s) \<Rightarrow> (Some s, h\<lparr>hb_by := map_set (addr_str from) s (hb_by h)\<rparr>)
           | None \<Rightarrow> (None, h)))"

definition pinLocked :: "sess_id \<Rightarrow> addr \<Rightarrow> hub \<Rightarrow> sess_id option \<times> hub" where
  "pinLocked s from h =
     (Some s,
      h\<lparr>hb_sess := (hb_sess h)(s \<mapsto> (sess h s)\<lparr>us_client := Some from\<rparr>),
        hb_by := map_set (addr_str from) s (hb_by h),
        hb_pending := remove1 s (hb_pending h)\<rparr>)"

definition exactMatch :: "hub \<Rightarrow> addr \<Rightarrow> sess_id \<Rightarrow> bool" where
  "exactMatch h from s \<longleftrightarrow>
     us_expect (sess h s) \<noteq> None \<and> sameUDPAddr (us_expect (sess h s)) (Some from)
     \<and> (us_peerIP (sess h s) = [] \<or> (addrIP (Some from) \<noteq> [] \<and> IPEqual (us_peerIP (sess h s)) (addrIP (Some from))))"

definition wildMatch :: "hub \<Rightarrow> addr \<Rightarrow> sess_id \<Rightarrow> bool" where
  "wildMatch h from s \<longleftrightarrow>
     us_expect (sess h s) = None \<and> snd (udpAllowed (us_peerIP (sess h s)) None (Some from))"

definition dispatch :: "addr \<Rightarrow> hub \<Rightarrow> sess_id option \<times> hub" where
  "dispatch from h =
     (case lookupPinned from h of
        (Some s, h') \<Rightarrow> (Some s, h')
      | (None, h') \<Rightarrow>
          let exact = filter (exactMatch h' from) (hb_pending h');
              wild = filter (wildMatch h' from) (hb_pending h') in
          if length exact = 1 then pinLocked (hd exact) from h'
          else if 1 < length exact then (None, h')
          else if length wild = 1 then pinLocked (hd wild) from h'
          else (None, h'))"

text \<open>One datagram of \<open>readLoop\<close>: the session and the datagram sent to its channel.\<close>

definition readDatagram :: "bytes \<Rightarrow> addr \<Rightarrow> hub \<Rightarrow> (sess_id \<times> addr \<times> bytes) option \<times> hub" where
  "readDatagram b from h =
     (case parseSOCKSUDP b of
        Inl _ \<Rightarrow> (None, h)
      | Inr (host, port, payload) \<Rightarrow>
          (case dispatch from h of
             (None, h') \<Rightarrow> (None, h')
           | (Some s, h') \<Rightarrow>
               (Some (s, (case ParseIP host of
                            Some ip \<Rightarrow> UDPAddr ip (uint port) []
                          | None \<Rightarrow> HostAddr host (uint port)), payload), h')))"

section \<open>Addresses determine what they print\<close>

lemma IPEqual_trans: "IPEqual a b \<Longrightarrow> IPEqual b c \<Longrightarrow> IPEqual a c"
  by (auto simp: IPEqual_def split: if_splits)

lemma IPEqual_To4: "To4 a = Some v \<Longrightarrow> To4 b = Some v \<Longrightarrow> IPEqual a b"
  by (auto simp: IPEqual_def To4_def split: if_splits) (metis append_take_drop_id)+

lemma zoned_inj:
  assumes "zoned a z = zoned b w"
  shows "IPEqual a b \<and> z = w"
proof -
  have cut: "takeWhile (\<lambda>c. c \<noteq> CHR ''%'') (zoned ip x) = ipEmptyString ip" for ip x
    using IPString_plain(1) [of ip] by (auto simp: zoned_def ipEmptyString_def takeWhile_append)
  have "zoned ip x = ipEmptyString ip @ (if x = [] then [] else ''%'' @ x)" for ip x
    by (simp add: zoned_def)
  moreover from assms cut have e: "ipEmptyString a = ipEmptyString b" by metis
  ultimately have "z = w" using assms by (simp split: if_splits)
  moreover have "IPEqual a b"
    using e IPString_inj [of a b] IPString_not_Nil [of a] IPString_not_Nil [of b]
    by (cases "a = []"; cases "b = []") (simp_all add: ipEmptyString_def)
  ultimately show ?thesis by simp
qed

lemma addr_str_inj:
  assumes "addr_str (UDPAddr a p z) = addr_str (UDPAddr b q w)"
  shows "IPEqual a b \<and> p = q \<and> z = w"
proof -
  from assms have "zoned a z = zoned b w \<and> Itoa p = Itoa q"
    by (intro JoinHostPort_inj Itoa_no_colon) simp
  with zoned_inj [of a z b w] Itoa_inj [of p q] show ?thesis by blast
qed

section \<open>Reachable hubs\<close>

text \<open>
  Datagrams come from a UDP socket, so their source is a \<open>UDPAddr\<close>; the iteration order of the
  client map may change at any time.
\<close>

inductive hub_step :: "hub \<Rightarrow> hub \<Rightarrow> bool" where
  hub_register: "register peer expect h = (r, h') \<Longrightarrow> hub_step h h'"
| hub_unregister: "i < hb_next h \<Longrightarrow> hub_step h (unregister i h)"
| hub_dispatch: "dispatch (UDPAddr ip port zone) h = (r, h') \<Longrightarrow> hub_step h h'"
| hub_reorder: "mset m = mset (hb_by h) \<Longrightarrow> hub_step h (h\<lparr>hb_by := m\<rparr>)"

definition peer_ok :: "udpSess \<Rightarrow> addr \<Rightarrow> bool" where
  "peer_ok s a \<longleftrightarrow> us_peerIP s = [] \<or> (addrIP (Some a) \<noteq> [] \<and> IPEqual (us_peerIP s) (addrIP (Some a)))"

definition is_udp :: "addr \<Rightarrow> bool" where
  "is_udp a = (case a of UDPAddr _ _ _ \<Rightarrow> True | _ \<Rightarrow> False)"

definition client_ok :: "udpSess \<Rightarrow> bool" where
  "client_ok s \<longleftrightarrow> (\<forall>c. us_client s = Some c \<longrightarrow>
     is_udp c \<and> peer_ok s c \<and> (us_expect s \<noteq> None \<longrightarrow> sameUDPAddr (us_expect s) (Some c)))"

definition key_ok :: "udpSess \<Rightarrow> string \<Rightarrow> bool" where
  "key_ok s k \<longleftrightarrow> (\<exists>a. addr_str a = k \<and> is_udp a \<and> peer_ok s a \<and>
     (\<exists>c. us_client s = Some c \<and> (a = c \<or> sameUDPAddr (Some c) (Some a))))"

definition hub_inv :: "hub \<Rightarrow> bool" where
  "hub_inv h \<longleftrightarrow>
     (\<forall>i. hb_sess h i \<noteq> None \<longleftrightarrow> i < hb_next h)
     \<and> (\<forall>i s. hb_sess h i = Some s \<longrightarrow> client_ok s)
     \<and> distinct (hb_pending h)
     \<and> (\<forall>i \<in> set (hb_pending h). i < hb_next h \<and> us_client (sess h i) = None)
     \<and> (\<forall>(k, i) \<in> set (hb_by h). i < hb_next h \<and> key_ok (sess h i) k)"

lemma hub_inv_sess: "hub_inv h \<Longrightarrow> i < hb_next h \<Longrightarrow> hb_sess h i = Some (sess h i) \<and> client_ok (sess h i)"
  by (fastforce simp: hub_inv_def sess_def)

lemma sess_upd: "sess (h\<lparr>hb_sess := (hb_sess h)(i \<mapsto> s)\<rparr>) j = (if j = i then s else sess h j)"
  by (simp add: sess_def)

lemma set_map_set: "set (map_set k i m) \<subseteq> insert (k, i) (set m)"
  by (auto simp: map_set_def)

lemma hub_inv_register:
  assumes "hub_inv h" and "register peer expect h = (r, h')"
  shows "hub_inv h'"
proof (cases r)
  case None
  with assms show ?thesis by (auto simp: register_def Let_def split: if_splits)
next
  case (Some i)
  let ?s = "\<lparr>us_peerIP = addrIP peer, us_expect = expect, us_client = None, us_done = False\<rparr>"
  from Some assms(2) have h': "h' = h\<lparr>hb_sess := (hb_sess h)(hb_next h \<mapsto> ?s),
      hb_next := hb_next h + 1, hb_pending := hb_pending h @ [hb_next h]\<rparr>"
    by (auto simp: register_def Let_def split: if_splits)
  have s: "sess h' j = (if j = hb_next h then ?s else sess h j)" for j
    by (simp add: h' sess_def)
  show ?thesis
    using assms(1) unfolding hub_inv_def s
    by (auto simp: h' client_ok_def less_Suc_eq split: if_splits)
qed

lemma hub_inv_unregister:
  assumes "hub_inv h" and "i < hb_next h"
  shows "hub_inv (unregister i h)"
proof -
  let ?s = "(sess h i)\<lparr>us_done := True\<rparr>"
  have s: "sess (unregister i h) j = (if j = i then ?s else sess h j)" for j
    by (simp add: unregister_def stop_def sess_def Let_def)
  have u: "hb_sess (unregister i h) = (hb_sess h)(i \<mapsto> ?s)" "hb_next (unregister i h) = hb_next h"
    "set (hb_by (unregister i h)) \<subseteq> set (hb_by h)"
    "hb_pending (unregister i h) = filter (\<lambda>p. p \<noteq> i) (hb_pending h)"
    by (auto simp: unregister_def stop_def Let_def split: option.splits)
  have c: "client_ok ?s" using hub_inv_sess [OF assms] by (simp add: client_ok_def peer_ok_def)
  have k: "key_ok ?s k = key_ok (sess h i) k" for k by (simp add: key_ok_def peer_ok_def)
  show ?thesis
    using assms c k u(3) unfolding hub_inv_def s u(1,2,4)
    by (auto split: if_splits)
qed

lemma sameUDPAddr_IP:
  "is_udp a \<Longrightarrow> is_udp b \<Longrightarrow> sameUDPAddr (Some a) (Some b) \<Longrightarrow> IPEqual (addrIP (Some a)) (addrIP (Some b))"
  by (cases a; cases b) (auto simp: is_udp_def)

lemma IPEqual_Nil: "IPEqual a b \<Longrightarrow> a = [] \<longleftrightarrow> b = []"
  by (auto simp: IPEqual_def split: if_splits)

lemma peer_ok_same:
  "peer_ok s c \<Longrightarrow> is_udp c \<Longrightarrow> is_udp a \<Longrightarrow> sameUDPAddr (Some c) (Some a) \<Longrightarrow> peer_ok s a"
  using sameUDPAddr_IP [of c a] IPEqual_trans IPEqual_Nil unfolding peer_ok_def by blast

text \<open>What \<open>dispatch\<close> can do: find the pinned session, pin one pending session, or nothing.\<close>

lemma dispatch_cases:
  assumes "dispatch from h = (r, h')"
  obtains (direct) i where "r = Some i" "h' = h" "(addr_str from, i) \<in> set (hb_by h)"
  | (aliased) k i where "r = Some i" "(k, i) \<in> set (hb_by h)" "sameUDPAddr (us_client (sess h i)) (Some from)"
      "h' = h\<lparr>hb_by := map_set (addr_str from) i (hb_by h)\<rparr>"
  | (pin) i where "r = Some i" "i \<in> set (hb_pending h)" "exactMatch h from i \<or> wildMatch h from i"
      "(r, h') = pinLocked i from h"
  | (none) "r = None" "h' = h"
proof -
  obtain l h1 where l: "lookupPinned from h = (l, h1)" by fastforce
  show thesis
  proof (cases l)
    case (Some i)
    with l assms have r: "r = Some i" "h' = h1" by (auto simp: dispatch_def)
    show thesis
    proof (cases "map_of (hb_by h) (addr_str from)")
      case (Some j)
      with l \<open>l = Some i\<close> r direct map_of_SomeD [OF Some] show thesis by (auto simp: lookupPinned_def)
    next
      case None
      with l \<open>l = Some i\<close> obtain k where
        f: "find (\<lambda>(_, s). sameUDPAddr (us_client (sess h s)) (Some from)) (hb_by h) = Some (k, i)"
        and h1: "h1 = h\<lparr>hb_by := map_set (addr_str from) i (hb_by h)\<rparr>"
        by (auto simp: lookupPinned_def split: option.splits)
      from f have "(k, i) \<in> set (hb_by h)" "sameUDPAddr (us_client (sess h i)) (Some from)"
        by (auto simp: find_Some_iff in_set_conv_nth)
      with aliased r h1 show thesis by blast
    qed
  next
    case None
    with l have h1: "h1 = h" by (auto simp: lookupPinned_def split: option.splits)
    let ?ex = "filter (exactMatch h from) (hb_pending h)" and ?wl = "filter (wildMatch h from) (hb_pending h)"
    have one: "length xs = 1 \<Longrightarrow> hd xs \<in> set xs" for xs :: "sess_id list" by (cases xs) auto
    from None l h1 assms have d: "(r, h') = (if length ?ex = 1 then pinLocked (hd ?ex) from h
        else if 1 < length ?ex then (None, h)
        else if length ?wl = 1 then pinLocked (hd ?wl) from h else (None, h))"
      by (simp add: dispatch_def Let_def)
    consider "length ?ex = 1" | "length ?ex \<noteq> 1" "1 < length ?ex \<or> length ?wl \<noteq> 1"
      | "length ?ex \<noteq> 1" "\<not> 1 < length ?ex" "length ?wl = 1" by blast
    then show thesis
    proof cases
      case 1
      with d one [OF 1] pin [of "hd ?ex"] show thesis by (simp add: pinLocked_def)
    next
      case 2
      with d none show thesis by (simp split: if_splits)
    next
      case 3
      with d one [OF 3(3)] pin [of "hd ?wl"] show thesis by (simp add: pinLocked_def)
    qed
  qed
qed

lemma match_client_ok:
  assumes "is_udp from" and "exactMatch h from i \<or> wildMatch h from i"
  shows "client_ok ((sess h i)\<lparr>us_client := Some from\<rparr>)"
  using assms
  by (auto simp: client_ok_def peer_ok_def exactMatch_def wildMatch_def udpAllowed_def split: if_splits)

lemma hub_inv_dispatch:
  assumes "hub_inv h" and "is_udp from" and "dispatch from h = (r, h')"
  shows "hub_inv h'"
  using assms(3)
proof (cases rule: dispatch_cases)
  case (aliased k i)
  have i: "i < hb_next h" "key_ok (sess h i) k" using assms(1) aliased(2) by (auto simp: hub_inv_def)
  then obtain c where c: "us_client (sess h i) = Some c" by (auto simp: key_ok_def)
  with hub_inv_sess [OF assms(1) i(1)] have "is_udp c" "peer_ok (sess h i) c" by (auto simp: client_ok_def)
  with aliased(3) c assms(2) have "key_ok (sess h i) (addr_str from)"
    using peer_ok_same unfolding key_ok_def by metis
  with i(1) assms(1) set_map_set [of "addr_str from" i "hb_by h"] show ?thesis
    by (auto simp: hub_inv_def aliased(4) sess_def)
next
  case (pin i)
  let ?s = "(sess h i)\<lparr>us_client := Some from\<rparr>"
  have i: "i < hb_next h" "us_client (sess h i) = None" using assms(1) pin(2) by (auto simp: hub_inv_def)
  have h': "h' = h\<lparr>hb_sess := (hb_sess h)(i \<mapsto> ?s), hb_by := map_set (addr_str from) i (hb_by h),
      hb_pending := remove1 i (hb_pending h)\<rparr>"
    using pin(4) by (simp add: pinLocked_def)
  have s: "sess h' j = (if j = i then ?s else sess h j)" for j by (simp add: h' sess_def)
  have c: "client_ok ?s" by (rule match_client_ok [OF assms(2) pin(3)])
  then have k: "key_ok ?s (addr_str from)" using assms(2) by (auto simp: key_ok_def client_ok_def)
  have o: "j \<noteq> i" if "(k, j) \<in> set (hb_by h)" for k j
    using that assms(1) i(2) by (fastforce simp: hub_inv_def key_ok_def)
  show ?thesis
    using assms(1) i(1) c k o set_map_set [of "addr_str from" i "hb_by h"] unfolding hub_inv_def s
    by (auto simp: h' split: if_splits)
qed (use assms(1) in auto)

lemma hub_inv_step: "hub_step h h' \<Longrightarrow> hub_inv h \<Longrightarrow> hub_inv h'"
proof (induction rule: hub_step.induct)
  case (hub_dispatch ip port zone h r h')
  then show ?case using hub_inv_dispatch [of h "UDPAddr ip port zone"] by (simp add: is_udp_def)
next
  case (hub_reorder m h)
  from mset_eq_setD [OF hub_reorder.hyps] hub_reorder.prems show ?case by (simp add: hub_inv_def sess_def)
qed (auto intro: hub_inv_register hub_inv_unregister)

lemma hub_inv_new: "hub_inv newUDPHub"
  by (simp add: hub_inv_def newUDPHub_def)

interpretation hub_machine: state_machine newUDPHub hub_step hub_inv
  by unfold_locales (fact hub_inv_new, rule hub_inv_step)

lemma dispatch_source:
  assumes "hub_inv h" and "dispatch (UDPAddr ip port zone) h = (Some i, h')"
  shows "\<exists>cip czone. clientOf i h' = Some (UDPAddr cip port czone) \<and> IPEqual cip ip
    \<and> (us_peerIP (sess h' i) \<noteq> [] \<longrightarrow> IPEqual (us_peerIP (sess h' i)) ip)
    \<and> (us_expect (sess h' i) \<noteq> None \<longrightarrow> sameUDPAddr (us_expect (sess h' i)) (clientOf i h'))"
proof -
  have inv: "hub_inv h'" by (rule hub_inv_dispatch [OF assms(1) _ assms(2)]) (simp add: is_udp_def)
  have "(addr_str (UDPAddr ip port zone), i) \<in> set (hb_by h')"
    using assms(2) by (cases rule: dispatch_cases) (auto simp: map_set_def pinLocked_def)
  with inv have i: "i < hb_next h'" and k: "key_ok (sess h' i) (addr_str (UDPAddr ip port zone))"
    by (auto simp: hub_inv_def)
  from k obtain a c where a: "addr_str a = addr_str (UDPAddr ip port zone)" "is_udp a"
    and c: "us_client (sess h' i) = Some c" "a = c \<or> sameUDPAddr (Some c) (Some a)"
    by (auto simp: key_ok_def)
  have ok: "client_ok (sess h' i)" using hub_inv_sess [OF inv i] by simp
  with c(1) obtain cip cport czone where c': "c = UDPAddr cip cport czone"
    by (cases c) (auto simp: client_ok_def is_udp_def)
  obtain aip aport azone where a': "a = UDPAddr aip aport azone" using a(2) by (cases a) (auto simp: is_udp_def)
  note eq = addr_str_inj [OF a(1) [unfolded a']]
  have ip: "cport = port" "IPEqual cip ip" using eq c(2) a' c' IPEqual_trans by auto
  moreover have "us_peerIP (sess h' i) \<noteq> [] \<longrightarrow> IPEqual (us_peerIP (sess h' i)) ip"
    using ok c(1) c' IPEqual_trans [OF _ ip(2)] by (auto simp: client_ok_def peer_ok_def)
  moreover have "us_expect (sess h' i) \<noteq> None \<longrightarrow> sameUDPAddr (us_expect (sess h' i)) (clientOf i h')"
    using ok c(1) by (auto simp: client_ok_def clientOf_def)
  ultimately show ?thesis using c(1) c' by (auto simp: clientOf_def)
qed

lemma associateExpect_udp: "associateExpect host p = Some e \<Longrightarrow> \<exists>eip. e = UDPAddr eip (uint p) []"
  by (auto simp: associateExpect_def split: if_splits option.splits simp del: ParseIP.simps)


text \<open>
  C17. The hub never guesses and never moves a client: a datagram from an address that is not
  pinned yet reaches an association only if that one is the single pending association whose
  announced address matches, or no announced address matches and it is the single pending
  association without one that admits the source; otherwise the hub is unchanged. Dispatching
  leaves the client of every pinned association as it is.
\<close>
theorem dispatch_pins_unique:
  assumes "hub_step\<^sup>*\<^sup>* newUDPHub h" and "is_udp from" and "dispatch from h = (r, h')"
  shows "(\<forall>j c. clientOf j h = Some c \<longrightarrow> clientOf j h' = Some c)
    \<and> (fst (lookupPinned from h) = None \<longrightarrow>
         (case r of
            None \<Rightarrow> h' = h
          | Some i \<Rightarrow> clientOf i h' = Some from \<and> i \<notin> set (hb_pending h')
              \<and> (filter (exactMatch h from) (hb_pending h) = [i]
                 \<or> filter (exactMatch h from) (hb_pending h) = [] \<and> filter (wildMatch h from) (hb_pending h) = [i])))"
proof -
  have inv: "hub_inv h" by (rule hub_machine.reachable [OF assms(1)])
  have keep: "clientOf j h' = Some c" if "clientOf j h = Some c" for j c
    using assms(3)
  proof (cases rule: dispatch_cases)
    case (pin i)
    with inv that have "i \<noteq> j" by (auto simp: hub_inv_def clientOf_def)
    with pin that show ?thesis by (simp add: pinLocked_def clientOf_def sess_def)
  qed (use that in \<open>auto simp: clientOf_def sess_def\<close>)
  have one: "length xs = 1 \<Longrightarrow> xs = [hd xs]" for xs :: "sess_id list" by (cases xs) auto
  have pend: "distinct (hb_pending h)" using inv by (simp add: hub_inv_def)
  have pinned: "fst (pinLocked i from h) = Some i \<and> clientOf i (snd (pinLocked i from h)) = Some from
      \<and> i \<notin> set (hb_pending (snd (pinLocked i from h)))" for i
    using pend by (simp add: pinLocked_def clientOf_def sess_def)
  have new: "case r of
            None \<Rightarrow> h' = h
          | Some i \<Rightarrow> clientOf i h' = Some from \<and> i \<notin> set (hb_pending h')
              \<and> (filter (exactMatch h from) (hb_pending h) = [i]
                 \<or> filter (exactMatch h from) (hb_pending h) = [] \<and> filter (wildMatch h from) (hb_pending h) = [i])"
    if l: "fst (lookupPinned from h) = None"
  proof -
    let ?ex = "filter (exactMatch h from) (hb_pending h)" and ?wl = "filter (wildMatch h from) (hb_pending h)"
    from l have "lookupPinned from h = (None, h)" by (auto simp: lookupPinned_def split: option.splits)
    with assms(3) have d: "(r, h') = (if length ?ex = 1 then pinLocked (hd ?ex) from h
        else if 1 < length ?ex then (None, h)
        else if length ?wl = 1 then pinLocked (hd ?wl) from h else (None, h))"
      by (simp add: dispatch_def Let_def)
    consider "length ?ex = 1" | "length ?ex \<noteq> 1" "1 < length ?ex \<or> length ?wl \<noteq> 1"
      | "?ex = []" "length ?wl = 1"
      by (cases ?ex; cases "tl ?ex") auto
    then show ?thesis
    proof cases
      case 1
      with d have "r = fst (pinLocked (hd ?ex) from h)" "h' = snd (pinLocked (hd ?ex) from h)"
        by (simp_all add: prod_eq_iff)
      with pinned [of "hd ?ex"] one [OF 1] show ?thesis by simp
    next
      case 2
      with d have "r = None" "h' = h" by (simp_all split: if_splits)
      then show ?thesis by simp
    next
      case 3
      with d have "r = fst (pinLocked (hd ?wl) from h)" "h' = snd (pinLocked (hd ?wl) from h)"
        by (simp_all add: prod_eq_iff)
      with pinned [of "hd ?wl"] one [OF 3(2)] 3(1) show ?thesis by simp
    qed
  qed
  from keep new show ?thesis by blast
qed

definition demo_hub :: hub where
  "demo_hub = snd (register (Some (TCPAddr [10, 0, 0, 1] 50000 [])) None newUDPHub)"

lemma demo_hub_reachable: "hub_step\<^sup>*\<^sup>* newUDPHub demo_hub"
  unfolding demo_hub_def by (rule r_into_rtranclp, rule hub_register) (simp add: prod_eq_iff)

lemma demo_dispatch:
  "dispatch (UDPAddr [10, 0, 0, 1] 7 []) demo_hub = pinLocked 0 (UDPAddr [10, 0, 0, 1] 7 []) demo_hub"
  by (simp add: dispatch_def lookupPinned_def demo_hub_def register_def newUDPHub_def Let_def exactMatch_def
      wildMatch_def udpAllowed_def sess_def)

definition demo_hub6 :: hub where
  "demo_hub6 = snd (register (Some (TCPAddr ([0x20, 1] @ replicate 13 0 @ [1]) 50000 []))
     (Some (UDPAddr ([0x20, 1] @ replicate 13 0 @ [1]) 7 [])) newUDPHub)"

lemma demo_hub6_reachable: "hub_step\<^sup>*\<^sup>* newUDPHub demo_hub6"
  unfolding demo_hub6_def by (rule r_into_rtranclp, rule hub_register) (simp add: prod_eq_iff)


theorem dispatch_pins_unique_witness:
  "\<exists>r h'. dispatch (UDPAddr [10, 0, 0, 1] 7 []) demo_hub = (r, h') \<and> r = Some 0
     \<and> clientOf 0 h' = Some (UDPAddr [10, 0, 0, 1] 7 [])"
proof -
  let ?h = "snd (pinLocked 0 (UDPAddr [10, 0, 0, 1] 7 []) demo_hub)"
  have d: "dispatch (UDPAddr [10, 0, 0, 1] 7 []) demo_hub = (Some 0, ?h)"
    unfolding demo_dispatch by (simp add: pinLocked_def)
  moreover have "fst (lookupPinned (UDPAddr [10, 0, 0, 1] 7 []) demo_hub) = None"
    by (simp add: lookupPinned_def demo_hub_def register_def newUDPHub_def Let_def)
  ultimately show ?thesis
    using dispatch_pins_unique [OF demo_hub_reachable _ d] by (simp add: is_udp_def)
qed

text \<open>
  An address that differs from the pinned one only in its zone finds the association through the
  second loop of \<open>lookupPinned\<close>, which records it under its own key; \<open>unregister\<close> removes only
  the key of the pinned address, so the other one goes on naming the finished association.
\<close>

theorem unregister_leaves_alias:
  fixes c src :: addr
  defines "ip \<equiv> [0xfe, 0x80] @ replicate 13 0 @ [1]"
  defines "c \<equiv> UDPAddr ip 7 ''a''" and "src \<equiv> UDPAddr ip 7 ''b''"
  defines "h1 \<equiv> snd (register (Some (TCPAddr ip 50000 ''a'')) None newUDPHub)"
  defines "h2 \<equiv> snd (dispatch c h1)"
  defines "h3 \<equiv> snd (dispatch src h2)"
  shows "us_done (sess (unregister 0 h3) 0) \<and> fst (dispatch src (unregister 0 h3)) = Some 0"
proof -
  have diff: "addr_str c \<noteq> addr_str src"
    by (simp add: c_def src_def JoinHostPort_def zoned_def ipEmptyString_def ip_def)
  have ne: "ip \<noteq> []" by (simp add: ip_def)
  have h1: "h1 = \<lparr>hb_sess = [0 \<mapsto> \<lparr>us_peerIP = ip, us_expect = None, us_client = None, us_done = False\<rparr>],
      hb_next = 1, hb_pending = [0], hb_by = []\<rparr>"
    by (simp add: h1_def register_def newUDPHub_def Let_def)
  have h2: "h2 = \<lparr>hb_sess = [0 \<mapsto> \<lparr>us_peerIP = ip, us_expect = None, us_client = Some c, us_done = False\<rparr>],
      hb_next = 1, hb_pending = [], hb_by = [(addr_str c, 0)]\<rparr>"
    unfolding h2_def h1 using ne
    by (simp add: c_def dispatch_def lookupPinned_def exactMatch_def wildMatch_def udpAllowed_def sess_def
        pinLocked_def map_set_def Let_def del: addr_str.simps)
  have h3: "hb_by h3 = [(addr_str src, 0), (addr_str c, 0)]" "hb_sess h3 = hb_sess h2"
    unfolding h3_def h2 using diff
    by (simp_all add: c_def src_def dispatch_def lookupPinned_def sess_def map_set_def Let_def del: addr_str.simps)
  show ?thesis
    using diff h3 h2
    by (auto simp: unregister_def stop_def sess_def dispatch_def lookupPinned_def Let_def)
qed

section \<open>The datagram header\<close>

lemma uint16_bytes: "0 \<le> port \<Longrightarrow> port < 65536 \<Longrightarrow> uint (uint16_of port) = port"
  by (simp add: uint16_of_def uint_word_of_int take_bit_eq_mod)

text \<open>
  The layout of RFC 1928 for a datagram, independent of the code: two reserved bytes, fragment
  number 0, the address type with its address, the port, the payload. \<open>socksTarget\<close> is the
  \<open>net.Addr\<close> a printed host stands for.
\<close>

definition socksTarget :: "string \<Rightarrow> u16 \<Rightarrow> addr" where
  "socksTarget host port =
     (case ParseIP host of Some ip \<Rightarrow> UDPAddr ip (uint port) [] | None \<Rightarrow> HostAddr host (uint port))"

definition socks_layout :: "bytes \<Rightarrow> addr \<Rightarrow> bytes \<Rightarrow> bool" where
  "socks_layout b d p \<longleftrightarrow> (\<exists>r0 r1 port.
     (\<exists>v. length v = 4 \<and> b = [r0, r1, 0, 1] @ v @ be16 port @ p \<and> d = UDPAddr (v4Prefix @ v) (uint port) [])
     \<or> (\<exists>v. length v = 16 \<and> b = [r0, r1, 0, 4] @ v @ be16 port @ p \<and> d = UDPAddr v (uint port) [])
     \<or> (\<exists>h. length h < 256 \<and> b = [r0, r1, 0, 3, word_of_nat (length h)] @ str_bytes h @ be16 port @ p
          \<and> d = socksTarget h port))"

lemma two_bytes_at: "i + 2 \<le> length b \<Longrightarrow> drop i b = be16 (de16 (b ! i) (b ! (i + 1))) @ drop (i + 2) b"
  by (simp add: be16_de16 Cons_nth_drop_Suc)

lemma cut3: "4 \<le> i \<Longrightarrow> i + 2 \<le> length b \<Longrightarrow>
  b = [b ! 0, b ! 1, b ! 2, b ! 3] @ slice b 4 i @ be16 (de16 (b ! i) (b ! (i + 1))) @ drop (i + 2) b"
proof -
  assume i: "4 \<le> i" "i + 2 \<le> length b"
  have "4 \<le> length b" using i by simp
  then obtain w x y z r where "b = w # x # y # z # r"
    by (auto simp: numeral_eq_Suc Suc_le_length_iff)
  then have "b = [b ! 0, b ! 1, b ! 2, b ! 3] @ drop 4 b" by simp
  also have "drop 4 b = slice b 4 i @ drop i b" using i by (simp add: slice_append_drop)
  finally show ?thesis using two_bytes_at [OF i(2)] by simp
qed

lemma parse_layout:
  assumes "parseSOCKSUDP b = Inr (host, port, p)"
  shows "socks_layout b (socksTarget host port) p"
proof -
  from assms consider
      (v4) "b ! 3 = 1" "10 \<le> length b" "host = IPString (slice b 4 8)" "port = de16 (b ! 8) (b ! 9)" "p = drop 10 b"
    | (v6) "b ! 3 = 4" "22 \<le> length b" "host = IPString (slice b 4 20)" "port = de16 (b ! 20) (b ! 21)" "p = drop 22 b"
    | (name) n where "b ! 3 = 3" "n = unat (b ! 4)" "7 + n \<le> length b" "host = bytes_str (slice b 5 (5 + n))"
        "port = de16 (b ! (5 + n)) (b ! (5 + n + 1))" "p = drop (5 + n + 2) b"
    by (auto simp: parseSOCKSUDP_def Let_def split: if_splits)
  moreover have "b ! 2 = 0" using assms by (auto simp: parseSOCKSUDP_def Let_def split: if_splits)
  ultimately show ?thesis
  proof cases
    case v4
    have l: "length (slice b 4 8) = 4" using v4 by simp
    then have "socksTarget host port = UDPAddr (v4Prefix @ slice b 4 8) (uint port) []"
      using ParseIP_IPString [of "slice b 4 8"] by (simp add: v4(3) socksTarget_def To16_def del: ParseIP.simps)
    moreover have "b = [b ! 0, b ! 1, 0, 1] @ slice b 4 8 @ be16 port @ p"
      using cut3 [of 8 b] v4 \<open>b ! 2 = 0\<close> by simp
    ultimately show ?thesis using l unfolding socks_layout_def by blast
  next
    case v6
    have l: "length (slice b 4 20) = 16" using v6 by simp
    then have "socksTarget host port = UDPAddr (slice b 4 20) (uint port) []"
      using ParseIP_IPString [of "slice b 4 20"] by (simp add: v6(3) socksTarget_def To16_def del: ParseIP.simps)
    moreover have "b = [b ! 0, b ! 1, 0, 4] @ slice b 4 20 @ be16 port @ p"
      using cut3 [of 20 b] v6 \<open>b ! 2 = 0\<close> by simp
    ultimately show ?thesis using l unfolding socks_layout_def by blast
  next
    case name
    have l: "length host = n" "n < 256" using name unat_byte_less [of "b ! 4"] by simp_all
    have "slice b 4 (5 + n) = b ! 4 # slice b 5 (5 + n)"
      using name(3) by (simp add: slice_def Cons_nth_drop_Suc [symmetric])
    then have "b = [b ! 0, b ! 1, 0, 3, b ! 4] @ str_bytes host @ be16 port @ p"
      using cut3 [of "5 + n" b] name \<open>b ! 2 = 0\<close> by simp
    moreover have "b ! 4 = word_of_nat (length host)" using name(2) l by simp
    ultimately show ?thesis using l unfolding socks_layout_def by metis
  qed
qed

text \<open>
  The address a receiver sees in the header of a datagram from \<open>a\<close>, for the sources that can be
  named there.
\<close>

fun seen_as :: "addr \<Rightarrow> addr option" where
  "seen_as (UDPAddr ip port zone) =
     (if 0 \<le> port \<and> port < 65536 then map_option (\<lambda>x. UDPAddr x port []) (To16 ip) else None)"
| "seen_as (HostAddr host port) =
     (if 0 \<le> port \<and> port < 65536 \<and> host_ok host \<and> length host \<le> 255
      then Some (socksTarget host (uint16_of port)) else None)"
| "seen_as _ = None"

lemma encode_host_layout:
  assumes "ParseIP host = None \<Longrightarrow> length host \<le> 255"
  shows "socks_layout ([0, 0, 0]
      @ (case ParseIP host of
           Some ip \<Rightarrow> (case To4 ip of Some v4 \<Rightarrow> 1 # v4 | None \<Rightarrow> 4 # the (To16 ip))
         | None \<Rightarrow> let h = take 255 host in 3 # word_of_nat (length h) # str_bytes h)
      @ be16 port @ p) (socksTarget host port) p"
proof (cases "ParseIP host")
  case None
  with assms have "[0, 0, 0, 3, word_of_nat (length host)] @ str_bytes host @ be16 port @ p
      = [0, 0, 0] @ (3 # word_of_nat (length host) # str_bytes host) @ be16 port @ p" "length host < 256" by auto
  with None assms show ?thesis unfolding socks_layout_def
    by (intro exI [of _ 0] exI [of _ port] disjI2 exI [of _ host]) (simp add: Let_def)
next
  case (Some ip)
  note l = ParseIP_length [OF Some]
  show ?thesis
  proof (cases "To4 ip")
    case None
    with Some l show ?thesis unfolding socks_layout_def
      by (intro exI [of _ 0] exI [of _ port] disjI2 disjI1 exI [of _ ip])
        (simp add: To16_def socksTarget_def del: ParseIP.simps)
  next
    case (Some v)
    with l have "ip = v4Prefix @ v" by (auto simp: To4_def split: if_splits) (metis append_take_drop_id)
    with Some \<open>ParseIP host = Some ip\<close> To4_length [OF Some] show ?thesis unfolding socks_layout_def
      by (intro exI [of _ 0] exI [of _ port] disjI1 exI [of _ v]) (simp add: socksTarget_def del: ParseIP.simps)
  qed
qed

lemma encode_layout:
  assumes "seen_as a = Some d"
  shows "socks_layout (encodeSOCKSUDP (Some a) p) d p"
proof (cases a)
  case (UDPAddr ip port zone)
  with assms obtain x where x: "To16 ip = Some x" "d = UDPAddr x port []" "0 \<le> port" "port < 65536"
    by (auto split: if_splits)
  then have P: "ParseIP (IPString ip) = Some x" using ParseIP_IPString [of ip] by (auto simp: To16_def split: if_splits)
  with x have "d = socksTarget (IPString ip) (uint16_of port)"
    by (simp add: socksTarget_def uint16_bytes del: ParseIP.simps)
  with P encode_host_layout [of "IPString ip" "uint16_of port" p] UDPAddr show ?thesis
    by (simp add: encodeSOCKSUDP_def Let_def del: ParseIP.simps)
next
  case (HostAddr host port)
  with assms have h: "0 \<le> port" "port < 65536" "host_ok host" "length host \<le> 255" "d = socksTarget host (uint16_of port)"
    by (auto split: if_splits)
  have "SplitHostPort (JoinHostPort host (Itoa port)) = Some (host, Itoa port)"
    by (rule SplitHostPort_Join) (use h in \<open>auto simp: Itoa_def\<close>)
  moreover have "Atoi_value (Itoa port) = port"
    by (rule Atoi_value_Some, rule Atoi_Itoa) (use h in auto)
  ultimately show ?thesis using encode_host_layout [of host "uint16_of port" p] h HostAddr
    by (simp add: encodeSOCKSUDP_def Let_def del: ParseIP.simps)
qed (use assms in auto)

text \<open>
  Replies relayed to the client carry their source: for every IPv4 source address, and for
  every host name the resolver does not take for an address (up to 255 bytes, no brackets),
  parsing the header written by \<open>encodeSOCKSUDP\<close> gives back the printed host, the port and the
  payload unchanged.
\<close>
theorem encodeSOCKSUDP_parses_back:
  assumes "0 \<le> port" and "port < 65536"
  shows "(To4 ip = Some v \<longrightarrow>
            parseSOCKSUDP (encodeSOCKSUDP (Some (UDPAddr ip port zone)) payload)
              = Inr (v4String v, uint16_of port, payload))
       \<and> (ParseIP host = None \<and> host_ok host \<and> length host \<le> 255 \<longrightarrow>
            parseSOCKSUDP (encodeSOCKSUDP (Some (HostAddr host port)) payload)
              = Inr (host, uint16_of port, payload))"
proof (intro conjI impI)
  assume v: "To4 ip = Some v"
  then have l: "length v = 4" by (rule To4_length)
  have s: "IPString ip = v4String v" using v by (auto simp: IPString_def To4_def split: if_splits)
  obtain a b c d where abcd: "v = [a, b, c, d]" using l by (auto simp: length_Suc_conv numeral_eq_Suc)
  have "IPString v = v4String v" using l by (rule IPString_v4)
  then show "parseSOCKSUDP (encodeSOCKSUDP (Some (UDPAddr ip port zone)) payload)
      = Inr (v4String v, uint16_of port, payload)"
    using ParseIP_v4String [OF l]
    by (simp add: encodeSOCKSUDP_def s Let_def abcd parseSOCKSUDP_def slice_def be16_def
        del: ParseIP.simps)
next
  assume h: "ParseIP host = None \<and> host_ok host \<and> length host \<le> 255"
  have "SplitHostPort (JoinHostPort host (Itoa port)) = Some (host, Itoa port)"
    by (rule SplitHostPort_Join) (use h assms in \<open>auto simp: Itoa_def\<close>)
  moreover have "Atoi_value (Itoa port) = port"
    by (rule Atoi_value_Some, rule Atoi_Itoa) (use assms in auto)
  moreover have "unat (word_of_nat (length host) :: byte) = length host" using h by (simp add: unat_of_nat)
  ultimately show "parseSOCKSUDP (encodeSOCKSUDP (Some (HostAddr host port)) payload)
      = Inr (host, uint16_of port, payload)"
    using h
    by (simp add: encodeSOCKSUDP_def Let_def parseSOCKSUDP_def slice_def be16_def nth_append drop_Cons'
        del: ParseIP.simps)
qed

theorem encodeSOCKSUDP_parses_back_witness:
  "parseSOCKSUDP (encodeSOCKSUDP (Some (UDPAddr [192, 0, 2, 1] 53 [])) [7, 8])
     = Inr (v4String [192, 0, 2, 1], uint16_of 53, [7, 8])"
  using encodeSOCKSUDP_parses_back [of 53 "[192, 0, 2, 1]" "[192, 0, 2, 1]" "[]" "[7, 8]"]
  by (simp add: To4_def)

end
