(* ===== verification/Snell_Udp.thy ===== *)
theory Snell_Udp
  imports Snell_Conn Udp_Hub
begin

text \<open>
  UDP over a snell stream, \<open>internal/snell/udp.go\<close>: the header in front of every datagram, the
  reply header, and \<open>PacketConn\<close>, which sends one datagram per frame.
\<close>

section \<open>Wire formats\<close>

datatype udp_conn_err =
    PayloadTooLarge
  | AddressInvalid
  | UdpHostInvalid
  | ResponseEmpty
  | ResponseShort byte
  | ResponseAddress byte
  | AddrMalformed
  | AddrPort
  | UdpStream snell_err

definition cmdUDPForward :: byte where "cmdUDPForward = 1"

definition encodeUDPRequest :: "string \<Rightarrow> u16 \<Rightarrow> bytes \<Rightarrow> udp_conn_err + bytes" where
  "encodeUDPRequest host port payload =
     (if maxPayload - 32 < length payload then Inl PayloadTooLarge
      else
        sbind
          (case ParseIP host of
             Some ip \<Rightarrow>
               (case To4 ip of
                  Some v4 \<Rightarrow> Inr ([0, 4] @ v4)
                | None \<Rightarrow>
                    (case To16 ip of
                       None \<Rightarrow> Inl AddressInvalid
                     | Some v6 \<Rightarrow> Inr ([0, 6] @ v6)))
           | None \<Rightarrow>
               if host = [] \<or> 255 < length host then Inl UdpHostInvalid
               else Inr (word_of_nat (length host) # str_bytes host))
          (\<lambda>target. Inr ([cmdUDPForward] @ target @ be16 port @ payload)))"

definition parseUDPResponse :: "bytes \<Rightarrow> udp_conn_err + addr \<times> bytes" where
  "parseUDPResponse pkt =
     (let finish = (\<lambda>n. Inr (UDPAddr (slice pkt 1 (1 + n)) (uint (de16 (pkt ! (1 + n)) (pkt ! (2 + n)))) [],
                             drop (1 + n + 2) pkt)) in
      if length pkt < 1 then Inl ResponseEmpty
      else if pkt ! 0 = 4 then
        (if length pkt < 1 + 4 + 2 then Inl (ResponseShort 4) else finish 4)
      else if pkt ! 0 = 6 then
        (if length pkt < 1 + 16 + 2 then Inl (ResponseShort 6) else finish 16)
      else Inl (ResponseAddress (pkt ! 0)))"

definition addrHostPort :: "addr \<Rightarrow> udp_conn_err + string \<times> u16" where
  "addrHostPort a =
     (case a of
        UDPAddr ip port _ \<Rightarrow> Inr (IPString ip, uint16_of port)
      | TCPAddr ip port _ \<Rightarrow> Inr (IPString ip, uint16_of port)
      | _ \<Rightarrow>
          (case SplitHostPort (addr_str a) of
             None \<Rightarrow> Inl AddrMalformed
           | Some (host, ps) \<Rightarrow>
               (case Atoi ps of
                  None \<Rightarrow> Inl AddrPort
                | Some n \<Rightarrow> if n < 0 \<or> 65535 < n then Inl AddrPort else Inr (host, uint16_of n))))"

section \<open>\<open>PacketConn\<close>\<close>

definition WriteTo :: "prims \<Rightarrow> bytes \<Rightarrow> addr \<Rightarrow> conn \<Rightarrow> (udp_conn_err + nat) \<times> conn" where
  "WriteTo P p a c =
     (case sbind (addrHostPort a) (\<lambda>(host, port). encodeUDPRequest host port p) of
        Inl e \<Rightarrow> (Inl e, c)
      | Inr pkt \<Rightarrow>
          (case WritePacket P pkt c of
             (Inl e, c') \<Rightarrow> (Inl (UdpStream e), c')
           | (Inr _, c') \<Rightarrow> (Inr (length p), c')))"

definition ReadFrom :: "prims \<Rightarrow> nat \<Rightarrow> conn \<Rightarrow> (udp_conn_err + bytes \<times> addr) \<times> conn" where
  \<comment> \<open>into a buffer of \<open>k\<close> bytes; what does not fit is dropped\<close>
  "ReadFrom P k c =
     (case ReadPacket P c of
        (Inl e, c') \<Rightarrow> (Inl (UdpStream e), c')
      | (Inr pkt, c') \<Rightarrow> (sbind (parseUDPResponse pkt) (\<lambda>(a, payload). Inr (take k payload, a)), c'))"

section \<open>The other end\<close>

text \<open>How a server reads a request, and how it heads a reply.\<close>

datatype udp_target = TargetIP ip | TargetName string

definition targetOf :: "string \<Rightarrow> udp_target" where
  "targetOf host =
     (case ParseIP host of
        None \<Rightarrow> TargetName host
      | Some ip \<Rightarrow> TargetIP (case To4 ip of Some v4 \<Rightarrow> v4 | None \<Rightarrow> ip))"

definition tailOf :: "udp_target \<Rightarrow> bytes \<Rightarrow> (udp_target \<times> u16 \<times> bytes) option" where
  "tailOf t rest =
     (case rest of a # b # payload \<Rightarrow> Some (t, de16 a b, payload) | _ \<Rightarrow> None)"

definition readUDPRequest :: "bytes \<Rightarrow> (udp_target \<times> u16 \<times> bytes) option" where
  "readUDPRequest pkt =
     (case pkt of
        cmd # l # rest \<Rightarrow>
          if cmd \<noteq> cmdUDPForward then None
          else if l \<noteq> 0 then tailOf (TargetName (bytes_str (take (unat l) rest))) (drop (unat l) rest)
          else (case rest of
                  [] \<Rightarrow> None
                | k # rest \<Rightarrow>
                    if k = 4 then tailOf (TargetIP (take 4 rest)) (drop 4 rest)
                    else if k = 6 then tailOf (TargetIP (take 16 rest)) (drop 16 rest)
                    else None)
      | _ \<Rightarrow> None)"

definition udpResponse :: "ip \<times> u16 \<Rightarrow> bytes" where
  "udpResponse = (\<lambda>(ip, port). (if length ip = 4 then 4 else 6) # ip @ be16 port)"

lemma tailOf_be16 [simp]: "tailOf t (be16 port @ payload) = Some (t, port, payload)"
  by (simp add: tailOf_def be16_def)

lemma word8_of_length_0: "n \<le> 255 \<Longrightarrow> (word_of_nat n :: byte) = 0 \<longleftrightarrow> n = 0"
  by (simp add: word_unat_eq_iff)

lemma encodeUDPRequest_cases:
  assumes "encodeUDPRequest host port payload = Inr pkt"
  obtains (v4) ip v where "ParseIP host = Some ip" "To4 ip = Some v" "length v = 4"
      "pkt = [cmdUDPForward, 0, 4] @ v @ be16 port @ payload" "length payload \<le> maxPayload - 32"
    | (v6) ip where "ParseIP host = Some ip" "To4 ip = None" "length ip = 16"
      "pkt = [cmdUDPForward, 0, 6] @ ip @ be16 port @ payload" "length payload \<le> maxPayload - 32"
    | (name) "ParseIP host = None" "host \<noteq> []" "length host \<le> 255"
      "pkt = [cmdUDPForward, word_of_nat (length host)] @ str_bytes host @ be16 port @ payload"
      "length payload \<le> maxPayload - 32"
proof (cases "ParseIP host")
  case None
  with assms name show thesis
    by (auto simp: encodeUDPRequest_def split: if_splits)
next
  case (Some ip)
  from ParseIP_To4_or_16 [OF Some] assms Some v4 v6 show thesis
    by (auto simp: encodeUDPRequest_def split: if_splits)
qed

text \<open>
  A UDP request names its destination and carries its payload: \<open>encodeUDPRequest\<close> succeeds
  exactly when the payload has at most 16351 bytes and the host is an IP address or a name of 1
  to 255 bytes, and a reader of the packet gets back the destination (an IPv4 address in any
  notation as four bytes), the port and the payload; for an IP destination the packet always
  fits one frame of the stream, so \<open>WritePacket\<close> never refuses it.
\<close>
lemma udp_request_reads_back:
  "(encodeUDPRequest host port payload = Inr pkt \<longrightarrow>
      readUDPRequest pkt = Some (targetOf host, port, payload)
      \<and> (ParseIP host \<noteq> None \<longrightarrow> length pkt \<le> maxPayload))
   \<and> ((\<exists>pkt. encodeUDPRequest host port payload = Inr pkt) \<longleftrightarrow>
        length payload \<le> 16351 \<and> (ParseIP host \<noteq> None \<or> (host \<noteq> [] \<and> length host \<le> 255)))"
proof (intro conjI impI)
  assume "encodeUDPRequest host port payload = Inr pkt"
  then show "readUDPRequest pkt = Some (targetOf host, port, payload)"
    by (cases rule: encodeUDPRequest_cases)
      (simp_all add: readUDPRequest_def targetOf_def word8_of_length_0 del: ParseIP.simps)
next
  assume "encodeUDPRequest host port payload = Inr pkt" and "ParseIP host \<noteq> None"
  then show "length pkt \<le> maxPayload"
    by (cases rule: encodeUDPRequest_cases)
      (simp_all add: be16_def maxPayload_def del: ParseIP.simps)
next
  show "(\<exists>pkt. encodeUDPRequest host port payload = Inr pkt) \<longleftrightarrow>
        length payload \<le> 16351 \<and> (ParseIP host \<noteq> None \<or> (host \<noteq> [] \<and> length host \<le> 255))"
    using ParseIP_To4_or_16 [of host]
    by (auto simp: encodeUDPRequest_def maxPayload_def sbind_eq_Inr simp del: ParseIP.simps
        split: option.splits if_splits)
qed

lemma parseUDPResponse_at:
  "length ip = 4 \<Longrightarrow> parseUDPResponse (4 # ip @ x # y # rest) = Inr (UDPAddr ip (uint (de16 x y)) [], rest)"
  "length ip = 16 \<Longrightarrow> parseUDPResponse (6 # ip @ x # y # rest) = Inr (UDPAddr ip (uint (de16 x y)) [], rest)"
  by (simp_all add: parseUDPResponse_def Let_def slice_def nth_append drop_Cons')

lemma split_header:
  assumes "n + 3 \<le> length pkt"
  obtains ip x y rest where "length ip = n" "pkt = hd pkt # ip @ x # y # rest"
proof -
  from assms obtain t q where q: "pkt = t # q" "n + 2 \<le> length q" by (cases pkt) auto
  then have "2 \<le> length (drop n q)" by simp
  then obtain x y rest where "drop n q = x # y # rest"
    by (cases "drop n q") (auto simp: Suc_le_length_iff numeral_2_eq_2)
  then have "q = take n q @ x # y # rest" by (metis append_take_drop_id)
  with q show thesis by (intro that [of "take n q"]) auto
qed

text \<open>The replies \<open>parseUDPResponse\<close> accepts are exactly the ones with a complete header.\<close>

lemma parseUDPResponse_iff:
  "parseUDPResponse pkt = Inr (a, payload) \<longleftrightarrow>
     (\<exists>ip port. (length ip = 4 \<or> length ip = 16) \<and> a = UDPAddr ip (uint port) []
        \<and> pkt = udpResponse (ip, port) @ payload)" (is "?l \<longleftrightarrow> ?r")
proof
  assume ?r
  then show ?l by (auto simp: udpResponse_def be16_def parseUDPResponse_at)
next
  assume l: ?l
  then have "\<exists>n. (n = 4 \<and> hd pkt = 4 \<or> n = 16 \<and> hd pkt = 6) \<and> n + 3 \<le> length pkt"
    by (cases pkt) (auto simp: parseUDPResponse_def Let_def split: if_splits)
  then obtain n where n: "n = 4 \<and> hd pkt = 4 \<or> n = 16 \<and> hd pkt = 6" "n + 3 \<le> length pkt" by blast
  from n(2) obtain ip x y rest where
    pkt: "length ip = n" "pkt = hd pkt # ip @ x # y # rest" by (rule split_header)
  have "a = UDPAddr ip (uint (de16 x y)) [] \<and> payload = rest"
    using l n(1) pkt parseUDPResponse_at [of ip x y rest] by (metis Inr_inject prod.inject)
  moreover have "pkt = udpResponse (ip, de16 x y) @ rest"
    using n(1) pkt by (auto simp: udpResponse_def be16_de16)
  ultimately show ?r using n(1) pkt(1) by blast
qed

interpretation udp_reply: codec udpResponse
  "\<lambda>pkt. case parseUDPResponse pkt of
      Inr (UDPAddr ip port _, payload) \<Rightarrow> Some ((ip, word_of_int port), payload) | _ \<Rightarrow> None"
  "\<lambda>(ip, port). length ip = 4 \<or> length ip = 16"
proof
  fix x :: "ip \<times> u16" and rest
  assume "case x of (ip, port) \<Rightarrow> length ip = 4 \<or> length ip = 16"
  then have "parseUDPResponse (udpResponse x @ rest) = Inr (UDPAddr (fst x) (uint (snd x)) [], rest)"
    using parseUDPResponse_iff [of "udpResponse x @ rest" "UDPAddr (fst x) (uint (snd x)) []" rest]
    by (cases x) auto
  then show "(case parseUDPResponse (udpResponse x @ rest) of
      Inr (UDPAddr ip port _, payload) \<Rightarrow> Some ((ip, word_of_int port), payload) | _ \<Rightarrow> None) = Some (x, rest)"
    by simp
qed

section \<open>Datagrams over the stream\<close>

lemma WritePacket_frame:
  assumes "c_w c = Some w" and "WritePacket P b c = (Inr n, c')"
  obtains w' padding pre where
    "c_w c' = Some w'" "chunk_ok (b, padding)" "framePrefix P w = Inr pre"
    "snk_data (w_sink w') = snk_data (w_sink w) @ pre @ sealFrame P (w_key w) (w_nonce w) (b, padding)"
    "w_nonce w' = frameNonce (b, padding) (w_nonce w)" "same_conn w w'"
proof -
  let ?pad = "if \<not> w_saltSent w \<and> 0 < length b then unat (w_initPad w) else 0"
  from assms obtain u w' where w': "writeFrame P b ?pad w = (Inr u, w')" "c_w c' = Some w'"
    by (auto simp: WritePacket_def ebind_def needWriter_def onWriter_def writePacketFrame_def Let_def
        split: if_splits prod.splits sum.splits option.splits)
  from w'(1) show thesis by (rule writeFrame_Inr) (use w'(2) that in blast)
qed

text \<open>
  The destination an address stands for: four bytes for an IPv4 address, also for one in the
  mapped 16-byte form, sixteen bytes for any other IPv6 address, and the name for a host that is
  not an IP address; a zone is not part of it.
\<close>

definition ipTarget :: "ip \<Rightarrow> udp_target option" where
  "ipTarget ip =
     (if length ip = 4 then Some (TargetIP ip)
      else if length ip \<noteq> 16 then None
      else if take 12 ip = v4Prefix then Some (TargetIP (drop 12 ip))
      else Some (TargetIP ip))"

fun destination :: "addr \<Rightarrow> (udp_target \<times> int) option" where
  "destination (UDPAddr ip port zone) = map_option (\<lambda>t. (t, port)) (ipTarget ip)"
| "destination (TCPAddr ip port zone) = map_option (\<lambda>t. (t, port)) (ipTarget ip)"
| "destination (HostAddr host port) =
     (case ParseIP host of
        Some ip \<Rightarrow> if host_ok host then map_option (\<lambda>t. (t, port)) (ipTarget ip) else None
      | None \<Rightarrow> if host_ok host \<and> host \<noteq> [] \<and> length host \<le> 255 then Some (TargetName host, port) else None)"
| "destination _ = None"

lemma targetOf_ParseIP:
  assumes "ParseIP host = Some ip16" and "To16 ip = Some ip16" and "ipTarget ip = Some t"
  shows "targetOf host = t"
  using assms by (auto simp: targetOf_def ipTarget_def To4_def To16_def simp del: ParseIP.simps split: if_splits)

lemma targetOf_IPString: "ipTarget ip = Some t \<Longrightarrow> ParseIP (IPString ip) = To16 ip \<and> targetOf (IPString ip) = t"
proof -
  assume t: "ipTarget ip = Some t"
  then have len: "length ip = 4 \<or> length ip = 16" by (auto simp: ipTarget_def split: if_splits)
  then have "ParseIP (IPString ip) = To16 ip" by (rule ParseIP_IPString)
  moreover obtain ip16 where "To16 ip = Some ip16" using len by (auto simp: To16_def)
  ultimately show ?thesis using targetOf_ParseIP [of "IPString ip" ip16 ip t] t by (simp del: ParseIP.simps)
qed

lemma addrHostPort_Host:
  assumes "host_ok host" shows "addrHostPort (HostAddr host (uint (port :: u16))) = Inr (host, port)"
proof -
  have "0 \<le> uint port \<and> uint port < 65536" using uint_lt2p [of port] by simp
  moreover have "port_ok (Itoa (uint port))" by (simp add: Itoa_def)
  ultimately show ?thesis
    using assms by (simp add: addrHostPort_def SplitHostPort_Join Atoi_Itoa uint16_of_def)
qed

lemma addrHostPort_destination:
  assumes "destination a = Some (t, uint port)"
  obtains host where "addrHostPort a = Inr (host, port)" "targetOf host = t"
    "ParseIP host \<noteq> None \<or> t = TargetName host \<and> host \<noteq> [] \<and> length host \<le> 255"
proof (cases a)
  case (UDPAddr ip p z)
  with assms that [of "IPString ip"] targetOf_IPString [of ip t] show thesis
    by (auto simp: addrHostPort_def uint16_of_def To16_def ipTarget_def simp del: ParseIP.simps split: if_splits)
next
  case (TCPAddr ip p z)
  with assms that [of "IPString ip"] targetOf_IPString [of ip t] show thesis
    by (auto simp: addrHostPort_def uint16_of_def To16_def ipTarget_def simp del: ParseIP.simps split: if_splits)
next
  case (HostAddr host p)
  with assms have h: "host_ok host" "p = uint port" by (auto simp del: ParseIP.simps split: option.splits if_splits)
  show thesis
  proof (cases "ParseIP host")
    case None
    with assms HostAddr h that [of host] addrHostPort_Host [OF h(1)] show thesis
      by (simp add: targetOf_def del: ParseIP.simps split: if_splits)
  next
    case (Some ip)
    then have "To16 ip = Some ip" using ParseIP_length [OF Some] by (simp add: To16_def)
    with Some assms HostAddr h that [of host] addrHostPort_Host [OF h(1)] targetOf_ParseIP [OF Some, of ip t] show thesis
      by (simp del: ParseIP.simps)
  qed
qed (use assms in auto)

text \<open>
  A writer some calls after its making, on a transport that takes every byte and with entropy for
  salt and padding.
\<close>

definition live_writer :: "prims \<Rightarrow> v4writer \<Rightarrow> bool" where
  "live_writer P w \<longleftrightarrow> (\<exists>snk psk exporter version ds clk ops w0.
     newWriter P snk psk exporter version ds clk = Some w0 \<and> snk_script snk = [] \<and> psk \<noteq> []
     \<and> 17 + 8 * 511 + 1 \<le> length ds \<and> w = writer_run P ops w0)"

lemma live_writer_ready: "live_writer P w \<Longrightarrow> writer_ready w"
  unfolding live_writer_def by (metis writer_run_ready newWriter_ready)

lemma WritePacket_ready:
  assumes "c_w c = Some w" and "writer_ready w" and "length b \<le> maxPayload"
  shows "\<exists>n c'. WritePacket P b c = (Inr n, c')"
proof -
  let ?pad = "if \<not> w_saltSent w \<and> 0 < length b then unat (w_initPad w) else 0"
  obtain w' where "writeFrame P b ?pad w = (Inr (), w')"
    by (rule writeFrame_ready [OF assms(2,3), of ?pad P]) auto
  with assms show ?thesis
    by (simp add: WritePacket_def ebind_def needWriter_def onWriter_def writePacketFrame_def Let_def
        split: prod.splits)
qed

lemma length_encodeUDPRequest:
  assumes "encodeUDPRequest host port payload = Inr pkt"
    and "ParseIP host = None \<longrightarrow> length host + length payload \<le> 16379"
  shows "length pkt \<le> maxPayload"
  using assms(1) by (cases rule: encodeUDPRequest_cases)
    (use assms(2) in \<open>simp_all add: be16_def maxPayload_def del: ParseIP.simps\<close>)

text \<open>
  C22. One datagram is one frame. Take a \<open>PacketConn\<close> whose stream has its writer, and an address
  that stands for an IPv4 or IPv6 destination or a host name. When \<open>WriteTo\<close> reports success it
  reports the whole length, and it has put exactly one frame on the stream (behind salt and
  identity prefix, if it was the first): a reader with the same key and nonce gets from one
  \<open>readFrame\<close>, whatever follows, a packet that names exactly this destination and port and carries
  the payload unchanged, so datagrams are neither merged nor split. A payload above 16351 bytes is
  refused with nothing written; any other is sent, on a transport that takes every byte, if a
  name and the payload together have at most 16379 bytes.
\<close>
theorem WriteTo_one_frame:
  assumes "aead_ok P" and "c_w c = Some w" and "destination a = Some (t, uint port)"
  shows "(WriteTo P p a c = (Inr n, c') \<longrightarrow> n = length p \<and> (\<exists>w' pre wire pkt.
      c_w c' = Some w' \<and> framePrefix P w = Inr pre
    \<and> snk_data (w_sink w') = snk_data (w_sink w) @ pre @ wire
    \<and> (\<forall>rest e. readFrame P (reader_at (w_key w) (w_nonce w) (wire @ rest) e)
          = (Inr pkt, reader_at (w_key w') (w_nonce w') rest e))
    \<and> readUDPRequest pkt = Some (t, port, p)))
    \<and> (16351 < length p \<longrightarrow> WriteTo P p a c = (Inl PayloadTooLarge, c))
    \<and> (length p \<le> 16351 \<and> (\<forall>name. t = TargetName name \<longrightarrow> length name + length p \<le> 16379) \<and> live_writer P w
      \<longrightarrow> (\<exists>c'. WriteTo P p a c = (Inr (length p), c')))"
proof (intro conjI)
  obtain host where host: "addrHostPort a = Inr (host, port)" "targetOf host = t"
    "ParseIP host \<noteq> None \<or> t = TargetName host \<and> host \<noteq> [] \<and> length host \<le> 255"
    by (rule addrHostPort_destination [OF assms(3)])
  show "16351 < length p \<longrightarrow> WriteTo P p a c = (Inl PayloadTooLarge, c)"
    using host(1) by (simp add: WriteTo_def encodeUDPRequest_def maxPayload_def)
  show "length p \<le> 16351 \<and> (\<forall>name. t = TargetName name \<longrightarrow> length name + length p \<le> 16379) \<and> live_writer P w
      \<longrightarrow> (\<exists>c'. WriteTo P p a c = (Inr (length p), c'))"
  proof (intro impI, elim conjE)
    assume a: "length p \<le> 16351" "\<forall>name. t = TargetName name \<longrightarrow> length name + length p \<le> 16379" "live_writer P w"
    with host(3) udp_request_reads_back [of host port p] obtain pkt where
      pkt: "encodeUDPRequest host port p = Inr pkt" by blast
    then have "length pkt \<le> maxPayload"
      by (rule length_encodeUDPRequest) (use host(3) a(2) in auto)
    from WritePacket_ready [OF assms(2) live_writer_ready [OF a(3)] this, of P]
    show "\<exists>c'. WriteTo P p a c = (Inr (length p), c')"
      using host(1) pkt by (auto simp: WriteTo_def)
  qed
  show "WriteTo P p a c = (Inr n, c') \<longrightarrow> n = length p \<and> (\<exists>w' pre wire pkt.
      c_w c' = Some w' \<and> framePrefix P w = Inr pre
    \<and> snk_data (w_sink w') = snk_data (w_sink w) @ pre @ wire
    \<and> (\<forall>rest e. readFrame P (reader_at (w_key w) (w_nonce w) (wire @ rest) e)
          = (Inr pkt, reader_at (w_key w') (w_nonce w') rest e))
    \<and> readUDPRequest pkt = Some (t, port, p))"
  proof
    assume "WriteTo P p a c = (Inr n, c')"
    then obtain pkt k where
      pkt: "encodeUDPRequest host port p = Inr pkt" "WritePacket P pkt c = (Inr k, c')" "n = length p"
      using host(1) by (auto simp: WriteTo_def split: sum.splits prod.splits)
    from WritePacket_frame [OF assms(2) pkt(2)] obtain w' padding pre where
      w': "c_w c' = Some w'" "chunk_ok (pkt, padding)" "framePrefix P w = Inr pre"
      "snk_data (w_sink w') = snk_data (w_sink w) @ pre @ sealFrame P (w_key w) (w_nonce w) (pkt, padding)"
      "w_nonce w' = frameNonce (pkt, padding) (w_nonce w)" "same_conn w w'" by blast
    have "pkt \<noteq> []" using pkt(1) by (cases rule: encodeUDPRequest_cases) auto
    then have "readFrame P (reader_at (w_key w) (w_nonce w)
          (sealFrame P (w_key w) (w_nonce w) (pkt, padding) @ rest) e)
        = (Inr pkt, reader_at (w_key w') (w_nonce w') rest e)" for rest e
      using readFrame_sealFrame [OF assms(1) w'(2)] w'(5,6) by (simp add: same_conn_def)
    with pkt(1,3) w' host(2) udp_request_reads_back [of host port p pkt]
    show "n = length p \<and> (\<exists>w' pre wire pkt.
        c_w c' = Some w' \<and> framePrefix P w = Inr pre
      \<and> snk_data (w_sink w') = snk_data (w_sink w) @ pre @ wire
      \<and> (\<forall>rest e. readFrame P (reader_at (w_key w) (w_nonce w) (wire @ rest) e)
            = (Inr pkt, reader_at (w_key w') (w_nonce w') rest e))
      \<and> readUDPRequest pkt = Some (t, port, p))" by blast
  qed
qed

definition toy_udp_conn :: conn where
  "toy_udp_conn = (toy_conn [0])\<lparr>c_reply := True, c_w := Some toy_running\<rparr>"

definition udp_new_writer :: v4writer where
  "udp_new_writer =
     the (newWriter toy_prims \<lparr>snk_data = [], snk_script = []\<rparr> [5] [] 2 (replicate 5000 9) int)"

theorem WriteTo_one_frame_witness:
  "\<exists>c' w' pre wire pkt.
       WriteTo toy_prims [7, 8] (UDPAddr (0x20 # 1 # replicate 13 0 @ [1]) 53 ''eth0'')
         (toy_udp_conn\<lparr>c_w := Some udp_new_writer\<rparr>) = (Inr 2, c')
     \<and> c_w c' = Some w' \<and> snk_data (w_sink w') = pre @ wire
     \<and> fst (readFrame toy_prims (reader_at (w_key udp_new_writer) (w_nonce udp_new_writer) wire EOF)) = Inr pkt
     \<and> readUDPRequest pkt = Some (TargetIP (0x20 # 1 # replicate 13 0 @ [1]), 53, [7, 8])"
proof -
  let ?c = "toy_udp_conn\<lparr>c_w := Some udp_new_writer\<rparr>" and ?ip = "0x20 # 1 # replicate 13 0 @ [1] :: ip"
  let ?snk = "\<lparr>snk_data = [], snk_script = []\<rparr>"
  have "drop 16 (replicate 5000 (9 :: nat)) = 9 # replicate 4983 9"
    by (simp add: replicate_Suc [symmetric] del: replicate_Suc)
  then have w: "newWriter toy_prims ?snk [5] [] 2 (replicate 5000 9) int = Some udp_new_writer"
    by (simp add: newWriter_def randomBytes_def randInt_def udp_new_writer_def)
  have "live_writer toy_prims udp_new_writer" unfolding live_writer_def
    by (rule exI [of _ ?snk], rule exI [of _ "[5]"], rule exI [of _ "[]"], rule exI [of _ 2],
      rule exI [of _ "replicate 5000 9"], rule exI [of _ int], rule exI [of _ "[]"], rule exI [of _ udp_new_writer])
      (use w in simp)
  moreover have c: "c_w ?c = Some udp_new_writer" by simp
  moreover have t: "ipTarget ?ip = Some (TargetIP ?ip)"
    by (simp add: ipTarget_def v4Prefix_def numeral_eq_Suc)
  then have a: "destination (UDPAddr ?ip 53 ''eth0'') = Some (TargetIP ?ip, uint (53 :: u16))"
    by (simp add: t)
  ultimately obtain c' where c': "WriteTo toy_prims [7, 8] (UDPAddr ?ip 53 ''eth0'') ?c = (Inr 2, c')"
    using WriteTo_one_frame [OF toy_aead c a, of "[7, 8]", THEN conjunct2, THEN conjunct2, THEN mp]
    by (simp add: numeral_2_eq_2) blast
  have snk: "snk_data (w_sink udp_new_writer) = []"
    using w by (auto simp: newWriter_def randomBytes_def split: option.splits if_splits
        dest!: arg_cong [where f = "\<lambda>w. snk_data (w_sink w)"])
  from WriteTo_one_frame [OF toy_aead c a, THEN conjunct1, THEN mp, OF c', THEN conjunct2] obtain w' pre wire pkt where
    "c_w c' = Some w'" "snk_data (w_sink w') = snk_data (w_sink udp_new_writer) @ pre @ wire"
    and r: "\<forall>rest e. readFrame toy_prims (reader_at (w_key udp_new_writer) (w_nonce udp_new_writer) (wire @ rest) e)
          = (Inr pkt, reader_at (w_key w') (w_nonce w') rest e)"
    and "readUDPRequest pkt = Some (TargetIP ?ip, 53, [7, 8])" by blast
  moreover have "fst (readFrame toy_prims (reader_at (w_key udp_new_writer) (w_nonce udp_new_writer) wire EOF)) = Inr pkt"
    using r [THEN spec, of "[]", THEN spec, of EOF] by simp
  ultimately show ?thesis using c' unfolding snk append_Nil by blast
qed

text \<open>
  Replies come back whole: when the next frame of an accepted stream carries a reply header
  for an IPv4 or IPv6 source and a payload, \<open>PacketConn.ReadFrom\<close> returns that source, its port
  and the payload cut to the caller's buffer, and leaves the stream behind the frame; a frame
  is accepted only if it has this form.
\<close>
theorem ReadFrom_reply:
  assumes "aead_ok P" and "c_reply c" and "chunk_ok (pkt, padding)" and "pkt \<noteq> []"
    and "c_r c = Some (reader_at key n (sealFrame P key n (pkt, padding) @ rest) e)"
  shows "c_r (snd (ReadFrom P k c)) = Some (reader_at key (frameNonce (pkt, padding) n) rest e)
    \<and> (fst (ReadFrom P k c) = Inr (d, src) \<longleftrightarrow>
        (\<exists>ip port payload. (length ip = 4 \<or> length ip = 16) \<and> src = UDPAddr ip (uint port) []
           \<and> pkt = udpResponse (ip, port) @ payload \<and> d = take k payload))"
proof -
  have "ReadPacket P c
      = (Inr pkt, c\<lparr>c_r := Some (reader_at key (frameNonce (pkt, padding) n) rest e)\<rparr>)"
    using assms readFrame_sealFrame [OF assms(1,3), of key n rest e]
    by (simp add: ReadPacket_def ReadReply_def ebind_def needReader_def onReader_def takeBuf_def)
      (simp add: reader_at_def)
  then show ?thesis
    using parseUDPResponse_iff [of pkt src]
    by (auto simp: ReadFrom_def sbind_eq_Inr)
qed

theorem ReadFrom_reply_witness:
  "fst (ReadFrom toy_prims 1 (toy_udp_conn\<lparr>c_r := Some (reader_at [1] [0]
      (sealFrame toy_prims [1] [0] (udpResponse ([192, 0, 2, 1], 53) @ [7, 8], []) @ []) EOF)\<rparr>))
     = Inr ([7], UDPAddr [192, 0, 2, 1] 53 [])"
proof -
  let ?pkt = "udpResponse ([192, 0, 2, 1], 53) @ [7, 8]"
  let ?c = "toy_udp_conn\<lparr>c_r := Some (reader_at [1] [0] (sealFrame toy_prims [1] [0] (?pkt, []) @ []) EOF)\<rparr>"
  have "chunk_ok (?pkt, [])" "?pkt \<noteq> []" "c_reply ?c"
    "c_r ?c = Some (reader_at [1] [0] (sealFrame toy_prims [1] [0] (?pkt, []) @ []) EOF)"
    by (simp_all add: chunk_ok_def udpResponse_def maxPayload_def toy_udp_conn_def)
  from ReadFrom_reply [OF toy_aead this(3,1,2,4), of 1 "[7]" "UDPAddr [192, 0, 2, 1] 53 []"]
  show ?thesis
    by (auto intro: exI [of _ 53])
qed

end
