(* ===== verification/Transport.thy ===== *)
theory Transport
  imports Snell_Udp Resolver Websocket
begin

text \<open>
  How a node is dialled (\<open>internal/dialer/ech.go\<close>, \<open>ekm.go\<close>, \<open>packet.go\<close> and the upgrade in
  \<open>ws.go\<close>): TCP, the ECH-TLS handshake with its fallback to HTTP/1.1, the TLS exporter, the
  WebSocket upgrade, and the snell request on top. TCP, uTLS and the HTTP response reader are
  parameters, collected in \<open>outside\<close>; the model keeps a log of the transports opened and closed.
\<close>

section \<open>Nodes\<close>

record node =
  n_Name :: string
  n_Server :: string
  n_Port :: int
  n_PSK :: string
  n_SNI :: string
  n_ECHConfig :: string
  n_ALPN :: string
  n_Path :: string
  n_Fingerprint :: string
  n_IdentityVersion :: int
  n_SkipVerify :: bool
  n_Reuse :: bool
  n_TFO :: bool
  n_UDP :: bool
  n_LegacyFallback :: bool
  n_Preconnect :: int
  n_DNS :: "DNSServer list"
  n_DialIP :: string

definition ALPNSnellECH :: string where "ALPNSnellECH = ''snell-ech/1''"
definition ExporterLabel :: string where "ExporterLabel = ''EXPORTER-Dler-Snell-Identity-v2''"

definition nodeAddr :: "node \<Rightarrow> string" where
  "nodeAddr n =
     (let host = (if n_DialIP n \<noteq> [] then n_DialIP n else n_Server n) in
      JoinHostPort host (Itoa (n_Port n)))"

definition sni :: "node \<Rightarrow> string" where
  "sni n = (if n_SNI n \<noteq> [] then n_SNI n else n_Server n)"

definition alpn :: "node \<Rightarrow> string" where
  "alpn n = (if n_ALPN n \<noteq> [] then n_ALPN n else ALPNSnellECH)"

definition identityVersion :: "node \<Rightarrow> int" where
  "identityVersion n = (if n_IdentityVersion n \<noteq> 0 then n_IdentityVersion n else 2)"

definition fingerprint :: "node \<Rightarrow> string" where
  "fingerprint n = (if n_Fingerprint n \<noteq> [] then n_Fingerprint n else ''chrome'')"

section \<open>The outside\<close>

datatype tr_err =
    DestErr dest_err
  | DialErr nat
  | NoDestination
  | MissingECH
  | ECHBase64
  | ECHShort
  | UnknownFingerprint string
  | HelloErr nat
  | HandshakeErr nat
  | ExporterUnavailable
  | ExporterFailed nat
  | ExporterLen nat
  | WsPathEmpty
  | WsNoRandom
  | WsRequest nat
  | WsResponse nat
  | WsStatus
  | WsAcceptMismatch
  | BadALPN string
  | UdpDisabled string
  | StreamErr snell_err

datatype tcp = Direct nat | Lazy "string list"  \<comment> \<open>\<open>Lazy\<close>: a \<open>tfoConn\<close> over these destinations\<close>

datatype hello_id =
    HelloChrome_Auto | HelloChrome_120 | HelloChrome_106_Shuffle | HelloIOS_Auto
  | HelloSafari_Auto | HelloFirefox_Auto

datatype hello_ext = ALPNExtension "string list" | OtherExtension nat

record tls_config =
  tc_ServerName :: string
  tc_NextProtos :: "string list"
  tc_InsecureSkipVerify :: bool
  tc_ECHConfigList :: bytes

record ws_response =
  wr_status :: nat
  wr_upgrade :: string
  wr_accept :: string

record outside =
  o_dests :: "dest_err + string list"                     \<comment> \<open>\<open>Destinations\<close>\<close>
  o_connect :: "string \<Rightarrow> nat + nat"                      \<comment> \<open>\<open>DialContext\<close>\<close>
  o_build :: "hello_ext list \<Rightarrow> nat + hello_ext list"     \<comment> \<open>\<open>BuildHandshakeState\<close>\<close>
  o_handshake :: "tls_config \<Rightarrow> hello_id \<Rightarrow> hello_ext list \<Rightarrow> nat + string"  \<comment> \<open>negotiated protocol\<close>
  o_ekm :: "(string \<Rightarrow> nat \<Rightarrow> nat + bytes) option"        \<comment> \<open>\<open>connEKM\<close>\<close>
  o_rand :: entropy
  o_wsSend :: "string \<Rightarrow> nat option"
  o_wsResponse :: "nat + ws_response"
  o_sha1 :: "bytes \<Rightarrow> bytes"

datatype log_event = Opened tcp | Closed tcp

section \<open>TCP and TLS\<close>

fun tryDests :: "outside \<Rightarrow> string list \<Rightarrow> tr_err option \<Rightarrow> (tr_err + tcp) \<times> log_event list" where
  \<comment> \<open>the loop of \<open>dialTCP\<close>, \<open>prev\<close> is \<open>last\<close>\<close>
  "tryDests E [] prev = (Inl (case prev of None \<Rightarrow> NoDestination | Some e \<Rightarrow> e), [])"
| "tryDests E (dest # dests) prev =
     (case o_connect E dest of
        Inr c \<Rightarrow> (Inr (Direct c), [Opened (Direct c)])
      | Inl e \<Rightarrow> tryDests E dests (Some (DialErr e)))"

definition dialTCP :: "outside \<Rightarrow> node \<Rightarrow> (tr_err + tcp) \<times> log_event list" where
  "dialTCP E n =
     (case o_dests E of
        Inl e \<Rightarrow> (Inl (DestErr e), [])
      | Inr dests \<Rightarrow>
          if n_TFO n then (Inr (Lazy dests), [Opened (Lazy dests)])
          else tryDests E dests None)"

definition b64_raw_decode :: "string \<Rightarrow> string option" where
  \<comment> \<open>\<open>base64.RawStdEncoding\<close>: no padding\<close>
  "b64_raw_decode s =
     (let t = filter (\<lambda>c. c \<noteq> CHR 0x0A \<and> c \<noteq> CHR 0x0D) s in
      if CHR ''='' \<in> set t \<or> length t mod 4 = 1 then None
      else map_option bytes_str (b64_quanta (t @ replicate ((4 - length t mod 4) mod 4) CHR ''='')))"

definition decodeECH :: "string \<Rightarrow> tr_err + bytes" where
  "decodeECH b64 =
     (if b64 = [] then Inl MissingECH
      else
        case (case b64_decode (TrimSpace b64) of
                None \<Rightarrow> b64_raw_decode (TrimSpace b64) | Some raw \<Rightarrow> Some raw) of
          None \<Rightarrow> Inl ECHBase64
        | Some raw \<Rightarrow> if length raw < 4 then Inl ECHShort else Inr (str_bytes raw))"

definition clientHelloID :: "(string \<Rightarrow> string) \<Rightarrow> string \<Rightarrow> tr_err + hello_id" where
  "clientHelloID L name =
     (let s = ToLower L (TrimSpace name) in
      if s = [] \<or> s = ''chrome'' then Inr HelloChrome_Auto
      else if s = ''chrome133'' then Inr HelloChrome_Auto
      else if s = ''chrome120'' then Inr HelloChrome_120
      else if s = ''chrome106'' then Inr HelloChrome_106_Shuffle
      else if s = ''ios'' then Inr HelloIOS_Auto
      else if s = ''safari'' then Inr HelloSafari_Auto
      else if s = ''firefox'' then Inr HelloFirefox_Auto
      else Inl (UnknownFingerprint name))"

fun setALPN :: "hello_ext list \<Rightarrow> hello_ext list option" where
  \<comment> \<open>the loop of \<open>forceHTTP11ALPN\<close>\<close>
  "setALPN [] = None"
| "setALPN (ALPNExtension ps # exts) = Some (ALPNExtension [''http/1.1''] # exts)"
| "setALPN (x # exts) = map_option (\<lambda>r. x # r) (setALPN exts)"

definition forceHTTP11ALPN :: "outside \<Rightarrow> hello_ext list \<Rightarrow> tr_err + hello_ext list" where
  "forceHTTP11ALPN E exts0 =
     (case o_build E exts0 of
        Inl e \<Rightarrow> Inl (HelloErr e)
      | Inr exts \<Rightarrow>
          let exts' = (case setALPN exts of
                         Some r \<Rightarrow> r | None \<Rightarrow> exts @ [ALPNExtension [''http/1.1'']]) in
          (case o_build E exts' of Inl e \<Rightarrow> Inl (HelloErr e) | Inr r \<Rightarrow> Inr r))"

definition handshakeUTLSRaw ::
  "(string \<Rightarrow> string) \<Rightarrow> outside \<Rightarrow> node \<Rightarrow> string list \<Rightarrow> bool \<Rightarrow> (tr_err + tcp \<times> string) \<times> log_event list" where
  "handshakeUTLSRaw L E n nextProtos websocketALPN =
     (case dialTCP E n of
        (Inl e, evs) \<Rightarrow> (Inl e, evs)
      | (Inr tcp, evs) \<Rightarrow>
          let fail = (\<lambda>e. (Inl e, evs @ [Closed tcp])) in
          (case decodeECH (n_ECHConfig n) of
             Inl e \<Rightarrow> fail e
           | Inr echList \<Rightarrow>
               (case clientHelloID L (fingerprint n) of
                  Inl e \<Rightarrow> fail e
                | Inr hello \<Rightarrow>
                    let cfg = \<lparr>tc_ServerName = sni n, tc_NextProtos = nextProtos,
                               tc_InsecureSkipVerify = n_SkipVerify n, tc_ECHConfigList = echList\<rparr> in
                    (case (if websocketALPN then forceHTTP11ALPN E [] else Inr []) of
                       Inl e \<Rightarrow> fail e
                     | Inr exts \<Rightarrow>
                         (case o_handshake E cfg hello exts of
                            Inl e \<Rightarrow> fail (HandshakeErr e)
                          | Inr proto \<Rightarrow> (Inr (tcp, proto), evs))))))"

section \<open>Exporter and WebSocket\<close>

definition exportFromConn :: "outside \<Rightarrow> node \<Rightarrow> tr_err + bytes option" where
  "exportFromConn E n =
     (if identityVersion n = 1 then Inr None
      else case o_ekm E of
        None \<Rightarrow> Inl ExporterUnavailable
      | Some ekm \<Rightarrow>
          (case ekm ExporterLabel ExporterSize of
             Inl e \<Rightarrow> Inl (ExporterFailed e)
           | Inr out \<Rightarrow> if length out \<noteq> ExporterSize then Inl (ExporterLen (length out)) else Inr (Some out)))"

definition wsGUID :: string where "wsGUID = ''258EAFA5-E914-47DA-95CA-C5AB0DC85B11''"

definition wsRequest :: "node \<Rightarrow> string \<Rightarrow> string" where
  "wsRequest n secKey =
     (let path = (if HasPrefix (n_Path n) ''/'' then n_Path n else ''/'' @ n_Path n) in
      ''GET '' @ path @ '' HTTP/1.1'' @ crlf @ ''Host: '' @ sni n @ crlf @ ''Upgrade: websocket'' @ crlf
      @ ''Connection: Upgrade'' @ crlf @ ''Sec-WebSocket-Version: 13'' @ crlf
      @ ''Sec-WebSocket-Key: '' @ secKey @ crlf @ crlf)"

definition upgradeWebsocket :: "outside \<Rightarrow> node \<Rightarrow> tr_err + unit" where
  "upgradeWebsocket E n =
     (if n_Path n = [] then Inl WsPathEmpty
      else case randomBytes 16 (o_rand E) of
        None \<Rightarrow> Inl WsNoRandom
      | Some (keyB, _) \<Rightarrow>
          let secKey = b64_encode keyB in
          (case o_wsSend E (wsRequest n secKey) of
             Some e \<Rightarrow> Inl (WsRequest e)
           | None \<Rightarrow>
               (case o_wsResponse E of
                  Inl e \<Rightarrow> Inl (WsResponse e)
                | Inr resp \<Rightarrow>
                    if wr_status resp \<noteq> 101 \<or> \<not> fold_is (wr_upgrade resp) ''websocket'' then Inl WsStatus
                    else if wr_accept resp \<noteq> b64_encode (o_sha1 E (str_bytes (secKey @ wsGUID)))
                    then Inl WsAcceptMismatch
                    else Inr ())))"

section \<open>The transport of a node\<close>

datatype stream = TLSStream tcp | WSStream tcp

definition afterHandshake ::
  "outside \<Rightarrow> node \<Rightarrow> tcp \<Rightarrow> string \<Rightarrow> log_event list \<Rightarrow> (tr_err + stream \<times> bytes option) \<times> log_event list" where
  \<comment> \<open>\<open>dialTransport\<close> from \<open>exportFromConn\<close> on\<close>
  "afterHandshake E n conn proto evs =
     (let fail = (\<lambda>e. (Inl e, evs @ [Closed conn]));
          exporter = (case exportFromConn E n of Inr x \<Rightarrow> x | Inl _ \<Rightarrow> None);
          expErr = (case exportFromConn E n of Inl e \<Rightarrow> Some e | Inr _ \<Rightarrow> None) in
      if n_Path n \<noteq> [] \<and> (proto = ''http/1.1'' \<or> proto = [])
      then (case upgradeWebsocket E n of
              Inl e \<Rightarrow> fail e
            | Inr _ \<Rightarrow>
                if identityVersion n \<noteq> 1 \<and> exporter = None \<and> expErr \<noteq> None then fail (the expErr)
                else if identityVersion n = 1 then (Inr (WSStream conn, None), evs)
                else (Inr (WSStream conn, exporter), evs))
      else if proto \<noteq> [] \<and> proto \<noteq> ALPNSnellECH \<and> proto \<noteq> ''http/1.1'' then fail (BadALPN proto)
      else if identityVersion n = 1 then (Inr (TLSStream conn, None), evs)
      else if expErr \<noteq> None then fail (the expErr)
      else (Inr (TLSStream conn, exporter), evs))"

definition dialTransport ::
  "(string \<Rightarrow> string) \<Rightarrow> outside \<Rightarrow> outside \<Rightarrow> node \<Rightarrow> (tr_err + stream \<times> bytes option) \<times> log_event list" where
  \<comment> \<open>the outside as the first handshake and as the fallback meets it\<close>
  "dialTransport L E E2 n =
     (case handshakeUTLSRaw L E n [alpn n] False of
        (Inr (conn, proto), evs) \<Rightarrow> afterHandshake E n conn proto evs
      | (Inl e, evs) \<Rightarrow>
          if n_LegacyFallback n \<and> n_Path n \<noteq> [] \<and> alpn n \<noteq> ''http/1.1''
          then (case handshakeUTLSRaw L E2 n [''http/1.1''] True of
                  (Inl e2, evs2) \<Rightarrow> (Inl e2, evs @ evs2)
                | (Inr (conn, proto), evs2) \<Rightarrow> afterHandshake E2 n conn proto (evs @ evs2))
          else (Inl e, evs))"

fun stream_tcp :: "stream \<Rightarrow> tcp" where
  "stream_tcp (TLSStream t) = t"
| "stream_tcp (WSStream t) = t"

section \<open>No transport is lost\<close>

definition opened :: "log_event list \<Rightarrow> tcp list" where
  "opened evs = List.map_filter (\<lambda>e. case e of Opened t \<Rightarrow> Some t | Closed _ \<Rightarrow> None) evs"

definition closed :: "log_event list \<Rightarrow> tcp list" where
  "closed evs = List.map_filter (\<lambda>e. case e of Opened _ \<Rightarrow> None | Closed t \<Rightarrow> Some t) evs"

lemma opened_simps [simp]:
  "opened [] = []" "opened (a @ b) = opened a @ opened b"
  "opened [Opened t] = [t]" "opened [Closed t] = []"
  by (simp_all add: opened_def List.map_filter_def)

lemma closed_simps [simp]:
  "closed [] = []" "closed (a @ b) = closed a @ closed b"
  "closed [Opened t] = []" "closed [Closed t] = [t]"
  by (simp_all add: closed_def List.map_filter_def)

lemma tryDests_log:
  "tryDests E dests prev = (r, evs) \<Longrightarrow>
     closed evs = [] \<and> opened evs = (case r of Inl _ \<Rightarrow> [] | Inr t \<Rightarrow> [t])"
  by (induction E dests prev rule: tryDests.induct) (auto split: sum.splits)

lemma dialTCP_log:
  "dialTCP E n = (r, evs) \<Longrightarrow>
     closed evs = [] \<and> opened evs = (case r of Inl _ \<Rightarrow> [] | Inr t \<Rightarrow> [t])"
  by (auto simp: dialTCP_def split: sum.splits if_splits dest: tryDests_log)

lemma handshake_log:
  "handshakeUTLSRaw L E n ps ws = (r, evs) \<Longrightarrow>
     opened evs = closed evs @ (case r of Inl _ \<Rightarrow> [] | Inr (t, _) \<Rightarrow> [t])
     \<and> (r \<in> range Inr \<longrightarrow> closed evs = [])"
  unfolding handshakeUTLSRaw_def Let_def
  by (auto split: sum.splits prod.splits dest!: dialTCP_log)

text \<open>What \<open>exportFromConn\<close> can return.\<close>

lemma exportFromConn_Inr:
  "exportFromConn E n = Inr x \<Longrightarrow>
     if identityVersion n = 1 then x = None else \<exists>out. x = Some out \<and> length out = ExporterSize"
  by (auto simp: exportFromConn_def split: option.splits sum.splits if_splits)

lemma afterHandshake_cases:
  assumes "afterHandshake E n conn proto evs = (r, evs')"
  shows "(\<exists>e. r = Inl e \<and> evs' = evs @ [Closed conn])
    \<or> (\<exists>s x. r = Inr (s, x) \<and> evs' = evs \<and> stream_tcp s = conn
         \<and> (proto = [] \<or> proto = ''http/1.1'' \<or> proto = ALPNSnellECH)
         \<and> (s = WSStream conn \<longleftrightarrow> n_Path n \<noteq> [] \<and> (proto = [] \<or> proto = ''http/1.1''))
         \<and> (if identityVersion n = 1 then x = None else \<exists>out. x = Some out \<and> length out = ExporterSize))"
  using assms exportFromConn_Inr [of E n]
  unfolding afterHandshake_def Let_def
  by (cases "exportFromConn E n") (auto split: sum.splits if_splits)

lemma dialTransport_exporter:
  "dialTransport L E E2 n = (Inr (s, x), evs) \<Longrightarrow>
     if identityVersion n = 1 then x = None else \<exists>out. x = Some out \<and> length out = ExporterSize"
  unfolding dialTransport_def
  by (auto split: prod.splits sum.splits if_splits dest!: afterHandshake_cases)


section \<open>Requests over the transport\<close>

text \<open>
  \<open>snell.NewConnIdentity\<close> on the returned stream: \<open>io\<close> holds what the stream will deliver, how
  it takes writes, the randomness and the clock of the connection.
\<close>

record conn_io =
  io_src :: source
  io_sink :: sink
  io_rand :: entropy
  io_clock :: "nat \<Rightarrow> int"

definition streamConn :: "node \<Rightarrow> bytes option \<Rightarrow> conn_io \<Rightarrow> conn" where
  "streamConn n exporter i =
     NewConnIdentity (io_src i) (io_sink i) (io_rand i) (io_clock i) (str_bytes (n_PSK n))
       (case exporter of None \<Rightarrow> [] | Some x \<Rightarrow> x) (identityVersion n)"

definition dialRequest :: "prims \<Rightarrow> node \<Rightarrow> string \<Rightarrow> string \<Rightarrow> u16 \<Rightarrow> conn \<Rightarrow> (snell_err + nat) \<times> conn" where
  \<comment> \<open>\<open>switch network\<close>\<close>
  "dialRequest P n network host port =
     (if network = ''udp'' \<or> network = ''udp4'' \<or> network = ''udp6'' then WriteUDP P
      else WriteConnect P host port (n_Reuse n))"

definition Dial ::
  "prims \<Rightarrow> (string \<Rightarrow> string) \<Rightarrow> outside \<Rightarrow> outside \<Rightarrow> conn_io \<Rightarrow> node \<Rightarrow> string \<Rightarrow> string \<Rightarrow> u16
    \<Rightarrow> (tr_err + conn) \<times> log_event list" where
  "Dial P L E E2 i n network host port =
     (case dialTransport L E E2 n of
        (Inl e, evs) \<Rightarrow> (Inl e, evs)
      | (Inr (s, exporter), evs) \<Rightarrow>
          (case dialRequest P n network host port (streamConn n exporter i) of
             (Inl e, _) \<Rightarrow> (Inl (StreamErr e), evs @ [Closed (stream_tcp s)])
           | (Inr _, sc) \<Rightarrow> (Inr sc, evs)))"

definition ListenPacket ::
  "prims \<Rightarrow> (string \<Rightarrow> string) \<Rightarrow> outside \<Rightarrow> outside \<Rightarrow> conn_io \<Rightarrow> node
    \<Rightarrow> (tr_err + conn) \<times> log_event list" where
  "ListenPacket P L E E2 i n =
     (if \<not> n_UDP n then (Inl (UdpDisabled (n_Name n)), [])
      else case dialTransport L E E2 n of
        (Inl e, evs) \<Rightarrow> (Inl e, evs)
      | (Inr (s, exporter), evs) \<Rightarrow>
          (case ebind (WriteUDP P) (\<lambda>_. ReadReply P) (streamConn n exporter i) of
             (Inl e, _) \<Rightarrow> (Inl (StreamErr e), evs @ [Closed (stream_tcp s)])
           | (Inr _, sc) \<Rightarrow> (Inr sc, evs)))"

text \<open>The first write on a fresh stream, on the wire.\<close>

lemma first_write_wire:
  assumes "aead_ok P" and "b \<noteq> []" and "psk \<noteq> []"
    and v: "v \<noteq> 0" "v \<noteq> 1 \<longrightarrow> length exporter = ExporterSize"
    and wr: "cWrite P b (NewConnIdentity src snk ds clk psk exporter v) = (Inr k, c)"
  shows "\<exists>salt ident frames w. length salt = SaltSize \<and> c_w c = Some w
     \<and> snk_data (w_sink w) = snk_data snk @ salt @ ident @ frames
     \<and> (if v = 1 then ident = PrefixV1 P psk else PrefixV2 P psk exporter salt = Inr ident)
     \<and> (\<forall>rest e. fst (v4ReadFull P (length b)
            (reader_at (kdf P psk salt) (replicate 12 0) (frames @ rest) e)) = Inr b)"
proof -
  let ?c = "NewConnIdentity src snk ds clk psk exporter v"
  have c: "c_w ?c = None" "c_sink ?c = snk" "c_psk ?c = psk" "c_exporter ?c = exporter"
    "c_identityVersion ?c = v" "c_rand ?c = ds" "c_clock ?c = clk"
    using v by (simp_all add: NewConnIdentity_def)
  with wr obtain w w' where w: "newWriter P snk psk exporter v ds clk = Some w"
    and ww: "v4Write P b w = ((k, None), w')" and cw: "c_w c = Some w'"
    by (auto simp: cWrite_def ebind_eq_Inr needWriter_def initWriter_def onWriter_def
        split: option.splits prod.splits)
  obtain salt where salt: "length salt = SaltSize" "w_salt w = salt" "w_key w = kdf P psk salt"
    "w_nonce w = replicate 12 0" "w_exporter w = exporter" "w_psk w = psk" "w_identityVersion w = v"
    "\<not> w_saltSent w" "w_sink w = snk"
    using w by (auto simp: newWriter_def dest!: length_randomBytes split: option.splits)
  from ww assms(2) have "v4WriteLoop P b 0 w = ((k, None), w')" "0 < length b"
    by (auto simp: v4Write_def)
  from v4WriteLoop_None [OF this] obtain pre cs where
    cs: "framePrefix P w = Inr pre" "list_all (\<lambda>c. chunk_ok c \<and> fst c \<noteq> []) cs" "concat (map fst cs) = b"
      "snk_data (w_sink w') = snk_data snk @ pre @ sealFrames P (kdf P psk salt) (replicate 12 0) cs"
    using salt by auto
  obtain ident where ident: "pre = salt @ ident"
    "if v = 1 then ident = PrefixV1 P psk else PrefixV2 P psk exporter salt = Inr ident"
  proof (cases "v = 1")
    case True
    with cs(1) salt that show thesis by (auto simp: framePrefix_def)
  next
    case False
    with cs(1) salt v(2) that show thesis by (auto simp: framePrefix_def split: sum.splits)
  qed
  define frames where "frames = sealFrames P (kdf P psk salt) (replicate 12 0) cs"
  have rd: "fst (v4ReadFull P (length b) (reader_at (kdf P psk salt) (replicate 12 0) (frames @ rest) e)) = Inr b"
    for rest e
  proof -
    have "v4_pending P (reader_at (kdf P psk salt) (replicate 12 0) (frames @ rest) e)
        = b @ rd_plain P (reader_at (kdf P psk salt) (framesNonce cs (replicate 12 0)) rest e)"
      using rd_plain_sealFrames [OF assms(1) cs(2), of "kdf P psk salt" "replicate 12 0" rest e] cs(3)
      by (simp add: frames_def)
    from v4ReadFull_pending [OF this] show ?thesis by auto
  qed
  have wire: "snk_data (w_sink w') = snk_data snk @ salt @ ident @ frames"
    using cs(4) ident(1) by (simp add: frames_def)
  show ?thesis
    by (rule exI [of _ salt], rule exI [of _ ident], rule exI [of _ frames], rule exI [of _ w'])
      (intro conjI salt(1) cw wire ident(2) allI rd)
qed


section \<open>A concrete dial\<close>

definition demo_outside :: outside where
  "demo_outside = \<lparr>o_dests = Inr [''203.0.113.7:443''], o_connect = (\<lambda>_. Inr 7), o_build = Inr,
     o_handshake = (\<lambda>_ _ _. Inr ''snell-ech/1''), o_ekm = Some (\<lambda>_ k. Inr (replicate k 5)),
     o_rand = [], o_wsSend = (\<lambda>_. None), o_wsResponse = Inl 0, o_sha1 = id\<rparr>"

definition demo_node :: node where
  "demo_node = \<lparr>n_Name = ''a'', n_Server = ''h.example'', n_Port = 443, n_PSK = ''k'', n_SNI = [],
     n_ECHConfig = ''AAAAAA=='', n_ALPN = [], n_Path = [], n_Fingerprint = [], n_IdentityVersion = 0,
     n_SkipVerify = False, n_Reuse = True, n_TFO = False, n_UDP = True, n_LegacyFallback = True,
     n_Preconnect = 2, n_DNS = [], n_DialIP = []\<rparr>"

definition demo_io :: conn_io where
  "demo_io = \<lparr>io_src = \<lparr>src_data = [], src_end = EOF\<rparr>, io_sink = \<lparr>snk_data = [], snk_script = []\<rparr>,
     io_rand = replicate 16 9 @ 9 # replicate 5000 9, io_clock = (\<lambda>i. int i)\<rparr>"

lemma demo_transport:
  "dialTransport L demo_outside demo_outside demo_node
     = (Inr (TLSStream (Direct 7), Some (replicate 32 5)), [Opened (Direct 7)])"
proof -
  have "decodeECH ''AAAAAA=='' = Inr [0, 0, 0, 0]"
    by (simp add: decodeECH_def TrimSpace_visible visible_def b64_decode_def b64_val_def str_bytes_bytes_str)
  moreover have "clientHelloID L ''chrome'' = Inr HelloChrome_Auto"
    by (simp add: clientHelloID_def TrimSpace_visible visible_def ToLower_def is_ascii_def lower_char_def)
  ultimately show ?thesis
    by (simp add: dialTransport_def handshakeUTLSRaw_def dialTCP_def afterHandshake_def exportFromConn_def
        demo_outside_def demo_node_def fingerprint_def identityVersion_def ALPNSnellECH_def Let_def)
qed



end
