(* ===== verification/Obf.thy ===== *)
theory Obf
  imports Transport
begin

text \<open>
  The string deobfuscation of \<open>internal/obf/v2.go\<close>, with SHA-256 as the parameter \<open>H\<close>. The
  keystream loop stops only because a digest is not empty, so it is a \<open>partial_function\<close>:
  \<open>None\<close> is a loop that never ends.
\<close>

section \<open>Definitions\<close>

definition Label :: string where "Label = ''oix-obf-v2-exp''"
definition Prefix :: string where "Prefix = ''v2:''"

definition kA :: bytes where
  "kA = [0x2f, 0x84, 0xb1, 0x6d, 0xc0, 0x39, 0x9e, 0x47, 0xf2, 0x1b, 0xa8, 0x53, 0xce, 0x70, 0x35, 0xd9]"

definition kB :: bytes where
  "kB = [0x61, 0xcd, 0x0a, 0x97, 0x4e, 0xe3, 0x28, 0xbf, 0x14, 0x8c, 0x52, 0xf9, 0x3d, 0xa6, 0x1f, 0xc7]"

definition expandKey :: "(bytes \<Rightarrow> bytes) \<Rightarrow> bytes" where
  "expandKey H = H (kA @ kB @ str_bytes Label)"

definition be32 :: "32 word \<Rightarrow> bytes" where
  "be32 w = [ucast (drop_bit 24 w), ucast (drop_bit 16 w), ucast (drop_bit 8 w), ucast w]"

partial_function (option) ksLoop ::
  "(bytes \<Rightarrow> bytes) \<Rightarrow> bytes \<Rightarrow> bytes \<Rightarrow> nat \<Rightarrow> 32 word \<Rightarrow> bytes \<Rightarrow> bytes option" where
  \<comment> \<open>\<open>for len(ks) < len(rest)\<close>\<close>
  "ksLoop H key nonce n ctr ks =
     (if length ks < n
      then ksLoop H key nonce n (ctr + 1) (ks @ H (key @ nonce @ be32 ctr))
      else Some ks)"

definition xor_stream :: "bytes \<Rightarrow> bytes \<Rightarrow> bytes" where
  "xor_stream rest ks = map (\<lambda>(a, b). xor a b) (zip rest ks)"

definition Decode :: "(bytes \<Rightarrow> bytes) \<Rightarrow> string \<Rightarrow> string option" where
  "Decode H s0 =
     (let s = TrimSpace s0 in
      if \<not> HasPrefix s Prefix then Some s
      else
        let t = drop (length Prefix) s in
        case (case b64_decode t of None \<Rightarrow> b64_raw_decode t | Some raw \<Rightarrow> Some raw) of
          None \<Rightarrow> Some s
        | Some text \<Rightarrow>
            let raw = str_bytes text in
            if length raw < 8 then Some s
            else
              let key = expandKey H; rest = drop 8 raw in
              case ksLoop H key (take 8 raw) (length rest) 0 [] of
                None \<Rightarrow> None
              | Some ks \<Rightarrow> Some (bytes_str (xor_stream rest ks)))"

section \<open>The keystream\<close>

definition blocks :: "(bytes \<Rightarrow> bytes) \<Rightarrow> bytes \<Rightarrow> bytes \<Rightarrow> nat \<Rightarrow> bytes" where
  \<comment> \<open>the first \<open>k\<close> blocks\<close>
  "blocks H key nonce k = concat (map (\<lambda>i. H (key @ nonce @ be32 (word_of_nat i))) [0..<k])"

lemma length_blocks: "(\<And>x. length (H x) = 32) \<Longrightarrow> length (blocks H key nonce k) = 32 * k"
  by (induction k) (simp_all add: blocks_def)

lemma ksLoop_blocks:
  assumes H: "\<And>x. length (H x) = 32" and "k \<le> (n + 31) div 32"
  shows "ksLoop H key nonce n (word_of_nat k) (blocks H key nonce k)
         = Some (blocks H key nonce ((n + 31) div 32))"
  using assms(2)
proof (induction "(n + 31) div 32 - k" arbitrary: k)
  case 0
  then have k: "k = (n + 31) div 32" by simp
  then have "\<not> 32 * k < n" by linarith
  then show ?case using k by (simp add: ksLoop.simps length_blocks [OF H])
next
  case (Suc m)
  then have "32 * k < n" by linarith
  moreover have "blocks H key nonce k @ H (key @ nonce @ be32 (word_of_nat k)) = blocks H key nonce (Suc k)"
    by (simp add: blocks_def)
  moreover have "(word_of_nat k :: 32 word) + 1 = word_of_nat (Suc k)" by (simp add: add.commute)
  ultimately show ?case
    using Suc(1) [of "Suc k"] Suc(2,3)
    by (subst ksLoop.simps) (simp add: length_blocks [OF H] del: of_nat_Suc)
qed

lemma xor_stream_twice: "length a \<le> length ks \<Longrightarrow> xor_stream (xor_stream a ks) ks = a"
  by (auto simp: xor_stream_def list_eq_iff_nth_eq xor.assoc)

section \<open>Round trip\<close>

definition Encode :: "(bytes \<Rightarrow> bytes) \<Rightarrow> bytes \<Rightarrow> string \<Rightarrow> string" where
  \<comment> \<open>the reference encoder, for an 8-byte nonce\<close>
  "Encode H nonce plain =
     (let ks = blocks H (expandKey H) nonce ((length plain + 31) div 32) in
      Prefix @ b64_encode (nonce @ xor_stream (str_bytes plain) ks))"

lemma Encode_trimmed: "length nonce = 8 \<Longrightarrow> TrimSpace (Encode H nonce plain) = Encode H nonce plain"
proof -
  assume "length nonce = 8"
  let ?b = "b64_encode (nonce @ xor_stream (str_bytes plain)
      (blocks H (expandKey H) nonce ((length plain + 31) div 32)))"
  have ne: "?b \<noteq> []" using \<open>length nonce = 8\<close> by (auto simp: b64_encode_Nil)
  have "visible (last ?b)" by (rule b64_encode_chars [OF last_in_set [OF ne]])
  with ne show ?thesis
    by (intro TrimSpace_visible) (simp_all add: Encode_def Prefix_def Let_def visible_def [of "CHR ''v''"])
qed



end
