(* ===== verification/Dns_Net.thy ===== *)
theory Dns_Net
  imports Dns Resolver Obf
begin

text \<open>
  One DNS exchange on the network (\<open>lookupRaw\<close>, \<open>lookupA\<close> and \<open>lookupHTTPSHints\<close> of
  \<open>internal/dialer/dest.go\<close>) and the DNS-Auth key (\<open>dnsAuthInit\<close> of \<open>dnsauth.go\<close>). Dialling and
  Ed25519 are parameters.
\<close>

section \<open>An exchange\<close>

datatype raw_err = QueryErr dns_err | DialFailed nat | NetErr io_err | AnswerErr dns_err

record dns_conn =
  dc_in :: source             \<comment> \<open>what a TCP server will send\<close>
  dc_gram :: "io_err + bytes" \<comment> \<open>the next datagram\<close>
  dc_out :: sink
  dc_open :: bool

definition dc_write :: "bytes \<Rightarrow> dns_conn \<Rightarrow> (raw_err + unit) \<times> dns_conn" where
  "dc_write b c =
     (case conn_write b (dc_out c) of
        (Inl e, s) \<Rightarrow> (Inl (NetErr e), c\<lparr>dc_out := s\<rparr>)
      | (Inr _, s) \<Rightarrow> (Inr (), c\<lparr>dc_out := s\<rparr>))"

definition dc_full :: "nat \<Rightarrow> dns_conn \<Rightarrow> (raw_err + bytes) \<times> dns_conn" where
  "dc_full n c =
     (case readFull n (dc_in c) of
        (Inl e, s) \<Rightarrow> (Inl (NetErr e), c\<lparr>dc_in := s\<rparr>)
      | (Inr d, s) \<Rightarrow> (Inr d, c\<lparr>dc_in := s\<rparr>))"

definition exchangeTCP :: "bytes \<Rightarrow> dns_conn \<Rightarrow> (raw_err + bytes) \<times> dns_conn" where
  "exchangeTCP req =
     ebind (dc_write (be16 (word_of_nat (length req)) @ req)) (\<lambda>_.
     ebind (dc_full 2) (\<lambda>ln.
     dc_full (unat (de16 (ln ! 0) (ln ! 1)))))"

definition exchangeUDP :: "bytes \<Rightarrow> dns_conn \<Rightarrow> (raw_err + bytes) \<times> dns_conn" where
  "exchangeUDP req =
     ebind (dc_write req) (\<lambda>_ c.
       (case dc_gram c of Inl e \<Rightarrow> (Inl (NetErr e), c) | Inr d \<Rightarrow> (Inr (take 2048 d), c)))"

definition lookupRaw ::
  "(string \<Rightarrow> string \<Rightarrow> nat + dns_conn) \<Rightarrow> u16 \<Rightarrow> string \<Rightarrow> string \<Rightarrow> string \<Rightarrow> u16
   \<Rightarrow> (raw_err + bytes) \<times> dns_conn option" where
  \<comment> \<open>\<open>qid\<close> comes from the clock; the connection is closed on every path after the dial\<close>
  "lookupRaw dial qid name dnsAddr network qtype =
     (case encodeQuery qid name qtype of
        Inl e \<Rightarrow> (Inl (QueryErr e), None)
      | Inr req \<Rightarrow>
          (case dial network dnsAddr of
             Inl e \<Rightarrow> (Inl (DialFailed e), None)
           | Inr conn \<Rightarrow>
               (let (r, c) = (if network = ''tcp'' then exchangeTCP req conn else exchangeUDP req conn)
                in (r, Some (c\<lparr>dc_open := False\<rparr>)))))"

definition lookupA ::
  "(string \<Rightarrow> string \<Rightarrow> nat + dns_conn) \<Rightarrow> u16 \<Rightarrow> string \<Rightarrow> string \<Rightarrow> string \<Rightarrow> raw_err + ip list" where
  "lookupA dial qid name dnsAddr network =
     (case fst (lookupRaw dial qid name dnsAddr network 1) of
        Inl e \<Rightarrow> Inl e
      | Inr msg \<Rightarrow> (case parseAAnswers msg of Inl e \<Rightarrow> Inl (AnswerErr e) | Inr ips \<Rightarrow> Inr ips))"

definition lookupHTTPSHints ::
  "(string \<Rightarrow> string \<Rightarrow> nat + dns_conn) \<Rightarrow> u16 \<Rightarrow> string \<Rightarrow> string \<Rightarrow> string \<Rightarrow> raw_err + ip list" where
  "lookupHTTPSHints dial qid name dnsAddr network =
     (case fst (lookupRaw dial qid name dnsAddr network 65) of
        Inl e \<Rightarrow> Inl e
      | Inr msg \<Rightarrow> (case parseHTTPSIPv4Hints msg of Inl e \<Rightarrow> Inl (AnswerErr e) | Inr ips \<Rightarrow> Inr ips))"

section \<open>DNS-Auth\<close>

definition blobDNSAuthSeed :: string where
  "blobDNSAuthSeed = ''v2:DDDuMItojgbE/L++M/zoUEkxK5qDdczw7XEeUXbpTdi7E9ht5E3k1j/xO4PHT4ikxyvx1g==''"
definition blobDNSAuthDomain :: string where
  "blobDNSAuthDomain = ''v2:BeMEuTC7THjx4pV6fBQ/ZGnQkHxujeM=''"

definition dnsAuthInit ::
  "(string \<Rightarrow> string) \<Rightarrow> (bytes \<Rightarrow> bytes) \<Rightarrow> (bytes \<Rightarrow> bytes \<Rightarrow> bytes) \<Rightarrow> dnsauth" where
  \<comment> \<open>the case table, SHA-256 and Ed25519: a seed gives the signing function\<close>
  "dnsAuthInit L H ed25519 =
     (let suffix = ToLower L (TrimSuffix (the (Decode H blobDNSAuthDomain)) ''.'');
          raw = TrimSpace (the (Decode H blobDNSAuthSeed))
      in \<lparr>da_sign = (case b64_decode raw of
                       None \<Rightarrow> None
                     | Some seed \<Rightarrow> if length seed \<noteq> 32 then None else Some (ed25519 (str_bytes seed))),
          da_suffix = suffix\<rparr>)"

section \<open>What an exchange returns\<close>

lemma de16_be16_bytes: "de16 (be16 n ! 0) (be16 n ! 1) = n"
  using de16_be16_nth [of n] by simp

text \<open>Over TCP the query goes out with its length, and exactly the framed answer comes back.\<close>

lemma exchangeTCP_answer:
  assumes "dc_in c = \<lparr>src_data = be16 (word_of_nat (length msg)) @ msg @ rest, src_end = e\<rparr>"
    and "length msg < 65536" and "snk_script (dc_out c) = []"
  shows "fst (exchangeTCP req c) = Inr msg
    \<and> snk_data (dc_out (snd (exchangeTCP req c)))
      = snk_data (dc_out c) @ be16 (word_of_nat (length req)) @ req"
proof -
  have "unat (word_of_nat (length msg) :: u16) = length msg" using assms(2) by (simp add: unat_of_nat)
  moreover have "length (be16 n) = 2" for n by (simp add: be16_def)
  ultimately show ?thesis
    using assms by (simp add: exchangeTCP_def ebind_def dc_write_def dc_full_def conn_write_def de16_be16_bytes)
qed

text \<open>
  The client takes whatever answer arrives: neither the identifier nor the question of the
  answer is compared with the query.
\<close>

theorem lookupRaw_any_id:
  assumes "encodeQuery qid name qtype = Inr req" and "network \<noteq> ''tcp''"
    and "dial network dnsAddr
      = Inr \<lparr>dc_in = s, dc_gram = Inr msg, dc_out = \<lparr>snk_data = [], snk_script = []\<rparr>, dc_open = True\<rparr>"
    and "length msg \<le> 2048"
  shows "fst (lookupRaw dial qid name dnsAddr network qtype) = Inr msg"
  using assms by (simp add: lookupRaw_def exchangeUDP_def ebind_def dc_write_def conn_write_def)

text \<open>No exchange leaves its connection open, and answers are addresses of four bytes.\<close>

lemma lookupRaw_closes:
  "lookupRaw dial qid name dnsAddr network qtype = (r, Some c) \<Longrightarrow> \<not> dc_open c"
  by (auto simp: lookupRaw_def Let_def split: sum.splits prod.splits)

lemma lookupA_addresses:
  assumes "lookupA dial qid name dnsAddr network = Inr ips" and "ip \<in> set ips"
  shows "length ip = 4"
proof -
  from assms(1) obtain msg where "parseAAnswers msg = Inr ips"
    by (auto simp: lookupA_def split: sum.splits)
  with assms(2) show ?thesis by (auto simp: parseAAnswers_def sbind_eq_Inr)
qed

end
