(* ===== verification/Pool.thy ===== *)
theory Pool
  imports Prelude "HOL-Library.Multiset"
begin

text \<open>
  The connection pool of \<open>internal/dialer/pool.go\<close>: the idle list with its age, size and use
  limits, the dial loop with its three attempts, the pooled connection with its two \<open>sync.Once\<close>
  closes, and the pool as a state machine whose steps are the sections under \<open>p.mu\<close> and the
  calls on one connection.
\<close>

section \<open>The idle list\<close>

type_synonym conn_id = nat

definition poolMaxIdle :: nat where "poolMaxIdle = 10"
definition poolIdleAge :: int where "poolIdleAge = 15 * 10 ^ 9"
definition poolMaxUses :: nat where "poolMaxUses = 2"

datatype pool_err = PoolClosed | ConnErr nat

record idleConn =
  ic_c :: conn_id
  ic_used :: int
  ic_uses :: nat

record pool =
  p_idle :: "idleConn list"
  p_closed :: bool

definition NewPool :: pool where
  "NewPool = \<lparr>p_idle = [], p_closed = False\<rparr>"

fun popLoop :: "int \<Rightarrow> idleConn list \<Rightarrow> (conn_id \<times> nat) option \<times> idleConn list \<times> conn_id list" where
  \<comment> \<open>result, remaining list, connections closed because of their age\<close>
  "popLoop now [] = (None, [], [])"
| "popLoop now (first # idle) =
     (if poolIdleAge < now - ic_used first
      then (case popLoop now idle of (r, rest, cl) \<Rightarrow> (r, rest, ic_c first # cl))
      else (Some (ic_c first, ic_uses first), idle, []))"

definition pop :: "int \<Rightarrow> pool \<Rightarrow> (conn_id \<times> nat) option \<times> pool \<times> conn_id list" where
  "pop now p = (case popLoop now (p_idle p) of (r, rest, cl) \<Rightarrow> (r, p\<lparr>p_idle := rest\<rparr>, cl))"

definition put :: "conn_id \<Rightarrow> nat \<Rightarrow> int \<Rightarrow> pool \<Rightarrow> bool \<times> pool" where
  "put c uses now p =
     (if poolMaxUses \<le> uses then (False, p)
      else if p_closed p \<or> poolMaxIdle \<le> length (p_idle p) then (False, p)
      else (True, p\<lparr>p_idle := p_idle p @ [\<lparr>ic_c = c, ic_used = now, ic_uses = uses\<rparr>]\<rparr>))"

definition isClosed :: "pool \<Rightarrow> bool" where "isClosed p = p_closed p"

definition idleCount :: "pool \<Rightarrow> nat" where "idleCount p = length (p_idle p)"

definition poolClose :: "pool \<Rightarrow> pool \<times> conn_id list" where
  "poolClose p = (p\<lparr>p_closed := True, p_idle := []\<rparr>, map ic_c (p_idle p))"

fun Warm :: "(pool_err + conn_id) list \<Rightarrow> int \<Rightarrow> pool \<Rightarrow> pool \<times> conn_id list" where
  \<comment> \<open>the loop of \<open>Warm\<close> over the results of the factory calls\<close>
  "Warm [] now p = (p, [])"
| "Warm (Inl e # fs) now p = (p, [])"
| "Warm (Inr c # fs) now p =
     (case put c 0 now p of
        (False, p') \<Rightarrow> (p', [c])
      | (True, p') \<Rightarrow> Warm fs now p')"

section \<open>Dialling\<close>

text \<open>What the outside does during one attempt of \<open>Dial\<close>.\<close>

record attempt =
  at_now :: int
  at_ctx :: "pool_err option"
  at_factory :: "pool_err + conn_id"
  at_closes :: bool                  \<comment> \<open>the pool is closed while the factory runs\<close>
  at_deadline :: "pool_err option"   \<comment> \<open>\<open>SetDeadline\<close>\<close>
  at_connect :: "pool_err option"    \<comment> \<open>\<open>WriteConnect\<close>\<close>
  at_clear :: "pool_err option"      \<comment> \<open>\<open>SetDeadline(time.Time{})\<close>\<close>

definition take_conn :: "attempt \<Rightarrow> pool \<Rightarrow> (pool_err + conn_id \<times> nat) \<times> pool \<times> conn_id list \<times> conn_id list" where
  \<comment> \<open>the last two components list the connections closed and those the factory made\<close>
  "take_conn a p =
     (case pop (at_now a) p of
        (Some (c, uses), p', cl) \<Rightarrow> (Inr (c, uses + 1), p', cl, [])
      | (None, p', cl) \<Rightarrow>
          (case at_ctx a of
             Some e \<Rightarrow> (Inl e, p', cl, [])
           | None \<Rightarrow>
               if isClosed p' then (Inl PoolClosed, p', cl, [])
               else (case at_factory a of
                       Inl e \<Rightarrow> (Inl e, p', cl, [])
                     | Inr c \<Rightarrow>
                         let (q, cl') = (if at_closes a then poolClose p' else (p', [])) in
                         if isClosed q then (Inl PoolClosed, q, cl @ cl' @ [c], [c])
                         else (Inr (c, 1), q, cl @ cl', [c]))))"

datatype reuse_state = ConnNew | ConnReusable | ConnClosed

record pooledConn =
  pc_conn :: conn_id
  pc_uses :: nat
  pc_state :: reuse_state
  pc_cwDone :: bool                    \<comment> \<open>\<open>closeWriteOnce\<close>\<close>
  pc_cwReusable :: bool
  pc_cwErr :: "pool_err option"
  pc_closeDone :: bool                 \<comment> \<open>\<open>closeOnce\<close>\<close>
  pc_closeErr :: "pool_err option"

definition newPooled :: "conn_id \<Rightarrow> nat \<Rightarrow> pooledConn" where
  "newPooled c uses =
     \<lparr>pc_conn = c, pc_uses = uses, pc_state = ConnNew, pc_cwDone = False, pc_cwReusable = False,
      pc_cwErr = None, pc_closeDone = False, pc_closeErr = None\<rparr>"

definition MarkReusable :: "pooledConn \<Rightarrow> pooledConn" where
  "MarkReusable pc = (if pc_state pc = ConnNew then pc\<lparr>pc_state := ConnReusable\<rparr> else pc)"

fun poolDial ::
  "bool \<Rightarrow> nat \<Rightarrow> attempt list \<Rightarrow> pool_err option \<Rightarrow> pool
   \<Rightarrow> (pool_err option + pooledConn) \<times> pool \<times> conn_id list \<times> conn_id list" where
  \<comment> \<open>\<open>for range 3\<close>; the first argument is \<open>n.Reuse\<close>, \<open>prev\<close> the variable \<open>last\<close>\<close>
  "poolDial reuse 0 ats prev p = (Inl prev, p, [], [])"
| "poolDial reuse (Suc n) [] prev p = (Inl prev, p, [], [])"
| "poolDial reuse (Suc n) (a # ats) prev p =
     (case take_conn a p of
        (Inl e, p', cl, mk) \<Rightarrow> (Inl (Some e), p', cl, mk)
      | (Inr (c, uses), p', cl, mk) \<Rightarrow>
          (case (if at_deadline a \<noteq> None then at_deadline a
                 else if at_connect a \<noteq> None then at_connect a else at_clear a) of
             Some e \<Rightarrow>
               (case poolDial reuse n ats (Some e) p' of (r, q, cl', mk') \<Rightarrow> (r, q, cl @ c # cl', mk @ mk'))
           | None \<Rightarrow>
               (Inr (if reuse then MarkReusable (newPooled c uses) else newPooled c uses), p', cl, mk)))"

section \<open>Closing a pooled connection\<close>

datatype conn_act = DoClose | DoHalfClose | DoReset

record close_env =
  ce_close :: "pool_err option"      \<comment> \<open>\<open>Conn.Close\<close>\<close>
  ce_half :: "pool_err option"       \<comment> \<open>\<open>Conn.HalfClose\<close>\<close>
  ce_peerClosed :: bool
  ce_deadline :: "pool_err option"
  ce_now :: int

definition closeWrite ::
  "close_env \<Rightarrow> pooledConn \<Rightarrow> (bool \<times> pool_err option) \<times> pooledConn \<times> conn_act list" where
  "closeWrite E pc =
     (if pc_cwDone pc then ((pc_cwReusable pc, pc_cwErr pc), pc, [])
      else if pc_state pc \<noteq> ConnReusable then
        ((pc_cwReusable pc, ce_close E),
         pc\<lparr>pc_cwDone := True, pc_state := ConnClosed, pc_cwErr := ce_close E\<rparr>, [DoClose])
      else
        ((True, ce_half E),
         pc\<lparr>pc_cwDone := True, pc_state := ConnClosed, pc_cwReusable := True, pc_cwErr := ce_half E\<rparr>,
         [DoHalfClose]))"

definition pcCloseWrite :: "close_env \<Rightarrow> pooledConn \<Rightarrow> pool_err option \<times> pooledConn \<times> conn_act list" where
  "pcCloseWrite E pc = (case closeWrite E pc of ((_, err), pc', acts) \<Rightarrow> (err, pc', acts))"

definition pcClose ::
  "close_env \<Rightarrow> pool \<Rightarrow> pooledConn \<Rightarrow> pool_err option \<times> pool \<times> pooledConn \<times> conn_act list" where
  "pcClose E p pc =
     (if pc_closeDone pc then (pc_closeErr pc, p, pc, [])
      else
        case closeWrite E pc of ((reusable, err), pc1, acts) \<Rightarrow>
        let done = (\<lambda>e p acts'. (e, p, pc1\<lparr>pc_closeDone := True, pc_closeErr := e\<rparr>, acts @ acts')) in
        if err \<noteq> None then done err p [DoClose]
        else if \<not> reusable then done (pc_closeErr pc1) p []
        else if \<not> ce_peerClosed E then done (ce_close E) p [DoClose]
        else if ce_deadline E \<noteq> None then done (ce_deadline E) p [DoClose]
        else case put (pc_conn pc1) (pc_uses pc1) (ce_now E) p of
               (True, p') \<Rightarrow> done (pc_closeErr pc1) p' [DoReset]
             | (False, p') \<Rightarrow> done (ce_close E) p' [DoReset, DoClose])"

lemma put_False: "put c u now p = (False, q) \<Longrightarrow> q = p"
  by (auto simp: put_def split: if_splits)

text \<open>
  C15. Closing a pooled connection: the first \<open>Close\<close> puts the transport back exactly when the
  CONNECT was marked reusable and not half closed with an error, the half close succeeds, the
  peer has closed its side, the deadline can be cleared and the pool accepts it - and then it
  has reset the reply and appended the transport with its use count; in every other case the
  transport is closed and the pool is unchanged. Every later \<open>Close\<close> changes nothing and
  reports the same error.
\<close>
theorem pcClose_returns_or_closes:
  assumes "\<not> pc_closeDone pc" and "pc_cwDone pc \<or> \<not> pc_cwReusable pc"
    and "pcClose E p pc = (e, q, pc', acts)"
  defines "half_ok \<equiv> (if pc_cwDone pc then pc_cwReusable pc \<and> pc_cwErr pc = None
                       else pc_state pc = ConnReusable \<and> ce_half E = None)"
  shows "(if half_ok \<and> ce_peerClosed E \<and> ce_deadline E = None \<and> fst (put (pc_conn pc) (pc_uses pc) (ce_now E) p)
      then q = snd (put (pc_conn pc) (pc_uses pc) (ce_now E) p) \<and> DoReset \<in> set acts \<and> DoClose \<notin> set acts
      else q = p \<and> (DoClose \<in> set acts \<or> (pc_cwDone pc \<and> \<not> pc_cwReusable pc \<and> pc_cwErr pc = None)))
    \<and> pcClose E2 q pc' = (e, q, pc', [])"
proof -
  obtain r err pc1 as where cw: "closeWrite E pc = ((r, err), pc1, as)" by (metis prod_cases3 surj_pair)
  note o = assms(3) [unfolded pcClose_def cw, simplified assms(1) if_False prod.case Let_def]
  have again: "pcClose E2 q pc' = (e, q, pc', [])"
    using o by (auto simp: pcClose_def split: if_splits prod.splits bool.splits)
  show ?thesis
  proof (cases "pc_cwDone pc")
    case True
    with cw have "r = pc_cwReusable pc" "err = pc_cwErr pc" "pc1 = pc" "as = []"
      by (auto simp: closeWrite_def)
    with o again True show ?thesis
      by (auto simp: half_ok_def dest: put_False split: if_splits prod.splits bool.splits)
  next
    case False
    with cw assms(2) have "(r, err, pc_conn pc1, pc_uses pc1, as) =
        (if pc_state pc = ConnReusable then (True, ce_half E, pc_conn pc, pc_uses pc, [DoHalfClose])
         else (False, ce_close E, pc_conn pc, pc_uses pc, [DoClose]))"
      by (auto simp: closeWrite_def split: if_splits)
    with o again False show ?thesis
      by (cases "pc_state pc = ConnReusable")
         (auto simp: half_ok_def dest: put_False split: if_splits prod.splits bool.splits)
  qed
qed

section \<open>The pool as a state machine\<close>

record world =
  w_pool :: pool
  w_dialing :: "(conn_id \<times> nat) list"   \<comment> \<open>taken, CONNECT not yet written\<close>
  w_live :: "pooledConn list"
  w_shut :: "conn_id set"
  w_next :: conn_id
  w_connects :: "conn_id \<Rightarrow> nat"         \<comment> \<open>CONNECT requests written on each transport\<close>

inductive pool_step :: "world \<Rightarrow> world \<Rightarrow> bool" where
  step_pop: "pop now (w_pool w) = (r, p', cl) \<Longrightarrow>
    pool_step w (w\<lparr>w_pool := p', w_shut := w_shut w \<union> set cl,
      w_dialing := (case r of None \<Rightarrow> [] | Some (c, uses) \<Rightarrow> [(c, uses + 1)]) @ w_dialing w\<rparr>)"
| step_factory: "pool_step w (w\<lparr>w_next := w_next w + 1,
      w_shut := (if isClosed (w_pool w) then insert (w_next w) (w_shut w) else w_shut w),
      w_dialing := (if isClosed (w_pool w) then [] else [(w_next w, 1)]) @ w_dialing w\<rparr>)"
| step_warm: "put (w_next w) 0 now (w_pool w) = (ok, p') \<Longrightarrow>
    pool_step w (w\<lparr>w_next := w_next w + 1, w_pool := p',
      w_shut := (if ok then w_shut w else insert (w_next w) (w_shut w))\<rparr>)"
| step_connect: "w_dialing w = xs @ (c, uses) # ys \<Longrightarrow>
    pool_step w (w\<lparr>w_dialing := xs @ ys, w_connects := (w_connects w)(c := w_connects w c + 1),
      w_live := (if reuse then MarkReusable (newPooled c uses) else newPooled c uses) # w_live w\<rparr>)"
| step_connect_fails: "w_dialing w = xs @ (c, uses) # ys \<Longrightarrow>
    pool_step w (w\<lparr>w_dialing := xs @ ys, w_shut := insert c (w_shut w),
      w_connects := (w_connects w)(c := w_connects w c + (if written then 1 else 0))\<rparr>)"
| step_closeWrite: "w_live w = xs @ pc # ys \<Longrightarrow> pcCloseWrite E pc = (e, pc', acts) \<Longrightarrow>
    pool_step w (w\<lparr>w_live := xs @ pc' # ys,
      w_shut := (if DoClose \<in> set acts then insert (pc_conn pc) (w_shut w) else w_shut w)\<rparr>)"
| step_close: "w_live w = xs @ pc # ys \<Longrightarrow> pcClose E (w_pool w) pc = (e, p', pc', acts) \<Longrightarrow>
    pool_step w (w\<lparr>w_pool := p', w_live := xs @ pc' # ys,
      w_shut := (if DoClose \<in> set acts then insert (pc_conn pc) (w_shut w) else w_shut w)\<rparr>)"
| step_poolClose: "poolClose (w_pool w) = (p', cl) \<Longrightarrow>
    pool_step w (w\<lparr>w_pool := p', w_shut := w_shut w \<union> set cl\<rparr>)"

definition world0 :: world where
  "world0 = \<lparr>w_pool = NewPool, w_dialing = [], w_live = [], w_shut = {}, w_next = 0, w_connects = (\<lambda>c. 0)\<rparr>"

definition active :: "pooledConn list \<Rightarrow> pooledConn list" where
  "active = filter (\<lambda>pc. \<not> pc_closeDone pc)"

text \<open>
  Who holds which transport, with a bound on the CONNECT requests written on it so far, and
  the transports that can still be used.
\<close>

definition held :: "world \<Rightarrow> (conn_id \<times> nat) multiset" where
  "held w = image_mset (\<lambda>i. (ic_c i, ic_uses i)) (mset (p_idle (w_pool w)))
     + image_mset (\<lambda>(c, u). (c, u - 1)) (mset (w_dialing w))
     + image_mset (\<lambda>pc. (pc_conn pc, pc_uses pc)) (mset (active (w_live w)))"

definition half_open :: "pooledConn \<Rightarrow> bool" where
  "half_open pc \<longleftrightarrow> \<not> pc_cwDone pc \<or> pc_cwReusable pc"

definition usable :: "world \<Rightarrow> conn_id multiset" where
  "usable w = image_mset ic_c (mset (p_idle (w_pool w))) + image_mset fst (mset (w_dialing w))
     + image_mset pc_conn (filter_mset half_open (mset (active (w_live w))))"

definition once :: "'a multiset \<Rightarrow> bool" where
  "once M \<longleftrightarrow> (\<forall>x. count M x \<le> 1)"

definition held_ok :: "(conn_id \<times> nat) multiset \<Rightarrow> (conn_id \<Rightarrow> nat) \<Rightarrow> conn_id \<Rightarrow> bool" where
  "held_ok H K n \<longleftrightarrow> once (image_mset fst H) \<and> (\<forall>(c, u) \<in># H. K c \<le> u \<and> u \<le> poolMaxUses \<and> c < n)"

definition shut_ok :: "conn_id multiset \<Rightarrow> conn_id set \<Rightarrow> conn_id \<Rightarrow> bool" where
  "shut_ok U S n \<longleftrightarrow> (\<forall>c \<in># U. c \<notin> S) \<and> (\<forall>c \<in> S. c < n)"

definition pool_ok :: "pool \<Rightarrow> bool" where
  "pool_ok p \<longleftrightarrow> length (p_idle p) \<le> poolMaxIdle \<and> (p_closed p \<longrightarrow> p_idle p = [])
     \<and> (\<forall>i \<in> set (p_idle p). ic_uses i < poolMaxUses)"

definition connects_ok :: "(conn_id \<Rightarrow> nat) \<Rightarrow> conn_id \<Rightarrow> bool" where
  "connects_ok K n \<longleftrightarrow> (\<forall>c. K c \<le> poolMaxUses) \<and> (\<forall>c \<ge> n. K c = 0)"

definition parts_ok :: "world \<Rightarrow> bool" where
  "parts_ok w \<longleftrightarrow> (\<forall>(c, u) \<in> set (w_dialing w). 0 < u \<and> u \<le> poolMaxUses)
     \<and> (\<forall>pc \<in> set (w_live w). pc_cwDone pc \<or> \<not> pc_cwReusable pc \<and> \<not> pc_closeDone pc)"

definition pool_inv :: "world \<Rightarrow> bool" where
  "pool_inv w \<longleftrightarrow> pool_ok (w_pool w) \<and> held_ok (held w) (w_connects w) (w_next w)
     \<and> shut_ok (usable w) (w_shut w) (w_next w) \<and> connects_ok (w_connects w) (w_next w) \<and> parts_ok w"

lemma once_mono: "once M \<Longrightarrow> N \<subseteq># M \<Longrightarrow> once N"
  unfolding once_def by (meson le_trans mset_subset_eq_count)

lemma held_ok_mono: "held_ok H K n \<Longrightarrow> G \<subseteq># H \<Longrightarrow> held_ok G K n"
  unfolding held_ok_def by (auto intro: once_mono image_mset_subseteq_mono dest: mset_subset_eqD)

lemma once_add: "once (add_mset x M) \<longleftrightarrow> x \<notin># M \<and> once M"
proof
  assume a: "once (add_mset x M)"
  then have "Suc (count M x) \<le> 1" unfolding once_def by (metis count_add_mset)
  then have "x \<notin># M" by (simp add: not_in_iff)
  moreover have "once M" by (rule once_mono [OF a]) simp
  ultimately show "x \<notin># M \<and> once M" by blast
next
  assume "x \<notin># M \<and> once M"
  then show "once (add_mset x M)" by (simp add: once_def not_in_iff)
qed

lemma held_ok_fresh: "held_ok H K n \<Longrightarrow> connects_ok K n \<Longrightarrow> held_ok (add_mset (n, 0) H) K (n + 1)"
  by (fastforce simp: held_ok_def connects_ok_def once_add)

lemma held_ok_later: "held_ok H K n \<Longrightarrow> held_ok H K (n + 1)"
  by (fastforce simp: held_ok_def)

lemma held_ok_change: "held_ok (add_mset (c, u) H) K n \<Longrightarrow> held_ok H (K(c := x)) n"
  by (force simp: held_ok_def once_add)

lemma held_ok_connect:
  "held_ok (add_mset (c, u) H) K n \<Longrightarrow> u < poolMaxUses \<Longrightarrow> held_ok (add_mset (c, u + 1) H) (K(c := K c + 1)) n"
  by (force simp: held_ok_def once_add)

lemma shut_ok_mono: "shut_ok U S n \<Longrightarrow> V \<subseteq># U \<Longrightarrow> shut_ok V S n"
  by (auto simp: shut_ok_def dest: mset_subset_eqD)

lemma shut_ok_add:
  assumes "shut_ok U S n" and "V \<subseteq># U" and "once (V + mset cl)" and "\<forall>c \<in> set cl. c < n"
  shows "shut_ok V (S \<union> set cl) n"
proof -
  have "c \<notin># V" if "c \<in> set cl" for c
  proof
    assume "c \<in># V"
    then have "0 < count V c" by simp
    moreover have "0 < count (mset cl) c" using that by (simp add: count_greater_zero_iff)
    moreover have "count V c + count (mset cl) c \<le> 1" using assms(3) by (simp add: once_def)
    ultimately show False by linarith
  qed
  with assms show ?thesis by (auto simp: shut_ok_def dest: mset_subset_eqD)
qed

lemma usable_held: "usable w \<subseteq># image_mset fst (held w)"
proof -
  have "image_mset fst (image_mset (\<lambda>(c, u). (c, u - 1)) D) = image_mset fst D" for D :: "(conn_id \<times> nat) multiset"
    by (simp add: image_mset.compositionality comp_def case_prod_unfold)
  then show ?thesis
    by (simp add: usable_def held_def image_mset.compositionality comp_def image_mset_subseteq_mono)
qed

lemma popLoop_split:
  "popLoop now is = (r, rest, cl) \<Longrightarrow>
     (r = None \<and> rest = [] \<and> cl = map ic_c is \<and> (\<forall>i \<in> set is. poolIdleAge < now - ic_used i))
   \<or> (\<exists>old i. r = Some (ic_c i, ic_uses i) \<and> is = old @ i # rest \<and> cl = map ic_c old
        \<and> \<not> poolIdleAge < now - ic_used i \<and> (\<forall>j \<in> set old. poolIdleAge < now - ic_used j))"
proof (induction now "is" arbitrary: r rest cl rule: popLoop.induct)
  case (2 now first idle)
  show ?case
  proof (cases "poolIdleAge < now - ic_used first")
    case True
    obtain r1 rest1 cl1 where p: "popLoop now idle = (r1, rest1, cl1)" by (metis prod_cases3)
    with True "2.prems" have e: "r1 = r" "rest1 = rest" "cl = ic_c first # cl1" by auto
    from "2.IH" [OF True p] show ?thesis
    proof (elim disjE exE conjE)
      fix old i
      assume "r1 = Some (ic_c i, ic_uses i)" "idle = old @ i # rest1" "cl1 = map ic_c old"
        "\<not> poolIdleAge < now - ic_used i" "\<forall>j \<in> set old. poolIdleAge < now - ic_used j"
      with e True show ?thesis
        by (intro disjI2 exI [of _ "first # old"] exI [of _ i]) simp
    qed (use e True in simp)
  next
    case False
    with "2.prems" show ?thesis by (intro disjI2 exI [of _ "[]"] exI [of _ first]) simp
  qed
qed simp

lemma pop_cases:
  assumes "pop now p = (r, p', cl)"
  obtains (none) "r = None" "p' = p\<lparr>p_idle := []\<rparr>" "cl = map ic_c (p_idle p)"
      "\<forall>i \<in> set (p_idle p). poolIdleAge < now - ic_used i"
  | (hit) old i rest where "r = Some (ic_c i, ic_uses i)" "p_idle p = old @ i # rest"
      "cl = map ic_c old" "p' = p\<lparr>p_idle := rest\<rparr>" "\<not> poolIdleAge < now - ic_used i"
      "\<forall>j \<in> set old. poolIdleAge < now - ic_used j"
proof -
  obtain rest where l: "popLoop now (p_idle p) = (r, rest, cl)" and p': "p' = p\<lparr>p_idle := rest\<rparr>"
    using assms by (auto simp: pop_def split: prod.splits)
  from popLoop_split [OF l] show thesis
    using that p' by blast
qed

lemma put_True:
  "put c u now p = (True, q) \<Longrightarrow> u < poolMaxUses \<and> \<not> p_closed p \<and> length (p_idle p) < poolMaxIdle
     \<and> q = p\<lparr>p_idle := p_idle p @ [\<lparr>ic_c = c, ic_used = now, ic_uses = u\<rparr>]\<rparr>"
  by (auto simp: put_def split: if_splits)

lemma pcCloseWrite_effect:
  "pcCloseWrite E pc = (e, pc', acts) \<Longrightarrow>
     pc_conn pc' = pc_conn pc \<and> pc_uses pc' = pc_uses pc \<and> pc_closeDone pc' = pc_closeDone pc
     \<and> pc_cwDone pc' \<and> (DoClose \<in> set acts \<longrightarrow> \<not> pc_cwDone pc \<and> pc_cwReusable pc' = pc_cwReusable pc)
     \<and> (pc_cwDone pc \<longrightarrow> pc' = pc)"
  by (auto simp: pcCloseWrite_def closeWrite_def split: if_splits)

lemma closeWrite_effect:
  "closeWrite E pc = ((r, err), pc1, as) \<Longrightarrow>
     pc_conn pc1 = pc_conn pc \<and> pc_uses pc1 = pc_uses pc \<and> pc_cwDone pc1
     \<and> (pc_cwDone pc \<longrightarrow> r = pc_cwReusable pc \<and> as = [])
     \<and> (\<not> pc_cwReusable pc \<and> \<not> pc_cwDone pc \<and> r \<longrightarrow> as = [DoHalfClose])"
  by (auto simp: closeWrite_def split: if_splits)

lemma pcClose_effect:
  assumes "pcClose E p pc = (e, p', pc', acts)"
    and "pc_cwDone pc \<or> \<not> pc_cwReusable pc \<and> \<not> pc_closeDone pc"
  shows "pc_closeDone pc' \<and> pc_cwDone pc' \<and> (pc_closeDone pc \<longrightarrow> p' = p \<and> acts = [])
    \<and> (p' = p \<or> (DoClose \<notin> set acts \<and> put (pc_conn pc) (pc_uses pc) (ce_now E) p = (True, p')
          \<and> \<not> pc_closeDone pc \<and> half_open pc))"
proof (cases "pc_closeDone pc")
  case True
  with assms show ?thesis by (simp add: pcClose_def)
next
  case False
  obtain r err pc1 as where cw: "closeWrite E pc = ((r, err), pc1, as)" by (metis prod_cases3 surj_pair)
  note k = closeWrite_effect [OF cw]
  note o = assms(1) [unfolded pcClose_def cw, simplified False if_False prod.case Let_def]
  obtain b q where p: "put (pc_conn pc) (pc_uses pc) (ce_now E) p = (b, q)" by fastforce
  show ?thesis
  proof (cases "err \<noteq> None \<or> \<not> r \<or> \<not> ce_peerClosed E \<or> ce_deadline E \<noteq> None \<or> \<not> b")
    case True
    with o k p put_False [of "pc_conn pc" "pc_uses pc" "ce_now E" p q] False show ?thesis
      by (cases b) (auto split: if_splits)
  next
    case F: False
    with o k p False assms(2) show ?thesis by (auto simp: half_open_def)
  qed
qed

lemma active_simps [simp]:
  "active [] = []" "active (pc # l) = (if pc_closeDone pc then active l else pc # active l)"
  "active (xs @ ys) = active xs @ active ys" "set (active l) = {pc \<in> set l. \<not> pc_closeDone pc}"
  by (simp_all add: active_def)

lemma newPooled_sel [simp]:
  "pc_conn (newPooled c u) = c" "pc_uses (newPooled c u) = u" "\<not> pc_closeDone (newPooled c u)"
  "\<not> pc_cwDone (newPooled c u)" "\<not> pc_cwReusable (newPooled c u)"
  "pc_conn (MarkReusable pc) = pc_conn pc" "pc_uses (MarkReusable pc) = pc_uses pc"
  "pc_closeDone (MarkReusable pc) = pc_closeDone pc" "pc_cwDone (MarkReusable pc) = pc_cwDone pc"
  "pc_cwReusable (MarkReusable pc) = pc_cwReusable pc"
  by (simp_all add: newPooled_def MarkReusable_def)

lemma held_lt: "held_ok (held w) K n \<Longrightarrow> c \<in># image_mset fst (held w) \<Longrightarrow> c < n"
  by (auto simp: held_ok_def)

lemma once_usable: "held_ok (held w) K n \<Longrightarrow> once (usable w)"
  using usable_held once_mono by (auto simp: held_ok_def)

lemma usable_lt: "held_ok (held w) K n \<Longrightarrow> c \<in># usable w \<Longrightarrow> c < n"
  using usable_held held_lt by (meson mset_subset_eqD)

lemma shut_ok_drop:
  assumes "pool_inv w" and "usable w = V + mset cl"
  shows "shut_ok V (w_shut w \<union> set cl) (w_next w)"
proof (rule shut_ok_add)
  have h: "held_ok (held w) (w_connects w) (w_next w)" using assms(1) by (simp add: pool_inv_def)
  show "shut_ok (usable w) (w_shut w) (w_next w)" using assms(1) by (simp add: pool_inv_def)
  show "V \<subseteq># usable w" by (simp add: assms(2))
  show "once (V + mset cl)" using once_usable [OF h] by (simp add: assms(2))
  show "\<forall>c \<in> set cl. c < w_next w" using usable_lt [OF h] by (simp add: assms(2))
qed

lemma pool_inv_pop:
  assumes "pool_inv w" and "pop now (w_pool w) = (r, p', cl)"
  shows "pool_inv (w\<lparr>w_pool := p', w_shut := w_shut w \<union> set cl,
      w_dialing := (case r of None \<Rightarrow> [] | Some (c, uses) \<Rightarrow> [(c, uses + 1)]) @ w_dialing w\<rparr>)"
    (is "pool_inv ?w")
proof -
  have e: "held ?w \<subseteq># held w" "usable w = usable ?w + mset cl"
    "pool_ok p'" "parts_ok ?w"
    using assms(2)
    by (cases rule: pop_cases;
        use assms(1) in \<open>force simp: held_def usable_def pool_inv_def pool_ok_def parts_ok_def\<close>)+
  show ?thesis
    using assms(1) shut_ok_drop [OF assms(1) e(2)] held_ok_mono [OF _ e(1)] e(3,4)
    by (simp add: pool_inv_def)
qed

lemma pool_inv_factory:
  assumes "pool_inv w"
  shows "pool_inv (w\<lparr>w_next := w_next w + 1,
      w_shut := (if isClosed (w_pool w) then insert (w_next w) (w_shut w) else w_shut w),
      w_dialing := (if isClosed (w_pool w) then [] else [(w_next w, 1)]) @ w_dialing w\<rparr>)"
    (is "pool_inv ?w")
proof -
  have h: "held_ok (held w) (w_connects w) (w_next w)" and c: "connects_ok (w_connects w) (w_next w)"
    using assms by (simp_all add: pool_inv_def)
  have n: "w_next w \<notin># usable w" using usable_lt [OF h] by blast
  have s: "shut_ok (usable w) (w_shut w) (w_next w)" using assms by (simp add: pool_inv_def)
  have "held ?w = (if isClosed (w_pool w) then held w else add_mset (w_next w, 0) (held w))"
    "usable ?w = (if isClosed (w_pool w) then usable w else add_mset (w_next w) (usable w))"
    by (simp_all add: held_def usable_def)
  then show ?thesis
    using assms held_ok_fresh [OF h c] held_ok_later [OF h] n s
    by (auto simp: pool_inv_def parts_ok_def connects_ok_def shut_ok_def poolMaxUses_def)
qed

lemma pool_inv_warm:
  assumes "pool_inv w" and "put (w_next w) 0 now (w_pool w) = (ok, p')"
  shows "pool_inv (w\<lparr>w_next := w_next w + 1, w_pool := p',
      w_shut := (if ok then w_shut w else insert (w_next w) (w_shut w))\<rparr>)"
    (is "pool_inv ?w")
proof -
  have h: "held_ok (held w) (w_connects w) (w_next w)" and c: "connects_ok (w_connects w) (w_next w)"
    using assms(1) by (simp_all add: pool_inv_def)
  have n: "w_next w \<notin># usable w" using usable_lt [OF h] by blast
  have s: "shut_ok (usable w) (w_shut w) (w_next w)" using assms(1) by (simp add: pool_inv_def)
  have "held ?w = (if ok then add_mset (w_next w, 0) (held w) else held w)"
    "usable ?w = (if ok then add_mset (w_next w) (usable w) else usable w)" "pool_ok p'"
    using assms put_True [of "w_next w" 0 now "w_pool w" p'] put_False [of "w_next w" 0 now "w_pool w" p']
    by (cases ok; force simp: held_def usable_def pool_inv_def pool_ok_def)+
  then show ?thesis
    using assms(1) held_ok_fresh [OF h c] held_ok_later [OF h] n s
    by (auto simp: pool_inv_def parts_ok_def connects_ok_def shut_ok_def)
qed

lemma pool_inv_connect:
  assumes "pool_inv w" and "w_dialing w = xs @ (c, uses) # ys"
  shows "pool_inv (w\<lparr>w_dialing := xs @ ys, w_connects := (w_connects w)(c := w_connects w c + 1),
      w_live := (if reuse then MarkReusable (newPooled c uses) else newPooled c uses) # w_live w\<rparr>)"
    (is "pool_inv ?w")
proof -
  let ?H = "held (w\<lparr>w_dialing := xs @ ys\<rparr>)"
  have u: "0 < uses" "uses \<le> poolMaxUses" using assms by (auto simp: pool_inv_def parts_ok_def)
  have h: "held_ok (add_mset (c, uses - 1) ?H) (w_connects w) (w_next w)"
    using assms by (simp add: pool_inv_def held_def)
  then have k: "w_connects w c \<le> uses - 1" "c < w_next w" by (auto simp: held_ok_def)
  have e: "held ?w = add_mset (c, uses) ?H" "usable ?w = usable w"
    using assms(2) by (simp_all add: held_def usable_def half_open_def)
  have "held_ok (add_mset (c, uses - 1 + 1) ?H) ((w_connects w)(c := w_connects w c + 1)) (w_next w)"
    by (rule held_ok_connect [OF h]) (use u in linarith)
  with assms u e k show ?thesis
    by (auto simp: pool_inv_def parts_ok_def connects_ok_def)
qed

lemma pool_inv_connect_fails:
  assumes "pool_inv w" and "w_dialing w = xs @ (c, uses) # ys"
  shows "pool_inv (w\<lparr>w_dialing := xs @ ys, w_shut := insert c (w_shut w),
      w_connects := (w_connects w)(c := w_connects w c + (if written then 1 else 0))\<rparr>)"
    (is "pool_inv ?w")
proof -
  let ?H = "held (w\<lparr>w_dialing := xs @ ys\<rparr>)"
  have u: "0 < uses" "uses \<le> poolMaxUses" using assms by (auto simp: pool_inv_def parts_ok_def)
  have h: "held_ok (add_mset (c, uses - 1) ?H) (w_connects w) (w_next w)"
    using assms by (simp add: pool_inv_def held_def)
  then have k: "w_connects w c \<le> uses - 1" "c < w_next w" by (auto simp: held_ok_def)
  have e: "held ?w = ?H" "usable w = usable ?w + mset [c]"
    using assms(2) by (simp_all add: held_def usable_def)
  from shut_ok_drop [OF assms(1) e(2)] assms u e k held_ok_change [OF h] show ?thesis
    by (auto simp: pool_inv_def parts_ok_def connects_ok_def)
qed

lemma pool_inv_closeWrite:
  assumes "pool_inv w" and "w_live w = xs @ pc # ys" and "pcCloseWrite E pc = (e, pc', acts)"
  shows "pool_inv (w\<lparr>w_live := xs @ pc' # ys,
      w_shut := (if DoClose \<in> set acts then insert (pc_conn pc) (w_shut w) else w_shut w)\<rparr>)"
    (is "pool_inv ?w")
proof -
  note f = pcCloseWrite_effect [OF assms(3)]
  have r: "pc_cwDone pc \<or> \<not> pc_cwReusable pc \<and> \<not> pc_closeDone pc" using assms(1,2) by (simp add: pool_inv_def parts_ok_def)
  have e: "held ?w = held w" "parts_ok ?w" using assms f
    by (simp_all add: held_def pool_inv_def parts_ok_def)
  show ?thesis
  proof (cases "DoClose \<in> set acts")
    case True
    with f r have "usable w = usable ?w + mset [pc_conn pc]"
      using assms(2) by (simp add: usable_def half_open_def)
    from shut_ok_drop [OF assms(1) this] e True assms(1) show ?thesis by (simp add: pool_inv_def)
  next
    case False
    have "usable ?w \<subseteq># usable w"
      using assms(2) f r by (auto simp: usable_def half_open_def)
    then have "shut_ok (usable ?w) (w_shut w) (w_next w)"
      using assms(1) shut_ok_mono by (auto simp: pool_inv_def)
    with e False assms(1) show ?thesis by (simp add: pool_inv_def)
  qed
qed

lemma pool_inv_close:
  assumes "pool_inv w" and "w_live w = xs @ pc # ys" and "pcClose E (w_pool w) pc = (e, p', pc', acts)"
  shows "pool_inv (w\<lparr>w_pool := p', w_live := xs @ pc' # ys,
      w_shut := (if DoClose \<in> set acts then insert (pc_conn pc) (w_shut w) else w_shut w)\<rparr>)"
    (is "pool_inv ?w")
proof -
  have r: "pc_cwDone pc \<or> \<not> pc_cwReusable pc \<and> \<not> pc_closeDone pc"
    using assms(1,2) by (simp add: pool_inv_def parts_ok_def)
  note f = pcClose_effect [OF assms(3) r]
  have h: "held_ok (held w) (w_connects w) (w_next w)" using assms(1) by (simp add: pool_inv_def)
  have s: "shut_ok (usable w) (w_shut w) (w_next w)" using assms(1) by (simp add: pool_inv_def)
  have parts: "parts_ok ?w" using assms(1,2) f by (auto simp: pool_inv_def parts_ok_def)
  show ?thesis
  proof (cases "p' = w_pool w")
    case True
    have sub: "held ?w \<subseteq># held w" "usable ?w \<subseteq># usable w"
      using assms(2) f True by (auto simp: held_def usable_def)
    have "shut_ok (usable ?w) (w_shut w \<union> set [pc_conn pc]) (w_next w)" if d: "DoClose \<in> set acts"
    proof (rule shut_ok_add [OF s sub(2)])
      have "\<not> pc_closeDone pc" using f d by auto
      then have m: "image_mset fst (held w) = image_mset fst (held ?w) + mset [pc_conn pc]"
        using assms(2) f True by (simp add: held_def)
      then show "\<forall>c \<in> set [pc_conn pc]. c < w_next w" using held_lt [OF h] by simp
      have "usable ?w + mset [pc_conn pc] \<subseteq># image_mset fst (held w)"
        using usable_held [of ?w] unfolding m by simp
      with h show "once (usable ?w + mset [pc_conn pc])" by (auto simp: held_ok_def intro: once_mono)
    qed
    with assms(1) True parts held_ok_mono [OF h sub(1)] shut_ok_mono [OF s sub(2)] show ?thesis
      by (auto simp: pool_inv_def)
  next
    case False
    with f have g: "DoClose \<notin> set acts" "\<not> pc_closeDone pc" "half_open pc" "pc_closeDone pc'"
      and p: "put (pc_conn pc) (pc_uses pc) (ce_now E) (w_pool w) = (True, p')" by auto
    from g put_True [OF p] assms(2) have "held ?w = held w" "usable ?w = usable w"
      by (simp_all add: held_def usable_def)
    moreover have "pool_ok p'" using put_True [OF p] assms(1) by (auto simp: pool_inv_def pool_ok_def)
    ultimately show ?thesis using assms(1) g parts by (simp add: pool_inv_def)
  qed
qed

lemma pool_inv_poolClose:
  assumes "pool_inv w" and "poolClose (w_pool w) = (p', cl)"
  shows "pool_inv (w\<lparr>w_pool := p', w_shut := w_shut w \<union> set cl\<rparr>)" (is "pool_inv ?w")
proof -
  have e: "held ?w \<subseteq># held w" "usable w = usable ?w + mset cl" "pool_ok p'"
    using assms by (auto simp: held_def usable_def poolClose_def pool_ok_def)
  show ?thesis
    using assms(1) shut_ok_drop [OF assms(1) e(2)] held_ok_mono [OF _ e(1)] e(3)
    by (simp add: pool_inv_def parts_ok_def)
qed

lemma pool_inv_step: "pool_step w w' \<Longrightarrow> pool_inv w \<Longrightarrow> pool_inv w'"
  by (induction rule: pool_step.induct)
     (blast intro: pool_inv_pop pool_inv_factory pool_inv_warm pool_inv_connect pool_inv_connect_fails
        pool_inv_closeWrite pool_inv_close pool_inv_poolClose)+

interpretation pool_machine: state_machine world0 pool_step pool_inv
proof
  show "pool_inv world0"
    by (simp add: pool_inv_def world0_def NewPool_def pool_ok_def held_ok_def held_def once_def shut_ok_def
        usable_def connects_ok_def parts_ok_def)
qed (rule pool_inv_step)

text \<open>
  C5. The pool under any interleaving of dials, factory calls, warming, half closes, closes and
  the closing of the pool: the idle list never exceeds ten transports and is empty once the pool
  is closed; no transport ever carries more than two CONNECT requests; a transport has at most
  one holder among the idle list, the running dials and the open pooled connections; and an idle
  or freshly taken transport has never been closed.
\<close>
theorem pool_safe:
  assumes "pool_step\<^sup>*\<^sup>* world0 w"
  shows "idleCount (w_pool w) \<le> 10 \<and> (p_closed (w_pool w) \<longrightarrow> p_idle (w_pool w) = [])
    \<and> (\<forall>c. w_connects w c \<le> 2)
    \<and> distinct (map ic_c (p_idle (w_pool w)) @ map fst (w_dialing w) @ map pc_conn (active (w_live w)))
    \<and> (\<forall>c \<in> ic_c ` set (p_idle (w_pool w)) \<union> fst ` set (w_dialing w). c \<notin> w_shut w)"
proof -
  have i: "pool_inv w" by (rule pool_machine.reachable [OF assms])
  have "image_mset fst (image_mset (\<lambda>(c, u). (c, u - 1)) D) = image_mset fst D" for D :: "(conn_id \<times> nat) multiset"
    by (simp add: image_mset.compositionality comp_def case_prod_unfold)
  then have "image_mset fst (held w)
      = mset (map ic_c (p_idle (w_pool w)) @ map fst (w_dialing w) @ map pc_conn (active (w_live w)))"
    by (simp add: held_def image_mset.compositionality comp_def)
  then have "once (mset (map ic_c (p_idle (w_pool w)) @ map fst (w_dialing w) @ map pc_conn (active (w_live w))))"
    using i by (simp add: pool_inv_def held_ok_def)
  then have "distinct (map ic_c (p_idle (w_pool w)) @ map fst (w_dialing w) @ map pc_conn (active (w_live w)))"
    unfolding once_def distinct_count_atmost_1 by (metis count_mset_0_iff le_SucE le_zero_eq One_nat_def)
  then show ?thesis
    using i by (auto simp: pool_inv_def idleCount_def pool_ok_def poolMaxIdle_def connects_ok_def poolMaxUses_def
        shut_ok_def usable_def)
qed

theorem pool_safe_witness:
  "\<exists>w. pool_step\<^sup>*\<^sup>* world0 w \<and> idleCount (w_pool w) = 1 \<and> w_connects w 0 = 1
     \<and> (\<forall>c. w_connects w c \<le> 2) \<and> (\<forall>c \<in> ic_c ` set (p_idle (w_pool w)). c \<notin> w_shut w)"
proof -
  let ?E = "\<lparr>ce_close = None, ce_half = None, ce_peerClosed = True, ce_deadline = None, ce_now = 5\<rparr>"
  let ?w1 = "world0\<lparr>w_next := 1, w_dialing := [(0, 1)]\<rparr>"
  let ?w2 = "world0\<lparr>w_next := 1, w_connects := (\<lambda>c. 0)(0 := 1), w_live := [MarkReusable (newPooled 0 1)]\<rparr>"
  have s1: "pool_step world0 ?w1"
    using step_factory [of world0] by (simp add: world0_def NewPool_def isClosed_def)
  have s2: "pool_step ?w1 ?w2"
    using step_connect [of ?w1 "[]" 0 1 "[]" True] by (simp add: world0_def)
  obtain e p' pc' acts where c: "pcClose ?E (w_pool ?w2) (MarkReusable (newPooled 0 1)) = (e, p', pc', acts)"
    by (metis prod_cases4)
  let ?w3 = "?w2\<lparr>w_pool := p', w_live := [pc'],
      w_shut := (if DoClose \<in> set acts then insert 0 (w_shut ?w2) else w_shut ?w2)\<rparr>"
  have s3: "pool_step ?w2 ?w3"
    using step_close [of ?w2 "[]" "MarkReusable (newPooled 0 1)" "[]" ?E, OF _ c]
    by (cases "DoClose \<in> set acts") (simp_all add: world0_def)
  from s1 s2 s3 have r: "pool_step\<^sup>*\<^sup>* world0 ?w3"
    by (meson r_into_rtranclp rtranclp.rtrancl_into_rtrancl)
  have "idleCount p' = 1" using c
    by (auto simp: pcClose_def closeWrite_def put_def MarkReusable_def newPooled_def world0_def NewPool_def
        poolMaxUses_def poolMaxIdle_def idleCount_def)
  with r pool_safe [OF r] show ?thesis by (intro exI [of _ ?w3]) (simp add: world0_def)
qed

theorem pcClose_returns_or_closes_witness:
  "\<exists>q pc' acts. pcClose \<lparr>ce_close = None, ce_half = None, ce_peerClosed = True, ce_deadline = None, ce_now = 5\<rparr>
       NewPool (MarkReusable (newPooled 7 1)) = (None, q, pc', acts)
     \<and> p_idle q = [\<lparr>ic_c = 7, ic_used = 5, ic_uses = 1\<rparr>] \<and> DoClose \<notin> set acts"
proof -
  let ?E = "\<lparr>ce_close = None, ce_half = None, ce_peerClosed = True, ce_deadline = None, ce_now = 5\<rparr>"
  let ?pc = "MarkReusable (newPooled 7 1)"
  have p: "put 7 1 5 NewPool = (True, \<lparr>p_idle = [\<lparr>ic_c = 7, ic_used = 5, ic_uses = 1\<rparr>], p_closed = False\<rparr>)"
    by (simp add: put_def NewPool_def poolMaxUses_def poolMaxIdle_def)
  obtain e q pc' acts where c: "pcClose ?E NewPool ?pc = (e, q, pc', acts)" by (metis prod_cases4)
  moreover have "e = None" using c p by (simp add: pcClose_def closeWrite_def MarkReusable_def newPooled_def)
  moreover have "pc_state ?pc = ConnReusable" by (simp add: MarkReusable_def newPooled_def)
  ultimately show ?thesis
    using pcClose_returns_or_closes [OF _ _ c] p by simp
qed

section \<open>The dial loop\<close>

definition idleIds :: "pool \<Rightarrow> conn_id multiset" where
  "idleIds p = mset (map ic_c (p_idle p))"

lemma take_conn_balance:
  assumes "take_conn a p = (r, q, cl, mk)"
  shows "idleIds p + mset mk = idleIds q + mset cl + (case r of Inl _ \<Rightarrow> {#} | Inr (c, u) \<Rightarrow> {#c#})"
    and "pool_ok p \<Longrightarrow> pool_ok q \<and> (\<forall>c u. r = Inr (c, u) \<longrightarrow> 1 \<le> u \<and> u \<le> poolMaxUses)"
proof -
  obtain x p' cl' where pop: "pop (at_now a) p = (x, p', cl')" by (metis prod_cases3)
  have "idleIds p + mset mk = idleIds q + mset cl + (case r of Inl _ \<Rightarrow> {#} | Inr (c, u) \<Rightarrow> {#c#})
    \<and> (pool_ok p \<longrightarrow> pool_ok q \<and> (\<forall>c u. r = Inr (c, u) \<longrightarrow> 1 \<le> u \<and> u \<le> poolMaxUses))"
    using pop
  proof (cases rule: pop_cases)
    case (hit old i rest)
    with assms pop show ?thesis
      by (auto simp: take_conn_def idleIds_def pool_ok_def)
  next
    case none
    note o = assms [unfolded take_conn_def pop none(1), simplified]
    show ?thesis
    proof (cases "at_ctx a = None \<and> \<not> p_closed p")
      case True
      show ?thesis
      proof (cases "at_factory a")
        case (Inl e)
        with True none o show ?thesis by (auto simp: idleIds_def pool_ok_def isClosed_def)
      next
        case (Inr c)
        with True none o show ?thesis
          by (auto simp: idleIds_def pool_ok_def isClosed_def poolClose_def poolMaxUses_def split: if_splits)
      qed
    next
      case False
      with none o show ?thesis
        by (auto simp: idleIds_def pool_ok_def isClosed_def split: option.splits)
    qed
  qed
  then show "idleIds p + mset mk = idleIds q + mset cl + (case r of Inl _ \<Rightarrow> {#} | Inr (c, u) \<Rightarrow> {#c#})"
    and "pool_ok p \<Longrightarrow> pool_ok q \<and> (\<forall>c u. r = Inr (c, u) \<longrightarrow> 1 \<le> u \<and> u \<le> poolMaxUses)"
    by blast+
qed

text \<open>When the factory is called, and that nothing else makes a transport.\<close>

lemma take_conn_made:
  assumes "take_conn a p = (r, q, cl, mk)"
  shows "mk = (case at_factory a of
      Inr c \<Rightarrow> if (\<forall>i \<in> set (p_idle p). poolIdleAge < at_now a - ic_used i) \<and> at_ctx a = None \<and> \<not> p_closed p
               then [c] else []
    | Inl e \<Rightarrow> [])"
proof -
  obtain x p' cl' where pop: "pop (at_now a) p = (x, p', cl')" by (metis prod_cases3)
  then show ?thesis
  proof (cases rule: pop_cases)
    case (hit old i rest)
    with assms pop show ?thesis by (auto simp: take_conn_def split: sum.splits)
  next
    case none
    with assms pop show ?thesis
      by (auto simp: take_conn_def isClosed_def Let_def split: sum.splits option.splits if_splits prod.splits)
  qed
qed

lemma balance_chain:
  fixes P :: "'a multiset"
  assumes "P + F = P1 + C1 + {#c#}" and "P1 + G = Q + C2 + R"
  shows "P + (F + G) = Q + (C1 + {#c#} + C2) + R"
proof -
  have "P + (F + G) = (P + F) + G" by (simp add: add.assoc)
  also have "\<dots> = (P1 + G) + (C1 + {#c#})" by (simp only: assms(1)) (simp add: ac_simps)
  also have "\<dots> = Q + (C1 + {#c#} + C2) + R" by (simp only: assms(2)) (simp add: ac_simps)
  finally show ?thesis .
qed

lemma poolDial_fact:
  "poolDial reuse n ats prev p = (r, q, cl, mk) \<Longrightarrow> pool_ok p \<Longrightarrow>
     pool_ok q
   \<and> (case r of Inl e \<Rightarrow> (n \<le> length ats \<and> (prev \<noteq> None \<or> 0 < n) \<longrightarrow> e \<noteq> None)
      | Inr pc \<Rightarrow> pc_state pc = (if reuse then ConnReusable else ConnNew) \<and> 1 \<le> pc_uses pc \<and> pc_uses pc \<le> poolMaxUses)
   \<and> idleIds p + mset mk = idleIds q + mset cl + (case r of Inl _ \<Rightarrow> {#} | Inr pc \<Rightarrow> {#pc_conn pc#})"
proof (induction reuse n ats prev p arbitrary: r q cl mk rule: poolDial.induct)
  case (3 reuse n a ats prev p)
  obtain t p1 cl1 mk1 where t: "take_conn a p = (t, p1, cl1, mk1)" by (metis prod_cases4)
  note b = take_conn_balance(1) [OF t] and ok = take_conn_balance(2) [OF t "3.prems"(2)]
  show ?case
  proof (cases t)
    case (Inl e)
    with t "3.prems" ok b show ?thesis by auto
  next
    case (Inr cu)
    obtain c u where cu: "cu = (c, u)" by (cases cu)
    let ?f = "if at_deadline a \<noteq> None then at_deadline a
                 else if at_connect a \<noteq> None then at_connect a else at_clear a"
    show ?thesis
    proof (cases ?f)
      case None
      with t Inr cu "3.prems" ok b show ?thesis by (auto simp: MarkReusable_def newPooled_def)
    next
      case (Some e)
      obtain r2 q2 cl2 mk2 where d: "poolDial reuse n ats (Some e) p1 = (r2, q2, cl2, mk2)" by (metis prod_cases4)
      have m: "r = r2" "q = q2" "cl = cl1 @ c # cl2" "mk = mk1 @ mk2"
        using "3.prems"(1) t Inr cu Some d by (simp_all split: if_splits)
      have IH: "pool_ok q2
        \<and> (case r2 of Inl e \<Rightarrow> (n \<le> length ats \<longrightarrow> e \<noteq> None)
           | Inr pc \<Rightarrow> pc_state pc = (if reuse then ConnReusable else ConnNew) \<and> 1 \<le> pc_uses pc \<and> pc_uses pc \<le> poolMaxUses)
        \<and> idleIds p1 + mset mk2 = idleIds q2 + mset cl2 + (case r2 of Inl _ \<Rightarrow> {#} | Inr pc \<Rightarrow> {#pc_conn pc#})"
        using "3.IH" [OF t [symmetric] Inr cu [symmetric] refl refl Some d] ok by (cases r2) auto
      moreover have "idleIds p + mset (mk1 @ mk2)
          = idleIds q + mset cl + (case r of Inl _ \<Rightarrow> {#} | Inr pc \<Rightarrow> {#pc_conn pc#})"
        using balance_chain [of "idleIds p" "mset mk1" "idleIds p1" "mset cl1" c "mset mk2" "idleIds q2" "mset cl2"] IH b Inr cu m
        by (simp add: ac_simps)
      ultimately show ?thesis using m by (auto split: sum.splits)
    qed
  qed
qed auto

text \<open>
  C16. \<open>Pool.Dial\<close> leaks no transport: after at most three attempts, the transports that were
  idle before together with every transport the factory made are exactly those still idle,
  those it closed, and the one it returned - also when the pool is closed while the factory
  runs -; the first attempt calls the factory exactly when no idle connection is young enough,
  the context is alive and the pool is open; a returned connection carries its first or second
  CONNECT and is marked reusable exactly for a reuse node, and a failure always reports an error.
\<close>
theorem poolDial_accounts_for_all:
  assumes "poolDial reuse 3 (a # ats) None p = (r, q, cl, mk)" and "pool_ok p" and "length ats = 2"
  shows "(case r of Inl e \<Rightarrow> e \<noteq> None
      | Inr pc \<Rightarrow> pc_state pc = (if reuse then ConnReusable else ConnNew) \<and> pc_uses pc \<in> {1, 2})
   \<and> mset (map ic_c (p_idle p)) + mset mk
        = mset (map ic_c (p_idle q)) + mset cl + (case r of Inl _ \<Rightarrow> {#} | Inr pc \<Rightarrow> {#pc_conn pc#})
   \<and> ((\<forall>i \<in> set (p_idle p). poolIdleAge < at_now a - ic_used i) \<and> at_ctx a = None \<and> \<not> p_closed p
        \<longrightarrow> (\<forall>c. at_factory a = Inr c \<longrightarrow> (\<exists>mk'. mk = c # mk')))"
proof (intro conjI impI allI)
  fix c
  assume f: "(\<forall>i \<in> set (p_idle p). poolIdleAge < at_now a - ic_used i) \<and> at_ctx a = None \<and> \<not> p_closed p"
    and c: "at_factory a = Inr c"
  obtain t p1 cl1 mk1 where t: "take_conn a p = (t, p1, cl1, mk1)" by (metis prod_cases4)
  with take_conn_made [OF t] f c have "mk1 = [c]" by simp
  with assms(1) t show "\<exists>mk'. mk = c # mk'"
    by (auto simp: eval_nat_numeral split: sum.splits option.splits prod.splits)
next
  show "case r of Inl e \<Rightarrow> e \<noteq> None
      | Inr pc \<Rightarrow> pc_state pc = (if reuse then ConnReusable else ConnNew) \<and> pc_uses pc \<in> {1, 2}"
    using poolDial_fact [OF assms(1,2)] assms(3) by (auto simp: poolMaxUses_def split: sum.splits)
  show "mset (map ic_c (p_idle p)) + mset mk
        = mset (map ic_c (p_idle q)) + mset cl + (case r of Inl _ \<Rightarrow> {#} | Inr pc \<Rightarrow> {#pc_conn pc#})"
    using poolDial_fact [OF assms(1,2)] by (simp add: idleIds_def)
qed

theorem poolDial_accounts_for_all_witness:
  "\<exists>pc q cl mk. poolDial True 3
     [\<lparr>at_now = 0, at_ctx = None, at_factory = Inr 4, at_closes = False, at_deadline = None, at_connect = Some (ConnErr 1), at_clear = None\<rparr>,
      \<lparr>at_now = 1, at_ctx = None, at_factory = Inr 5, at_closes = False, at_deadline = None, at_connect = None, at_clear = None\<rparr>,
      \<lparr>at_now = 2, at_ctx = None, at_factory = Inr 6, at_closes = False, at_deadline = None, at_connect = None, at_clear = None\<rparr>]
     None NewPool = (Inr pc, q, cl, mk) \<and> mk = [4, 5] \<and> cl = [4] \<and> pc_conn pc = 5 \<and> pc_uses pc \<in> {1, 2}
     \<and> mset mk = mset (map ic_c (p_idle q)) + mset cl + {#pc_conn pc#}"
proof -
  let ?a = "\<lparr>at_now = 0, at_ctx = None, at_factory = Inr 4, at_closes = False, at_deadline = None, at_connect = Some (ConnErr 1), at_clear = None\<rparr>"
    and ?ats = "[\<lparr>at_now = 1, at_ctx = None, at_factory = Inr 5, at_closes = False, at_deadline = None, at_connect = None, at_clear = None\<rparr>,
      \<lparr>at_now = 2, at_ctx = None, at_factory = Inr 6, at_closes = False, at_deadline = None, at_connect = None, at_clear = None\<rparr>]"
  have d: "poolDial True 3 (?a # ?ats) None NewPool = (Inr (MarkReusable (newPooled 5 1)), NewPool, [4], [4, 5])"
    by (simp add: eval_nat_numeral take_conn_def pop_def NewPool_def isClosed_def)
  from poolDial_accounts_for_all [OF d] show ?thesis
    unfolding d by (simp add: NewPool_def pool_ok_def)
qed

end
