(* ===== verification/Udp_Assoc.thy ===== *)
theory Udp_Assoc
  imports Udp_Hub "HOL-Library.Sublist"
begin

text \<open>
  SOCKS5 UDP ASSOCIATE (\<open>serveUDPAssociate\<close> of \<open>internal/inbound/udp.go\<close>) with the read loop of the
  hub (\<open>hub.go\<close>): the setup as a function, then the goroutines of all associations (forwarding,
  replying, watching the TCP connection) and the hub's reader as interleaved steps.
\<close>

section \<open>Setting up\<close>

datatype assoc_err = UDPNotEnabled | UpstreamErr nat | WildcardBusy | ReplyErr in_err

definition socksFailure :: "byte \<Rightarrow> bytes" where
  "socksFailure rep = [5, rep, 0, 1, 0, 0, 0, 0, 0, 0]"

definition assocSetup ::
  "(nat + unit) option \<Rightarrow> addr option \<Rightarrow> addr option \<Rightarrow> addr option \<Rightarrow> hub \<Rightarrow> client
   \<Rightarrow> (assoc_err + sess_id) \<times> hub \<times> client \<times> nat \<times> nat" where
  \<comment> \<open>up to the reply to the client. \<open>dial\<close> is \<open>None\<close> where \<open>udp\<close> or the hub is nil, else the result of
     \<open>udp()\<close>; the last two components count the upstreams opened and closed\<close>
  "assocSetup dial peer expect local h c =
     (case dial of
        None \<Rightarrow> (Inl UDPNotEnabled, h, snd (cl_write (socksFailure 7) c), 0, 0)
      | Some (Inl e) \<Rightarrow> (Inl (UpstreamErr e), h, snd (cl_write (socksFailure 1) c), 0, 0)
      | Some (Inr _) \<Rightarrow>
          (case register peer expect h of
             (None, h1) \<Rightarrow> (Inl WildcardBusy, h1, snd (cl_write (socksFailure 1) c), 1, 1)
           | (Some s, h1) \<Rightarrow>
               (let (ip, port) = socksBindAddr local peer in
                case writeSOCKSReply 0 ip port c of
                  (Inl e, c1) \<Rightarrow> (Inl (ReplyErr e), unregister s h1, c1, 1, 1)
                | (Inr _, c1) \<Rightarrow> (Inr s, h1, c1, 1, 0))))"

section \<open>The hub's reader alone\<close>

datatype read_event = Datagram bytes addr | ReadClosed | ReadRetryable | ReadFatal nat

fun readLoop ::
  "read_event list \<Rightarrow> int \<Rightarrow> hub \<Rightarrow> (sess_id \<times> addr \<times> bytes) list \<times> int list \<times> nat option option \<times> hub" where
  \<comment> \<open>what is handed to which session, the sleeps, and the result (\<open>None\<close> while the loop goes on)\<close>
  "readLoop [] delay h = ([], [], None, h)"
| "readLoop (ReadClosed # es) delay h = ([], [], Some None, h)"
| "readLoop (ReadFatal e # es) delay h = ([], [], Some (Some e), h)"
| "readLoop (ReadRetryable # es) delay h =
     (case readLoop es (nextRetryDelay delay) h of (ds, ts, r, h') \<Rightarrow> (ds, nextRetryDelay delay # ts, r, h'))"
| "readLoop (Datagram b from # es) delay h =
     (case readDatagram b from h of
        (None, h1) \<Rightarrow> readLoop es 0 h1
      | (Some d, h1) \<Rightarrow> (case readLoop es 0 h1 of (ds, ts, r, h') \<Rightarrow> (d # ds, ts, r, h')))"

section \<open>Goroutines\<close>

record assoc =
  as_hub :: hub
  as_live :: "sess_id list"      \<comment> \<open>associations in the \<open>select\<close> loop\<close>
  as_replying :: "sess_id set"   \<comment> \<open>reply goroutines\<close>
  as_pend :: "(sess_id \<times> addr \<times> bytes) option"  \<comment> \<open>the hub's reader before \<open>s.ch <- d\<close>\<close>
  as_ch :: "sess_id \<Rightarrow> (addr \<times> bytes) list"     \<comment> \<open>the buffered channels\<close>
  as_wire :: "(sess_id \<times> addr \<times> bytes) list"    \<comment> \<open>datagrams as read off the socket: association, source, bytes\<close>
  as_rcv :: "sess_id \<Rightarrow> (addr \<times> bytes) list"    \<comment> \<open>those whose content entered the channel\<close>
  as_up :: "sess_id \<Rightarrow> (addr \<times> bytes) list"     \<comment> \<open>what was written upstream: target, payload\<close>
  as_upin :: "sess_id \<Rightarrow> (addr \<times> bytes) list"   \<comment> \<open>what was read from upstream: source, payload\<close>
  as_out :: "(sess_id \<times> addr \<times> bytes) list"     \<comment> \<open>datagrams sent to clients: association, destination, bytes\<close>
  as_dialled :: nat
  as_closed :: nat

text \<open>
  \<open>as_pend\<close> holds the association, the target and the payload of the datagram the reader is
  about to queue; the last of \<open>as_wire\<close> is that datagram. \<open>as_wire\<close>, \<open>as_rcv\<close>, \<open>as_up\<close>,
  \<open>as_upin\<close> and \<open>as_out\<close> only record what happened; no step reads them but \<open>queued\<close>, which
  copies the datagram from one record to the other.
\<close>

definition chanCap :: nat where "chanCap = 32"

definition assocInit :: assoc where
  "assocInit =
     \<lparr>as_hub = newUDPHub, as_live = [], as_replying = {}, as_pend = None, as_ch = (\<lambda>_. []), as_wire = [],
      as_rcv = (\<lambda>_. []), as_up = (\<lambda>_. []), as_upin = (\<lambda>_. []), as_out = [], as_dialled = 0, as_closed = 0\<rparr>"

definition finish :: "sess_id \<Rightarrow> assoc \<Rightarrow> assoc" where
  \<comment> \<open>the deferred calls: \<open>unregister\<close>, then \<open>up.Close\<close>\<close>
  "finish s a = a\<lparr>as_hub := unregister s (as_hub a), as_live := remove1 s (as_live a), as_closed := as_closed a + 1\<rparr>"

inductive assoc_step :: "assoc \<Rightarrow> assoc \<Rightarrow> bool" where
  associate: "assocSetup dial peer expect local (as_hub a) c = (r, h', c', opened, shut) \<Longrightarrow>
    assoc_step a (a\<lparr>as_hub := h',
      as_live := (case r of Inr s \<Rightarrow> s # as_live a | Inl _ \<Rightarrow> as_live a),
      as_replying := (case r of Inr s \<Rightarrow> insert s (as_replying a) | Inl _ \<Rightarrow> as_replying a),
      as_dialled := as_dialled a + opened, as_closed := as_closed a + shut\<rparr>)"
| dispatched: "as_pend a = None \<Longrightarrow> readDatagram b (UDPAddr ip port zone) (as_hub a) = (Some (s, d, p), h') \<Longrightarrow>
    assoc_step a (a\<lparr>as_hub := h', as_pend := Some (s, d, p), as_wire := as_wire a @ [(s, UDPAddr ip port zone, b)]\<rparr>)"
| ignored: "as_pend a = None \<Longrightarrow> readDatagram b (UDPAddr ip port zone) (as_hub a) = (None, h') \<Longrightarrow>
    assoc_step a (a\<lparr>as_hub := h'\<rparr>)"
| queued: "as_pend a = Some (s, d, p) \<Longrightarrow> length (as_ch a s) < chanCap \<Longrightarrow>
    assoc_step a (a\<lparr>as_pend := None, as_ch := (as_ch a)(s := as_ch a s @ [(d, p)]),
      as_rcv := (as_rcv a)(s := as_rcv a s @ [snd (last (as_wire a))])\<rparr>)"
| dropped: "as_pend a = Some (s, d, p) \<Longrightarrow> us_done (sess (as_hub a) s) \<Longrightarrow>
    assoc_step a (a\<lparr>as_pend := None\<rparr>)"
| forwarded: "s \<in> set (as_live a) \<Longrightarrow> as_ch a s = x # xs \<Longrightarrow>
    assoc_step a (a\<lparr>as_ch := (as_ch a)(s := xs), as_up := (as_up a)(s := as_up a s @ [x])\<rparr>)"
| up_failed: "s \<in> set (as_live a) \<Longrightarrow> as_ch a s = x # xs \<Longrightarrow>
    assoc_step a (finish s (a\<lparr>as_ch := (as_ch a)(s := xs)\<rparr>))"
| ended: "s \<in> set (as_live a) \<Longrightarrow> us_done (sess (as_hub a) s) \<Longrightarrow> assoc_step a (finish s a)"
| replied: "s \<in> as_replying a \<Longrightarrow> clientOf s (as_hub a) = Some dst \<Longrightarrow>
    assoc_step a (a\<lparr>as_upin := (as_upin a)(s := as_upin a s @ [(src, payload)]),
      as_out := as_out a @ [(s, dst, encodeSOCKSUDP (Some src) payload)]\<rparr>)"
| no_client: "s \<in> as_replying a \<Longrightarrow> clientOf s (as_hub a) = None \<Longrightarrow>
    assoc_step a (a\<lparr>as_upin := (as_upin a)(s := as_upin a s @ [(src, payload)])\<rparr>)"
| reply_failed: "s \<in> as_replying a \<Longrightarrow> unsent = [] \<or> unsent = [(src, payload)] \<Longrightarrow>
    assoc_step a (a\<lparr>as_hub := stop s (as_hub a), as_replying := as_replying a - {s},
      as_upin := (as_upin a)(s := as_upin a s @ unsent)\<rparr>)"
| tcp_gone: "s < hb_next (as_hub a) \<Longrightarrow> assoc_step a (a\<lparr>as_hub := stop s (as_hub a)\<rparr>)"
| reorder: "mset m = mset (hb_by (as_hub a)) \<Longrightarrow> assoc_step a (a\<lparr>as_hub := (as_hub a)\<lparr>hb_by := m\<rparr>\<rparr>)"

section \<open>The hub under these steps\<close>

definition hub_grows :: "hub \<Rightarrow> hub \<Rightarrow> bool" where
  \<comment> \<open>associations stay, with their peer, and a pinned client and the end are for good\<close>
  "hub_grows h h' \<longleftrightarrow>
     hb_next h \<le> hb_next h' \<and> (\<forall>s < hb_next h. us_peerIP (sess h' s) = us_peerIP (sess h s)
       \<and> (clientOf s h \<noteq> None \<longrightarrow> clientOf s h' = clientOf s h)
       \<and> (us_done (sess h s) \<longrightarrow> us_done (sess h' s)))"

lemma hub_grows_refl [simp]: "hub_grows h h"
  by (simp add: hub_grows_def)

lemma hub_grows_trans: "hub_grows h h' \<Longrightarrow> hub_grows h' h'' \<Longrightarrow> hub_grows h h''"
  by (simp add: hub_grows_def)

lemma hub_grows_register:
  assumes "register peer expect h = (r, h')"
  shows "hub_grows h h'" "r = Some s \<Longrightarrow> s = hb_next h \<and> hb_next h' = Suc s"
  using assms by (auto simp: register_def hub_grows_def sess_def clientOf_def Let_def split: if_splits)

lemma stop_simps [simp]: "hb_next (stop s h) = hb_next h" "hb_next (unregister s h) = hb_next h"
  by (simp_all add: unregister_def stop_def Let_def)

lemma hub_grows_stop [simp]: "hub_grows h (stop s h)" "hub_grows h (unregister s h)"
  by (auto simp: hub_grows_def unregister_def stop_def sess_def clientOf_def Let_def)

lemma hub_grows_dispatch:
  assumes "hub_inv h" and "dispatch from h = (r, h')"
  shows "hub_grows h h' \<and> hb_next h' = hb_next h"
  using assms(2)
proof (cases rule: dispatch_cases)
  case (pin i)
  with assms(1) have "clientOf i h = None" by (simp add: hub_inv_def clientOf_def)
  with pin show ?thesis by (auto simp: hub_grows_def sess_def clientOf_def pinLocked_def)
qed (auto simp: hub_grows_def sess_def clientOf_def)

lemma readDatagram_cases:
  assumes "readDatagram b from h = (r, h')"
  obtains (bad) "r = None" "h' = h"
  | (read) host port p q where "parseSOCKSUDP b = Inr (host, port, p)" "dispatch from h = (q, h')"
      "r = map_option (\<lambda>s. (s, socksTarget host port, p)) q"
  using assms by (auto simp: readDatagram_def socksTarget_def split: sum.splits prod.splits option.splits)

lemma hub_grows_readDatagram:
  assumes "hub_inv h" and "readDatagram b from h = (r, h')"
  shows "hub_grows h h' \<and> hb_next h' = hb_next h"
  using assms(2) by (cases rule: readDatagram_cases) (use hub_grows_dispatch [OF assms(1)] in auto)

lemma hub_inv_stop:
  assumes "hub_inv h" and "i < hb_next h"
  shows "hub_inv (stop i h)"
proof -
  let ?s = "(sess h i)\<lparr>us_done := True\<rparr>"
  have s: "sess (stop i h) j = (if j = i then ?s else sess h j)" for j by (simp add: stop_def sess_def)
  have c: "client_ok ?s" using hub_inv_sess [OF assms] by (simp add: client_ok_def peer_ok_def)
  have k: "key_ok ?s k = key_ok (sess h i) k" for k by (simp add: key_ok_def peer_ok_def)
  show ?thesis
    using assms c k unfolding hub_inv_def s by (auto simp: stop_def split: if_splits)
qed

lemma hub_inv_readDatagram:
  assumes "hub_inv h" and "is_udp from" and "readDatagram b from h = (r, h')"
  shows "hub_inv h'"
  using assms(3) by (cases rule: readDatagram_cases) (use assms(1) hub_inv_dispatch [OF assms(1,2)] in auto)

text \<open>The reader never sleeps longer than a second and ends only when the socket is closed or broken.\<close>

lemma nextRetryDelay_bounds: "0 < nextRetryDelay d \<and> nextRetryDelay d \<le> retryMaxDelay"
  by (simp add: nextRetryDelay_def retryInitialDelay_def retryMaxDelay_def)

lemma readLoop_sleeps:
  "readLoop es d h = (ds, ts, r, h') \<Longrightarrow>
     list_all (\<lambda>t. 0 < t \<and> t \<le> retryMaxDelay) ts \<and> (r \<noteq> None \<longrightarrow> ReadClosed \<in> set es \<or> (\<exists>e. ReadFatal e \<in> set es))"
proof (induction es d h arbitrary: ds ts r h' rule: readLoop.induct)
  case (4 es delay h)
  then show ?case using nextRetryDelay_bounds by (auto split: prod.splits)
next
  case (5 b src es delay h)
  then show ?case by (fastforce split: prod.splits option.splits)
qed auto

section \<open>The invariant\<close>

definition read_for :: "sess_id \<Rightarrow> assoc \<Rightarrow> (addr \<times> bytes) list" where
  \<comment> \<open>the datagrams read off the socket for \<open>s\<close>, in order\<close>
  "read_for s a = map snd (filter (\<lambda>(t, _). t = s) (as_wire a))"

definition sent_for :: "sess_id \<Rightarrow> assoc \<Rightarrow> (addr \<times> bytes) list" where
  \<comment> \<open>the datagrams sent to the client of \<open>s\<close>, in order\<close>
  "sent_for s a = map snd (filter (\<lambda>(t, _). t = s) (as_out a))"

fun waiting :: "sess_id \<Rightarrow> (sess_id \<times> addr \<times> bytes) option \<Rightarrow> (sess_id \<times> addr \<times> bytes) list \<Rightarrow> (addr \<times> bytes) list" where
  "waiting s None w = []"
| "waiting s (Some (t, _)) w = (if t = s then [snd (last w)] else [])"

definition waiting_for :: "sess_id \<Rightarrow> assoc \<Rightarrow> (addr \<times> bytes) list" where
  \<comment> \<open>the datagram the reader is about to queue for \<open>s\<close>\<close>
  "waiting_for s a = waiting s (as_pend a) (as_wire a)"

definition carries :: "addr \<times> bytes \<Rightarrow> addr \<times> bytes \<Rightarrow> bool" where
  "carries = (\<lambda>(_, b) (d, p). socks_layout b d p)"

definition src_ok :: "hub \<Rightarrow> sess_id \<Rightarrow> addr \<Rightarrow> bool" where
  \<comment> \<open>the source is the pinned client and on the host of the association's TCP peer\<close>
  "src_ok h s from \<longleftrightarrow>
     s < hb_next h \<and> (\<exists>ip port zone cip czone. from = UDPAddr ip port zone
       \<and> clientOf s h = Some (UDPAddr cip port czone) \<and> IPEqual cip ip
       \<and> (us_peerIP (sess h s) \<noteq> [] \<longrightarrow> IPEqual (us_peerIP (sess h s)) ip))"

definition hubInv :: "assoc \<Rightarrow> bool" where
  "hubInv a \<longleftrightarrow>
     hub_inv (as_hub a) \<and> distinct (as_live a)
     \<and> (\<forall>s \<in> set (as_live a). s < hb_next (as_hub a)) \<and> (\<forall>s \<in> as_replying a. s < hb_next (as_hub a))
     \<and> as_dialled a = as_closed a + length (as_live a)
     \<and> (\<forall>s d p. as_pend a = Some (s, d, p) \<longrightarrow> as_wire a \<noteq> [] \<and> fst (last (as_wire a)) = s
          \<and> carries (snd (last (as_wire a))) (d, p))"

definition flowInv :: "assoc \<Rightarrow> sess_id \<Rightarrow> bool" where
  "flowInv a s \<longleftrightarrow>
     length (as_ch a s) \<le> chanCap
     \<and> (\<exists>x. list_all2 carries (as_rcv a s) (as_up a s @ x) \<and> (s \<in> set (as_live a) \<longrightarrow> x = as_ch a s))
     \<and> subseq (as_rcv a s @ waiting_for s a) (read_for s a)
     \<and> (us_done (sess (as_hub a) s) \<or> read_for s a = as_rcv a s @ waiting_for s a)
     \<and> (\<forall>(f, b) \<in> set (read_for s a). src_ok (as_hub a) s f)"

definition replyInv :: "assoc \<Rightarrow> sess_id \<Rightarrow> bool" where
  "replyInv a s \<longleftrightarrow>
     (\<exists>sent. subseq sent (as_upin a s) \<and> (sent \<noteq> [] \<longrightarrow> clientOf s (as_hub a) \<noteq> None)
        \<and> sent_for s a = map (\<lambda>(src, p). (the (clientOf s (as_hub a)), encodeSOCKSUDP (Some src) p)) sent)"

definition freshInv :: "assoc \<Rightarrow> sess_id \<Rightarrow> bool" where
  "freshInv a s \<longleftrightarrow> as_ch a s = [] \<and> as_rcv a s = [] \<and> as_up a s = [] \<and> as_upin a s = []
     \<and> read_for s a = [] \<and> waiting_for s a = [] \<and> sent_for s a = []"

definition sessInv :: "assoc \<Rightarrow> sess_id \<Rightarrow> bool" where
  "sessInv a s \<longleftrightarrow> (if s < hb_next (as_hub a) then flowInv a s \<and> replyInv a s else freshInv a s)"

definition assocInv :: "assoc \<Rightarrow> bool" where
  "assocInv a \<longleftrightarrow> hubInv a \<and> (\<forall>s. sessInv a s)"

lemma assocInvI: "hubInv a \<Longrightarrow> (\<And>s. sessInv a s) \<Longrightarrow> assocInv a"
  by (simp add: assocInv_def)

lemma assocInvD: "assocInv a \<Longrightarrow> hubInv a" "assocInv a \<Longrightarrow> sessInv a s" "assocInv a \<Longrightarrow> hub_inv (as_hub a)"
  by (simp_all add: assocInv_def hubInv_def)

lemma src_ok_grows: "hub_grows h h' \<Longrightarrow> src_ok h s from \<Longrightarrow> src_ok h' s from"
  by (auto simp: src_ok_def hub_grows_def)

text \<open>A session keeps its invariant in every step that leaves its own records alone.\<close>

definition same_sess :: "assoc \<Rightarrow> assoc \<Rightarrow> sess_id \<Rightarrow> bool" where
  "same_sess a a' s \<longleftrightarrow>
     as_ch a' s = as_ch a s \<and> as_rcv a' s = as_rcv a s \<and> as_up a' s = as_up a s \<and> as_upin a' s = as_upin a s
     \<and> read_for s a' = read_for s a \<and> waiting_for s a' = waiting_for s a \<and> sent_for s a' = sent_for s a
     \<and> (s \<in> set (as_live a') \<longrightarrow> s \<in> set (as_live a) \<or> hb_next (as_hub a) \<le> s)"

lemma replyInv_grows:
  assumes "replyInv a s" and "hub_grows (as_hub a) (as_hub a')" and "s < hb_next (as_hub a)"
    and "as_upin a' s = as_upin a s" "sent_for s a' = sent_for s a"
  shows "replyInv a' s"
proof -
  from assms(1) obtain sent where "subseq sent (as_upin a s)" "sent \<noteq> [] \<longrightarrow> clientOf s (as_hub a) \<noteq> None"
    "sent_for s a = map (\<lambda>(src, p). (the (clientOf s (as_hub a)), encodeSOCKSUDP (Some src) p)) sent"
    by (auto simp: replyInv_def)
  with assms(2-) show ?thesis unfolding replyInv_def
    by (intro exI [of _ sent]) (cases "sent = []"; auto simp: hub_grows_def)
qed

lemma sessInv_same:
  assumes "sessInv a s" and "hub_grows (as_hub a) (as_hub a')" and "same_sess a a' s"
  shows "sessInv a' s"
proof (cases "s < hb_next (as_hub a)")
  case True
  then have s': "s < hb_next (as_hub a')" using assms(2) by (simp add: hub_grows_def)
  have f: "flowInv a s" "replyInv a s" using assms(1) True by (simp_all add: sessInv_def)
  then obtain x where "list_all2 carries (as_rcv a s) (as_up a s @ x)" "s \<in> set (as_live a) \<longrightarrow> x = as_ch a s"
    by (auto simp: flowInv_def)
  with f(1) True assms(2,3) src_ok_grows [OF assms(2)] have "flowInv a' s"
    unfolding flowInv_def same_sess_def hub_grows_def by fastforce
  moreover have "replyInv a' s"
    by (rule replyInv_grows [OF f(2) assms(2) True]) (use assms(3) in \<open>simp_all add: same_sess_def\<close>)
  ultimately show ?thesis using s' by (simp add: sessInv_def)
next
  case False
  then have "freshInv a s" using assms(1) by (simp add: sessInv_def)
  with assms(3) show ?thesis
    by (auto simp: sessInv_def freshInv_def flowInv_def replyInv_def same_sess_def chanCap_def)
qed

lemma hub_only_step:
  assumes "assocInv a" and "hub_inv h'" and "hub_grows (as_hub a) h'" and "r \<subseteq> as_replying a"
  shows "assocInv (a\<lparr>as_hub := h', as_replying := r\<rparr>)"
proof (rule assocInvI)
  have n: "hb_next (as_hub a) \<le> hb_next h'" using assms(3) by (simp add: hub_grows_def)
  show "hubInv (a\<lparr>as_hub := h', as_replying := r\<rparr>)"
    using assocInvD(1) [OF assms(1)] assms(2,4) n by (auto simp: hubInv_def intro: order_less_le_trans)
  show "sessInv (a\<lparr>as_hub := h', as_replying := r\<rparr>) s" for s
    by (rule sessInv_same [OF assocInvD(2) [OF assms(1)]])
      (simp_all add: assms(3) same_sess_def read_for_def waiting_for_def sent_for_def)
qed

lemma finish_step:
  assumes "assocInv a" and "s \<in> set (as_live a)" and ys: "length ys \<le> chanCap"
  shows "assocInv (finish s (a\<lparr>as_ch := (as_ch a)(s := ys)\<rparr>))" (is "assocInv ?a")
proof (rule assocInvI)
  note i = assocInvD [OF assms(1)]
  have s: "s < hb_next (as_hub a)" and d: "distinct (as_live a)" using i(1) assms(2) by (simp_all add: hubInv_def)
  have "length (as_live a) = Suc (length (remove1 s (as_live a)))"
    using assms(2) length_pos_if_in_set [OF assms(2)] by (simp add: length_remove1)
  then show "hubInv ?a"
    using i(1) hub_inv_unregister [OF _ s] set_remove1_subset [of s "as_live a"]
    by (auto simp: hubInv_def finish_def)
  have g: "hub_grows (as_hub a) (as_hub ?a)" by (simp add: finish_def)
  show "sessInv ?a t" for t
  proof (cases "t = s")
    case False
    have "same_sess a ?a t" using False set_remove1_subset [of s "as_live a"]
      by (auto simp: same_sess_def finish_def read_for_def waiting_for_def sent_for_def)
    with i(2) g show ?thesis by (rule sessInv_same)
  next
    case True
    have f: "flowInv a s" "replyInv a s" using i(2) [of s] s by (simp_all add: sessInv_def)
    have l: "s \<notin> set (as_live ?a)" using d by (simp add: finish_def)
    have "flowInv ?a s"
      using f(1) ys l src_ok_grows [OF g] unfolding flowInv_def
      by (auto simp: finish_def read_for_def waiting_for_def unregister_def stop_def sess_def Let_def)
    moreover have "replyInv ?a s"
      by (rule replyInv_grows [OF f(2) g s]) (simp_all add: finish_def sent_for_def)
    ultimately show ?thesis using True s by (simp add: sessInv_def finish_def)
  qed
qed

lemma readDatagram_ok:
  assumes "hub_inv h" and "readDatagram b (UDPAddr ip port zone) h = (Some (s, d, p), h')"
  shows "src_ok h' s (UDPAddr ip port zone) \<and> s < hb_next h \<and> socks_layout b d p"
  using assms(2)
proof (cases rule: readDatagram_cases)
  case (read host pt q r)
  then have r: "dispatch (UDPAddr ip port zone) h = (Some s, h')" "d = socksTarget host pt" "p = q"
    by (cases r; simp)+
  have "hub_inv h'" by (rule hub_inv_dispatch [OF assms(1) _ r(1)]) (simp add: is_udp_def)
  moreover have "(addr_str (UDPAddr ip port zone), s) \<in> set (hb_by h')"
    using r(1) by (cases rule: dispatch_cases) (auto simp: map_set_def pinLocked_def)
  ultimately have "s < hb_next h'" by (auto simp: hub_inv_def)
  moreover have "hb_next h' = hb_next h" using hub_grows_dispatch [OF assms(1) r(1)] by simp
  moreover have "socks_layout b d p" using parse_layout [OF read(1)] r(2,3) by simp
  ultimately show ?thesis using dispatch_source [OF assms(1) r(1)] by (fastforce simp: src_ok_def)
qed simp

lemma assocSetup_cases:
  assumes "assocSetup dial peer expect local h c = (r, h', c', opened, shut)" and "hub_inv h"
  obtains (ok) "r = Inr (hb_next h)" "register peer expect h = (Some (hb_next h), h')" "opened = 1" "shut = 0"
  | (fail) e where "r = Inl e" "hub_inv h'" "hub_grows h h'" "opened = shut"
proof (cases "dial = Some (Inr ())")
  case False
  with assms fail show thesis by (auto simp: assocSetup_def split: option.splits sum.splits)
next
  case True
  obtain q h1 where q: "register peer expect h = (q, h1)" by fastforce
  note inv = hub_inv_register [OF assms(2) q] and g = hub_grows_register(1) [OF q]
  show thesis
  proof (cases q)
    case None
    with True q assms(1) fail inv g show thesis by (auto simp: assocSetup_def)
  next
    case (Some s)
    with hub_grows_register(2) [OF q, of s] have s: "s = hb_next h" "hb_next h1 = Suc s" by auto
    have "hub_grows h (unregister s h1)" using hub_grows_trans [OF g hub_grows_stop(2)] .
    moreover have "hub_inv (unregister s h1)" using hub_inv_unregister [OF inv] s by simp
    ultimately show thesis using True q Some s assms(1) fail ok
      by (auto simp: assocSetup_def split: prod.splits sum.splits)
  qed
qed

lemma src_readDatagram:
  assumes "assocInv a" and "readDatagram b (UDPAddr ip port zone) (as_hub a) = (Some (s, d, p), h')"
  shows "src_ok h' s (UDPAddr ip port zone)" "s < hb_next (as_hub a)" "socks_layout b d p"
  using readDatagram_ok [OF assocInvD(3) [OF assms(1)] assms(2)] by blast+

lemma associate_step:
  assumes "assocInv a" and "assocSetup dial peer expect local (as_hub a) c = (r, h', c', opened, shut)"
  shows "assocInv (a\<lparr>as_hub := h',
      as_live := (case r of Inr s \<Rightarrow> s # as_live a | Inl _ \<Rightarrow> as_live a),
      as_replying := (case r of Inr s \<Rightarrow> insert s (as_replying a) | Inl _ \<Rightarrow> as_replying a),
      as_dialled := as_dialled a + opened, as_closed := as_closed a + shut\<rparr>)" (is "assocInv ?a")
  using assms(2) assocInvD(3) [OF assms(1)]
proof (cases rule: assocSetup_cases)
  case ok
  let ?n = "hb_next (as_hub a)"
  have h': "hub_inv h'" "hb_next h' = Suc ?n" "hub_grows (as_hub a) h'"
    using hub_inv_register [OF assocInvD(3) [OF assms(1)] ok(2)] hub_grows_register [OF ok(2)] by auto
  show ?thesis
  proof (rule assocInvI)
    show "hubInv ?a" using assocInvD(1) [OF assms(1)] h' ok(1,3,4) by (auto simp: hubInv_def intro: less_SucI)
    show "sessInv ?a s" for s
      by (rule sessInv_same [OF assocInvD(2) [OF assms(1)]])
        (use h' ok in \<open>auto simp: same_sess_def read_for_def waiting_for_def sent_for_def\<close>)
  qed
next
  case (fail e)
  have "assocInv (a\<lparr>as_hub := h', as_replying := as_replying a\<rparr>)"
    by (rule hub_only_step) (use assms fail in auto)
  note i = assocInvD [OF this]
  show ?thesis
  proof (rule assocInvI)
    show "hubInv ?a" using i(1) fail by (simp add: hubInv_def)
    show "sessInv ?a s" for s
      by (rule sessInv_same [OF i(2)])
        (use fail in \<open>simp_all add: same_sess_def read_for_def waiting_for_def sent_for_def\<close>)
  qed
qed

lemma dispatched_step:
  assumes "assocInv a" and "as_pend a = None"
    and "readDatagram b (UDPAddr ip port zone) (as_hub a) = (Some (s, d, p), h')"
  shows "assocInv (a\<lparr>as_hub := h', as_pend := Some (s, d, p), as_wire := as_wire a @ [(s, UDPAddr ip port zone, b)]\<rparr>)"
    (is "assocInv ?a")
proof (rule assocInvI)
  note i = assocInvD [OF assms(1)] and r = src_readDatagram [OF assms(1,3)]
  have g: "hub_grows (as_hub a) h'" "hb_next h' = hb_next (as_hub a)" and inv: "hub_inv h'"
    using hub_grows_readDatagram [OF i(3) assms(3)] hub_inv_readDatagram [OF i(3) _ assms(3)] by (auto simp: is_udp_def)
  show "hubInv ?a" using i(1) g inv r(3) by (simp add: hubInv_def carries_def)
  show "sessInv ?a t" for t
  proof (cases "t = s")
    case False
    have "same_sess a ?a t" using False assms(2) by (auto simp: same_sess_def read_for_def waiting_for_def sent_for_def)
    then show ?thesis by (rule sessInv_same [OF i(2), rotated]) (simp add: g(1))
  next
    case True
    have f: "flowInv a s" "replyInv a s" using i(2) [of s] r(2) by (simp_all add: sessInv_def)
    have w: "waiting_for s a = []" "waiting_for s ?a = [(UDPAddr ip port zone, b)]"
      "read_for s ?a = read_for s a @ [(UDPAddr ip port zone, b)]"
      using assms(2) by (simp_all add: waiting_for_def read_for_def)
    have d: "us_done (sess (as_hub a) s) \<Longrightarrow> us_done (sess h' s)" using g r(2) by (simp add: hub_grows_def)
    have "subseq (as_rcv a s) (read_for s a)" using f(1) by (simp add: flowInv_def w)
    then have "subseq (as_rcv a s @ waiting_for s ?a) (read_for s ?a)" unfolding w by (rule list_emb_append_mono) simp
    moreover have "src_ok h' s f" if "(f, b') \<in> set (read_for s ?a)" for f b'
      using that f(1) src_ok_grows [OF g(1)] r(1) unfolding flowInv_def w by auto
    ultimately have "flowInv ?a s"
      using f(1) d unfolding flowInv_def w by auto
    moreover have "replyInv ?a s"
      by (rule replyInv_grows [OF f(2) _ r(2)]) (simp_all add: g(1) sent_for_def)
    ultimately show ?thesis using True r(2) g(2) by (simp add: sessInv_def)
  qed
qed

lemma queued_step:
  assumes "assocInv a" and "as_pend a = Some (s, d, p)" and "length (as_ch a s) < chanCap"
  shows "assocInv (a\<lparr>as_pend := None, as_ch := (as_ch a)(s := as_ch a s @ [(d, p)]),
      as_rcv := (as_rcv a)(s := as_rcv a s @ [snd (last (as_wire a))])\<rparr>)" (is "assocInv ?a")
proof (rule assocInvI)
  note i = assocInvD [OF assms(1)]
  show "hubInv ?a" using i(1) by (simp add: hubInv_def)
  have c: "carries (snd (last (as_wire a))) (d, p)" using i(1) assms(2) by (simp add: hubInv_def)
  show "sessInv ?a t" for t
  proof (cases "t = s")
    case False
    have "same_sess a ?a t" using False assms(2) by (auto simp: same_sess_def read_for_def waiting_for_def sent_for_def)
    then show ?thesis by (rule sessInv_same [OF i(2), rotated]) simp
  next
    case True
    have w: "waiting_for s a = [snd (last (as_wire a))]" "waiting_for s ?a = []" "read_for s ?a = read_for s a"
      using assms(2) by (simp_all add: waiting_for_def read_for_def)
    then have s: "s < hb_next (as_hub a)" using i(2) [of s] by (auto simp: sessInv_def freshInv_def split: if_splits)
    then have f: "flowInv a s" "replyInv a s" using i(2) [of s] by (simp_all add: sessInv_def)
    then obtain x where x: "list_all2 carries (as_rcv a s) (as_up a s @ x)" "s \<in> set (as_live a) \<longrightarrow> x = as_ch a s"
      by (auto simp: flowInv_def)
    have "list_all2 carries (as_rcv a s @ [snd (last (as_wire a))]) (as_up a s @ x @ [(d, p)])"
      using list_all2_appendI [OF x(1), of "[snd (last (as_wire a))]" "[(d, p)]"] c by simp
    with f(1) x(2) assms(3) have "flowInv ?a s" unfolding flowInv_def w by auto
    moreover have "replyInv ?a s"
      by (rule replyInv_grows [OF f(2) _ s]) (simp_all add: sent_for_def)
    ultimately show ?thesis using True s by (simp add: sessInv_def)
  qed
qed

lemma dropped_step:
  assumes "assocInv a" and "as_pend a = Some (s, d, p)" and "us_done (sess (as_hub a) s)"
  shows "assocInv (a\<lparr>as_pend := None\<rparr>)" (is "assocInv ?a")
proof (rule assocInvI)
  note i = assocInvD [OF assms(1)]
  show "hubInv ?a" using i(1) by (simp add: hubInv_def)
  show "sessInv ?a t" for t
  proof (cases "t = s")
    case False
    have "same_sess a ?a t" using False assms(2) by (auto simp: same_sess_def read_for_def waiting_for_def sent_for_def)
    then show ?thesis by (rule sessInv_same [OF i(2), rotated]) simp
  next
    case True
    have w: "waiting_for s a = [snd (last (as_wire a))]" "waiting_for s ?a = []" "read_for s ?a = read_for s a"
      using assms(2) by (simp_all add: waiting_for_def read_for_def)
    then have s: "s < hb_next (as_hub a)" using i(2) [of s] by (auto simp: sessInv_def freshInv_def split: if_splits)
    then have f: "flowInv a s" "replyInv a s" using i(2) [of s] by (simp_all add: sessInv_def)
    have "subseq (as_rcv a s) (as_rcv a s @ waiting_for s a)" by (rule list_emb_prefix) simp
    moreover have "subseq (as_rcv a s @ waiting_for s a) (read_for s a)" using f(1) by (simp add: flowInv_def)
    ultimately have "subseq (as_rcv a s) (read_for s a)" by (rule subseq_order.order_trans)
    with f(1) assms(3) have "flowInv ?a s" unfolding flowInv_def w by auto
    moreover have "replyInv ?a s" by (rule replyInv_grows [OF f(2) _ s]) (simp_all add: sent_for_def)
    ultimately show ?thesis using True s by (simp add: sessInv_def)
  qed
qed

lemma forwarded_step:
  assumes "assocInv a" and "s \<in> set (as_live a)" and "as_ch a s = x # xs"
  shows "assocInv (a\<lparr>as_ch := (as_ch a)(s := xs), as_up := (as_up a)(s := as_up a s @ [x])\<rparr>)" (is "assocInv ?a")
proof (rule assocInvI)
  note i = assocInvD [OF assms(1)]
  show "hubInv ?a" using i(1) by (simp add: hubInv_def)
  show "sessInv ?a t" for t
  proof (cases "t = s")
    case False
    have "same_sess a ?a t" using False by (auto simp: same_sess_def read_for_def waiting_for_def sent_for_def)
    then show ?thesis by (rule sessInv_same [OF i(2), rotated]) simp
  next
    case True
    have s: "s < hb_next (as_hub a)" using i(1) assms(2) by (simp add: hubInv_def)
    then have f: "flowInv a s" "replyInv a s" using i(2) [of s] by (simp_all add: sessInv_def)
    then have "flowInv ?a s" using assms(2,3) unfolding flowInv_def
      by (auto simp: read_for_def waiting_for_def)
    moreover have "replyInv ?a s" by (rule replyInv_grows [OF f(2) _ s]) (simp_all add: sent_for_def)
    ultimately show ?thesis using True s by (simp add: sessInv_def)
  qed
qed

text \<open>Reply goroutines: \<open>out\<close> is what this round sends, from the last of \<open>read\<close>.\<close>

lemma reply_step:
  assumes "assocInv a" and "s \<in> as_replying a"
    and "hub_inv h'" "hub_grows (as_hub a) h'" "hb_next h' = hb_next (as_hub a)" and "r \<subseteq> as_replying a"
    and "out = [] \<or> (\<exists>src p dst. new = [(src, p)] \<and> clientOf s h' = Some dst
           \<and> out = [(s, dst, encodeSOCKSUDP (Some src) p)])"
  shows "assocInv (a\<lparr>as_hub := h', as_replying := r, as_upin := (as_upin a)(s := as_upin a s @ new),
      as_out := as_out a @ out\<rparr>)" (is "assocInv ?a")
proof (rule assocInvI)
  note i = assocInvD [OF assms(1)]
  have g: "hub_grows (as_hub a) (as_hub ?a)" using assms(4) by simp
  show "hubInv ?a" using i(1) assms(3,5,6) by (auto simp: hubInv_def)
  show "sessInv ?a t" for t
  proof (cases "t = s")
    case False
    have "same_sess a ?a t" using False assms(7) by (auto simp: same_sess_def read_for_def waiting_for_def sent_for_def)
    with i(2) g show ?thesis by (rule sessInv_same)
  next
    case True
    have s: "s < hb_next (as_hub a)" using i(1) assms(2) by (simp add: hubInv_def)
    then have f: "flowInv a s" "replyInv a s" using i(2) [of s] by (simp_all add: sessInv_def)
    have d: "us_done (sess (as_hub a) s) \<Longrightarrow> us_done (sess h' s)" using assms(4) s by (simp add: hub_grows_def)
    have "flowInv ?a s" using f(1) src_ok_grows [OF assms(4)] d unfolding flowInv_def
      by (auto simp: read_for_def waiting_for_def)
    moreover have "replyInv ?a s"
    proof -
      from f(2) have "replyInv (a\<lparr>as_hub := h'\<rparr>) s"
        by (rule replyInv_grows [OF _ _ s]) (simp_all add: assms(4) sent_for_def)
      then obtain sent where sent: "subseq sent (as_upin a s)" "sent \<noteq> [] \<longrightarrow> clientOf s h' \<noteq> None"
        "sent_for s a = map (\<lambda>(src, p). (the (clientOf s h'), encodeSOCKSUDP (Some src) p)) sent"
        by (auto simp: replyInv_def sent_for_def)
      from assms(7) show ?thesis
      proof
        assume "out = []"
        with sent show ?thesis unfolding replyInv_def
          by (intro exI [of _ sent]) (simp add: sent_for_def list_emb_prefix)
      next
        assume "\<exists>src p dst. new = [(src, p)] \<and> clientOf s h' = Some dst
           \<and> out = [(s, dst, encodeSOCKSUDP (Some src) p)]"
        with sent show ?thesis unfolding replyInv_def
          by (intro exI [of _ "sent @ new"]) (auto simp: sent_for_def list_emb_append_mono)
      qed
    qed
    ultimately show ?thesis using True s assms(5) by (simp add: sessInv_def)
  qed
qed

lemma assocInv_step: "assoc_step a a' \<Longrightarrow> assocInv a \<Longrightarrow> assocInv a'"
proof (induction rule: assoc_step.induct)
  case (associate dial peer expect local a c r h' c' opened shut)
  then show ?case using associate_step by blast
next
  case (dispatched a b ip port zone s d p h')
  then show ?case using dispatched_step by blast
next
  case (ignored a b ip port zone h')
  then have "assocInv (a\<lparr>as_hub := h', as_replying := as_replying a\<rparr>)"
    using hub_inv_readDatagram [of "as_hub a" "UDPAddr ip port zone"] hub_grows_readDatagram [OF _ ignored.hyps(2)]
    by (intro hub_only_step) (auto simp: is_udp_def assocInvD(3))
  then show ?case by simp
next
  case (queued a s d p)
  then show ?case using queued_step by blast
next
  case (dropped a s d p)
  then show ?case using dropped_step by blast
next
  case (forwarded s a x xs)
  then show ?case using forwarded_step by blast
next
  case (up_failed s a x xs)
  then have "s < hb_next (as_hub a)" by (simp add: assocInv_def hubInv_def)
  with assocInvD(2) [OF up_failed.prems, of s] up_failed.hyps(2) have "length xs \<le> chanCap"
    by (simp add: sessInv_def flowInv_def)
  with finish_step [OF up_failed.prems up_failed.hyps(1)] show ?case by simp
next
  case (ended s a)
  then have "s < hb_next (as_hub a)" by (simp add: assocInv_def hubInv_def)
  with assocInvD(2) [OF ended.prems, of s] have "length (as_ch a s) \<le> chanCap"
    by (simp add: sessInv_def flowInv_def)
  from finish_step [OF ended.prems ended.hyps(1) this] show ?case by simp
next
  case (replied s a dst src payload)
  have "assocInv (a\<lparr>as_hub := as_hub a, as_replying := as_replying a,
      as_upin := (as_upin a)(s := as_upin a s @ [(src, payload)]),
      as_out := as_out a @ [(s, dst, encodeSOCKSUDP (Some src) payload)]\<rparr>)"
    by (rule reply_step [OF replied.prems replied.hyps(1)]) (simp_all add: replied assocInvD(3))
  then show ?case by simp
next
  case (no_client s a src payload)
  have "assocInv (a\<lparr>as_hub := as_hub a, as_replying := as_replying a,
      as_upin := (as_upin a)(s := as_upin a s @ [(src, payload)]), as_out := as_out a @ []\<rparr>)"
    by (rule reply_step [OF no_client.prems no_client.hyps(1)]) (simp_all add: no_client assocInvD(3))
  then show ?case by simp
next
  case (reply_failed s a unsent src payload)
  have "hub_inv (stop s (as_hub a))"
    using hub_inv_stop [OF assocInvD(3) [OF reply_failed.prems]] reply_failed by (simp add: assocInv_def hubInv_def)
  then have "assocInv (a\<lparr>as_hub := stop s (as_hub a), as_replying := as_replying a - {s},
      as_upin := (as_upin a)(s := as_upin a s @ unsent), as_out := as_out a @ []\<rparr>)"
    by (intro reply_step [OF reply_failed.prems reply_failed.hyps(1)]) auto
  then show ?case by simp
next
  case (tcp_gone s a)
  then have "hub_inv (stop s (as_hub a))" using hub_inv_stop assocInvD(3) by blast
  with tcp_gone hub_only_step [of a "stop s (as_hub a)" "as_replying a"] show ?case by simp
next
  case (reorder m a)
  let ?h = "(as_hub a)\<lparr>hb_by := m\<rparr>"
  have "hub_inv ?h"
    using hub_inv_step [OF hub_reorder [OF reorder.hyps]] assocInvD(3) [OF reorder.prems] by simp
  moreover have "hub_grows (as_hub a) ?h" by (simp add: hub_grows_def sess_def clientOf_def)
  ultimately show ?case using hub_only_step [OF reorder.prems, of ?h "as_replying a"] by simp
qed

abbreviation assoc_reach :: "assoc \<Rightarrow> bool" where
  "assoc_reach \<equiv> assoc_step\<^sup>*\<^sup>* assocInit"

interpretation assoc_machine: state_machine assocInit assoc_step assocInv
proof
  show "assocInv assocInit"
    using hub_inv_new
    by (simp add: assocInv_def hubInv_def sessInv_def freshInv_def read_for_def sent_for_def waiting_for_def
        assocInit_def newUDPHub_def)
qed (rule assocInv_step)




end
