(* ===== verification/Relay.thy ===== *)
theory Relay
  imports Udp_Hub
begin

text \<open>
  The two ends of an inbound connection's life in \<open>internal/inbound/mixed.go\<close>: opening and closing
  the mixed listener with its UDP hub, and \<open>relay\<close>, which copies both directions and half-closes
  each when its source ends.
\<close>

section \<open>Listeners\<close>

record mixedListener =
  ml_addr :: string
  ml_hub :: bool        \<comment> \<open>a hub on the same host and port\<close>
  ml_open :: bool
  ml_hubOpen :: bool

datatype listen_err = ListenTCP nat | ListenUDP nat | BadListenAddr

definition ListenMixed ::
  "(string \<Rightarrow> nat + string) \<Rightarrow> (string \<Rightarrow> string \<Rightarrow> nat option) \<Rightarrow> bool \<Rightarrow> string
   \<Rightarrow> (listen_err + unit) \<times> mixedListener option" where
  \<comment> \<open>\<open>net.Listen\<close> with the printed bound address, \<open>net.ListenPacket\<close>, and whether \<open>udp\<close> is set;
     the second component is what is left behind, also on an error\<close>
  "ListenMixed listen packet udp addr =
     (case listen addr of
        Inl e \<Rightarrow> (Inl (ListenTCP e), None)
      | Inr bound \<Rightarrow>
          (let ml = \<lparr>ml_addr = bound, ml_hub = False, ml_open = True, ml_hubOpen = False\<rparr> in
           if \<not> udp then (Inr (), Some ml)
           else case listenPacketSame bound of
                  None \<Rightarrow> (Inl BadListenAddr, Some (ml\<lparr>ml_open := False\<rparr>))
                | Some (network, a) \<Rightarrow>
                    (case packet network a of
                       Some e \<Rightarrow> (Inl (ListenUDP e), Some (ml\<lparr>ml_open := False\<rparr>))
                     | None \<Rightarrow> (Inr (), Some (ml\<lparr>ml_hub := True, ml_hubOpen := True\<rparr>)))))"

definition listenerHub :: "mixedListener option \<Rightarrow> bool" where
  \<comment> \<open>\<open>None\<close>: a listener of another type\<close>
  "listenerHub ml = (case ml of Some m \<Rightarrow> ml_hub m | None \<Rightarrow> False)"

definition mixedClose :: "nat option \<Rightarrow> nat option \<Rightarrow> mixedListener \<Rightarrow> nat option \<times> mixedListener" where
  \<comment> \<open>\<open>Close\<close>, with the results of closing the listener and the packet connection\<close>
  "mixedClose e1 e2 m =
     (if ml_hub m then (if e1 = None then e2 else e1, m\<lparr>ml_open := False, ml_hubOpen := False\<rparr>)
      else (e1, m\<lparr>ml_open := False\<rparr>))"

section \<open>Relaying\<close>

datatype conn_kind = IsTCPConn | HasCloseWrite | NoCloseWrite

record half =
  rh_kind :: conn_kind
  rh_out :: sink
  rh_shut :: bool                     \<comment> \<open>the write side is closed\<close>
  rh_closeErr :: "io_err option"      \<comment> \<open>what \<open>CloseWrite\<close> returns\<close>

record stream =
  st_chunks :: "bytes list"           \<comment> \<open>what the reads return\<close>
  st_end :: io_err

fun ioCopy :: "bytes list \<Rightarrow> io_err \<Rightarrow> sink \<Rightarrow> io_err option \<times> sink" where
  \<comment> \<open>\<open>io.Copy\<close>\<close>
  "ioCopy [] e s = (if e = EOF then None else Some e, s)"
| "ioCopy (c # cs) e s =
     (case conn_write c s of
        (Inl x, s1) \<Rightarrow> (Some x, s1)
      | (Inr n, s1) \<Rightarrow> if n < length c then (Some ErrShortWrite, s1) else ioCopy cs e s1)"

definition closeWrite :: "half \<Rightarrow> io_err option \<times> half" where
  "closeWrite h =
     (case rh_kind h of NoCloseWrite \<Rightarrow> (None, h) | _ \<Rightarrow> (rh_closeErr h, h\<lparr>rh_shut := True\<rparr>))"

definition relayCopy :: "stream \<Rightarrow> half \<Rightarrow> io_err option \<times> half" where
  "relayCopy src dst =
     (let (err, s) = ioCopy (st_chunks src) (st_end src) (rh_out dst);
          (closeErr, h) = closeWrite (dst\<lparr>rh_out := s\<rparr>)
      in (if err = None then closeErr else err, h))"

datatype direction = ClientToUpstream | UpstreamToClient

definition relay ::
  "(io_err \<Rightarrow> bool) \<Rightarrow> bool \<Rightarrow> stream \<Rightarrow> half \<Rightarrow> stream \<Rightarrow> half
   \<Rightarrow> (direction \<times> io_err) list \<times> half \<times> half" where
  \<comment> \<open>the joined errors, empty for nil; \<open>isClosed\<close> is \<open>errors.Is(_, net.ErrClosed)\<close>, the flag tells which
     goroutine reports first. The two copies touch different streams, so their order is only this\<close>
  "relay isClosed first br client upIn up =
     (let (e1, up') = relayCopy br up; (e2, client') = relayCopy upIn client;
          results = (if first then [(ClientToUpstream, e1), (UpstreamToClient, e2)]
                     else [(UpstreamToClient, e2), (ClientToUpstream, e1)]);
          errs = List.map_filter (\<lambda>(d, e). case e of None \<Rightarrow> None
                   | Some x \<Rightarrow> if isClosed x then None else Some (d, x)) results
      in (errs, client', up'))"

section \<open>What is delivered\<close>

lemma ioCopy_prefix:
  assumes "ioCopy cs e s = (r, s')"
  shows "\<exists>k. snk_data s' = snk_data s @ take k (concat cs) \<and> (r = None \<longrightarrow> e = EOF \<and> length (concat cs) \<le> k)"
  using assms
proof (induction cs arbitrary: s)
  case (Cons c cs)
  obtain w s1 where w: "conn_write c s = (w, s1)" by fastforce
  from conn_write_prefix [OF w] obtain j where j: "j \<le> length c" "snk_data s1 = snk_data s @ take j c"
    "\<forall>n. w = Inr n \<longrightarrow> n = j" by blast
  show ?case
  proof (cases "w = Inr (length c)")
    case True
    with Cons.prems w have "ioCopy cs e s1 = (r, s')" by simp
    from Cons.IH [OF this] obtain k where k: "snk_data s' = snk_data s1 @ take k (concat cs)"
      "r = None \<longrightarrow> e = EOF \<and> length (concat cs) \<le> k" by blast
    from True j(3) have "j = length c" by simp
    with j k show ?thesis by (intro exI [of _ "length c + k"]) auto
  next
    case False
    with Cons.prems w j have "r \<noteq> None" "s' = s1"
      by (auto split: sum.splits if_splits)
    with j show ?thesis by (intro exI [of _ j]) auto
  qed
qed (auto intro: exI [of _ 0] split: if_splits)

lemma ioCopy_all:
  "snk_script s = [] \<Longrightarrow> ioCopy cs EOF s = (None, s\<lparr>snk_data := snk_data s @ concat cs\<rparr>)"
  by (induction cs arbitrary: s) (simp_all add: conn_write_def)

lemma relayCopy_prefix:
  assumes "relayCopy src dst = (r, h)"
  shows "(\<exists>k. snk_data (rh_out h) = snk_data (rh_out dst) @ take k (concat (st_chunks src))
            \<and> (r = None \<longrightarrow> st_end src = EOF \<and> length (concat (st_chunks src)) \<le> k))
    \<and> (rh_kind dst \<noteq> NoCloseWrite \<longrightarrow> rh_shut h)"
proof -
  obtain e s where c: "ioCopy (st_chunks src) (st_end src) (rh_out dst) = (e, s)" by fastforce
  from ioCopy_prefix [OF c] obtain k where k: "snk_data s = snk_data (rh_out dst) @ take k (concat (st_chunks src))"
    "e = None \<longrightarrow> st_end src = EOF \<and> length (concat (st_chunks src)) \<le> k" by blast
  have h: "rh_out h = s" "r = None \<longrightarrow> e = None" "rh_kind dst \<noteq> NoCloseWrite \<longrightarrow> rh_shut h"
    using assms c by (auto simp: relayCopy_def closeWrite_def Let_def split: if_splits conn_kind.splits)
  from k h show ?thesis by (intro conjI exI [of _ k]) simp_all
qed

text \<open>
  C40. Relaying a tunnel: each side receives a prefix of what the other sent, and when \<open>relay\<close>
  returns, whatever the errors, the write side of both connections has been closed where the
  connection can half-close, so neither peer is left waiting; it reports success only if every
  error was that of a closed connection, and with no error at all both sides have everything.
\<close>

theorem relay_delivers:
  assumes "relay isClosed first br client upIn up = (errs, client', up')"
  shows "(\<exists>k. snk_data (rh_out up') = snk_data (rh_out up) @ take k (concat (st_chunks br)))
    \<and> (\<exists>k. snk_data (rh_out client') = snk_data (rh_out client) @ take k (concat (st_chunks upIn)))
    \<and> (rh_kind up \<noteq> NoCloseWrite \<longrightarrow> rh_shut up') \<and> (rh_kind client \<noteq> NoCloseWrite \<longrightarrow> rh_shut client')
    \<and> (errs = [] \<longrightarrow>
         (case fst (relayCopy br up) of
            None \<Rightarrow> snk_data (rh_out up') = snk_data (rh_out up) @ concat (st_chunks br)
          | Some e \<Rightarrow> isClosed e)
         \<and> (case fst (relayCopy upIn client) of
              None \<Rightarrow> snk_data (rh_out client') = snk_data (rh_out client) @ concat (st_chunks upIn)
            | Some e \<Rightarrow> isClosed e))"
proof -
  have up: "relayCopy br up = (fst (relayCopy br up), up')"
    and cl: "relayCopy upIn client = (fst (relayCopy upIn client), client')"
    using assms by (auto simp: relay_def Let_def split: prod.splits)
  note pu = relayCopy_prefix [OF up] and pc = relayCopy_prefix [OF cl]
  have all: "x = y @ take k z \<Longrightarrow> length z \<le> k \<Longrightarrow> x = y @ z" for x y z :: bytes and k by simp
  have "errs = [] \<Longrightarrow> (case fst (relayCopy br up) of None \<Rightarrow> True | Some e \<Rightarrow> isClosed e)
       \<and> (case fst (relayCopy upIn client) of None \<Rightarrow> True | Some e \<Rightarrow> isClosed e)"
    using assms
    by (auto simp: relay_def Let_def map_filter_simps split: prod.splits option.splits if_splits)
  with pu pc show ?thesis by (fastforce split: option.split dest: all)
qed

theorem relay_delivers_witness:
  "let plain = \<lparr>rh_kind = IsTCPConn, rh_out = \<lparr>snk_data = [], snk_script = []\<rparr>, rh_shut = False, rh_closeErr = None\<rparr>;
       (errs, client', up') = relay (\<lambda>_. False) True \<lparr>st_chunks = [[1, 2], [3]], st_end = EOF\<rparr> plain
         \<lparr>st_chunks = [[4]], st_end = EOF\<rparr> plain in
   errs = [] \<and> snk_data (rh_out up') = [1, 2, 3] \<and> snk_data (rh_out client') = [4]
   \<and> rh_shut up' \<and> rh_shut client'"
proof -
  let ?p = "\<lparr>rh_kind = IsTCPConn, rh_out = \<lparr>snk_data = [], snk_script = []\<rparr>, rh_shut = False, rh_closeErr = None\<rparr>"
  let ?a = "\<lparr>st_chunks = [[1, 2], [3]], st_end = EOF\<rparr>" and ?b = "\<lparr>st_chunks = [[4]], st_end = EOF\<rparr>"
  obtain errs c u where r: "relay (\<lambda>_. False) True ?a ?p ?b ?p = (errs, c, u)" by (metis prod_cases3)
  moreover have "errs = []" "fst (relayCopy ?a ?p) = None" "fst (relayCopy ?b ?p) = None"
    using r by (auto simp: relay_def relayCopy_def conn_write_def closeWrite_def map_filter_simps)
  ultimately show ?thesis using relay_delivers [OF r] by simp
qed

text \<open>A mixed listener that could not be opened leaves nothing listening, and closing it closes the hub.\<close>

lemma mixedClose_all: "\<not> ml_open (snd (mixedClose e1 e2 m)) \<and> (ml_hub m \<longrightarrow> \<not> ml_hubOpen (snd (mixedClose e1 e2 m)))"
  by (simp add: mixedClose_def)

lemma ListenMixed_clean:
  assumes "ListenMixed listen packet udp addr = (r, m)"
  shows "case r of Inl _ \<Rightarrow> (\<forall>ml. m = Some ml \<longrightarrow> \<not> ml_open ml \<and> \<not> ml_hubOpen ml)
    | Inr _ \<Rightarrow> \<exists>ml. m = Some ml \<and> ml_open ml \<and> ml_hub ml = udp \<and> ml_hubOpen ml = udp"
proof (cases "listen addr")
  case (Inl e)
  with assms show ?thesis by (auto simp: ListenMixed_def)
next
  case (Inr bound)
  show ?thesis
  proof (cases "listenPacketSame bound")
    case None
    with Inr assms show ?thesis by (auto simp: ListenMixed_def Let_def split: if_splits)
  next
    case (Some na)
    then obtain n a where "listenPacketSame bound = Some (n, a)" by (cases na) simp
    with Inr assms show ?thesis
      by (cases "packet n a") (auto simp: ListenMixed_def Let_def split: if_splits)
  qed
qed

end
