(* ===== verification/Tfo.thy ===== *)
theory Tfo
  imports Prelude "HOL-Library.Multiset"
begin

text \<open>
  TCP fast open (\<open>internal/dialer/tfo.go\<close>): \<open>tfoConn\<close>, a connection that is dialled by its first
  \<open>Write\<close> or \<open>Read\<close>, and keep-alive (\<open>keepalive.go\<close>). The calls are modelled twice over the same
  definitions: as functions, for one caller, and as a step relation in which calls of many
  goroutines interleave at every lock and at \<open>sync.Once\<close>. What the kernel answers is a parameter,
  in the step relation a different one for every step.
\<close>

section \<open>Keep-alive\<close>

datatype netconn = TCPConn | NetConn netconn | NilConn | OtherConn

datatype ka_call = SetKeepAliveConfig int int int | SetKeepAlive | SetKeepAlivePeriod int

fun tcpKeepAliveLoop :: "bool \<Rightarrow> nat \<Rightarrow> netconn \<Rightarrow> ka_call list" where
  \<comment> \<open>the calls on the socket; the first argument tells whether \<open>SetKeepAliveConfig\<close> fails, the
     second counts the turns left; times in seconds\<close>
  "tcpKeepAliveLoop bad 0 c = []"
| "tcpKeepAliveLoop bad (Suc n) TCPConn =
     SetKeepAliveConfig 30 15 8 # (if bad then [SetKeepAlive, SetKeepAlivePeriod 30] else [])"
| "tcpKeepAliveLoop bad (Suc n) (NetConn c) = tcpKeepAliveLoop bad n c"
| "tcpKeepAliveLoop bad (Suc n) c = []"

definition tcpKeepAlive :: "bool \<Rightarrow> netconn \<Rightarrow> ka_call list" where
  "tcpKeepAlive bad c = tcpKeepAliveLoop bad 8 c"

section \<open>Connections\<close>

datatype tfo_err = ClosedPipe | NoDest | DialErr nat | ConnErr nat

record under =
  un_sent :: bytes
  un_in :: source
  un_rd :: int      \<comment> \<open>deadlines; 0 is none\<close>
  un_wd :: int
  un_closed :: bool
  un_keep :: bool

record tfo_env =
  te_dests :: "string list"
  te_dial :: "string \<Rightarrow> bytes \<Rightarrow> nat + source"      \<comment> \<open>\<open>tfo.Dialer\<close>: dial and send the early data\<close>
  te_write :: "under \<Rightarrow> bytes \<Rightarrow> nat \<times> nat option"
  te_read :: "under \<Rightarrow> nat \<Rightarrow> (nat + bytes) \<times> source"
  te_close :: "under \<Rightarrow> nat option"
  te_setRead :: "under \<Rightarrow> int \<Rightarrow> nat option"
  te_setWrite :: "under \<Rightarrow> int \<Rightarrow> nat option"

definition rawWrite :: "tfo_env \<Rightarrow> bytes \<Rightarrow> under \<Rightarrow> (nat \<times> tfo_err option) \<times> under" where
  "rawWrite E b u =
     (let (n, e) = te_write E u b; m = min n (length b)
      in ((m, map_option ConnErr e), u\<lparr>un_sent := un_sent u @ take m b\<rparr>))"

definition rawRead :: "tfo_env \<Rightarrow> nat \<Rightarrow> under \<Rightarrow> (tfo_err + bytes) \<times> under" where
  "rawRead E n u = (let (r, s) = te_read E u n in (map_sum ConnErr id r, u\<lparr>un_in := s\<rparr>))"

definition rawClose :: "tfo_env \<Rightarrow> under \<Rightarrow> tfo_err option \<times> under" where
  "rawClose E u = (map_option ConnErr (te_close E u), u\<lparr>un_closed := True\<rparr>)"

definition rawSetRead :: "tfo_env \<Rightarrow> int \<Rightarrow> under \<Rightarrow> tfo_err option \<times> under" where
  "rawSetRead E d u =
     (case te_setRead E u d of Some e \<Rightarrow> (Some (ConnErr e), u) | None \<Rightarrow> (None, u\<lparr>un_rd := d\<rparr>))"

definition rawSetWrite :: "tfo_env \<Rightarrow> int \<Rightarrow> under \<Rightarrow> tfo_err option \<times> under" where
  "rawSetWrite E d u =
     (case te_setWrite E u d of Some e \<Rightarrow> (Some (ConnErr e), u) | None \<Rightarrow> (None, u\<lparr>un_wd := d\<rparr>))"

section \<open>tfoConn\<close>

datatype once = Fresh | Running | Finished

record tfo =
  t_once :: once
  t_conn :: "nat option"
  t_err :: "tfo_err option"
  t_cancelled :: bool
  t_closed :: bool
  t_keepAlive :: bool
  t_rd :: int
  t_wd :: int
  t_conns :: "under list"   \<comment> \<open>every connection the dialer made\<close>

definition newTFOConn :: "bool \<Rightarrow> tfo" where
  "newTFOConn keepAlive =
     \<lparr>t_once = Fresh, t_conn = None, t_err = None, t_cancelled = False, t_closed = False,
      t_keepAlive = keepAlive, t_rd = 0, t_wd = 0, t_conns = []\<rparr>"

definition onConn :: "nat \<Rightarrow> (under \<Rightarrow> 'a \<times> under) \<Rightarrow> tfo \<Rightarrow> 'a \<times> tfo" where
  "onConn k f t = (let (r, u) = f (t_conns t ! k) in (r, t\<lparr>t_conns := (t_conns t)[k := u]\<rparr>))"

fun dialDests :: "tfo_env \<Rightarrow> bytes \<Rightarrow> string list \<Rightarrow> nat option \<Rightarrow> tfo_err + source" where
  \<comment> \<open>the loop of \<open>dialFn\<close>, with the last error\<close>
  "dialDests E early [] last_err = Inl (case last_err of None \<Rightarrow> NoDest | Some e \<Rightarrow> DialErr e)"
| "dialDests E early (d # ds) last_err =
     (case te_dial E d early of Inr s \<Rightarrow> Inr s | Inl e \<Rightarrow> dialDests E early ds (Some e))"

definition dialFn :: "tfo_env \<Rightarrow> bytes \<Rightarrow> tfo \<Rightarrow> (tfo_err + nat) \<times> tfo" where
  "dialFn E early t =
     (case dialDests E early (te_dests E) None of
        Inl e \<Rightarrow> (Inl e, t)
      | Inr s \<Rightarrow>
          (Inr (length (t_conns t)),
           t\<lparr>t_conns := t_conns t @ [\<lparr>un_sent = early, un_in = s, un_rd = 0, un_wd = 0,
                                     un_closed = False, un_keep = False\<rparr>]\<rparr>))"

definition publish :: "tfo_env \<Rightarrow> tfo_err + nat \<Rightarrow> tfo \<Rightarrow> tfo" where
  "publish E res t =
     (if t_closed t then
        (let t1 = (case res of Inr k \<Rightarrow> snd (onConn k (rawClose E) t) | Inl _ \<Rightarrow> t)
         in if t_err t1 = None then t1\<lparr>t_err := Some ClosedPipe\<rparr> else t1)
      else case res of
        Inl e \<Rightarrow> t\<lparr>t_conn := None, t_err := Some e\<rparr>
      | Inr k \<Rightarrow>
          (let t1 = (if t_keepAlive t then snd (onConn k (\<lambda>u. ((), u\<lparr>un_keep := True\<rparr>)) t) else t) in
           case onConn k (rawSetRead E (t_rd t)) t1 of
             (Some e, t2) \<Rightarrow> (snd (onConn k (rawClose E) t2))\<lparr>t_err := Some e\<rparr>
           | (None, t2) \<Rightarrow>
               (case onConn k (rawSetWrite E (t_wd t)) t2 of
                  (Some e, t3) \<Rightarrow> (snd (onConn k (rawClose E) t3))\<lparr>t_err := Some e\<rparr>
                | (None, t3) \<Rightarrow> t3\<lparr>t_conn := Some k, t_err := None\<rparr>)))"

definition ensure :: "tfo_env \<Rightarrow> bytes \<Rightarrow> tfo \<Rightarrow> tfo_err option \<times> tfo" where
  "ensure E early t =
     (let t' = (if t_once t = Finished then t
                else let (res, t1) = dialFn E early t in (publish E res t1)\<lparr>t_once := Finished\<rparr>)
      in (t_err t', t'))"

definition tfoWrite :: "tfo_env \<Rightarrow> bytes \<Rightarrow> tfo \<Rightarrow> (nat \<times> tfo_err option) \<times> tfo" where
  "tfoWrite E b t =
     (if t_closed t then ((0, Some ClosedPipe), t)
      else let first = (t_once t \<noteq> Finished) in
        case ensure E b t of
          (Some e, t1) \<Rightarrow> ((0, Some e), t1)
        | (None, t1) \<Rightarrow>
            if first then ((length b, None), t1)
            else case t_conn t1 of
                   None \<Rightarrow> ((0, Some ClosedPipe), t1)
                 | Some k \<Rightarrow> onConn k (rawWrite E b) t1)"

definition tfoRead :: "tfo_env \<Rightarrow> nat \<Rightarrow> tfo \<Rightarrow> (tfo_err + bytes) \<times> tfo" where
  "tfoRead E n t =
     (case ensure E [] t of
        (Some e, t1) \<Rightarrow> (Inl e, t1)
      | (None, t1) \<Rightarrow>
          if t_closed t1 then (Inl ClosedPipe, t1)
          else case t_conn t1 of None \<Rightarrow> (Inl ClosedPipe, t1) | Some k \<Rightarrow> onConn k (rawRead E n) t1)"

definition tfoClose :: "tfo_env \<Rightarrow> tfo \<Rightarrow> tfo_err option \<times> tfo" where
  "tfoClose E t =
     (if t_closed t then (None, t)
      else let t1 = t\<lparr>t_closed := True, t_cancelled := True\<rparr> in
        case t_conn t1 of None \<Rightarrow> (None, t1) | Some k \<Rightarrow> onConn k (rawClose E) t1)"

definition tfoSetReadDeadline :: "tfo_env \<Rightarrow> int \<Rightarrow> tfo \<Rightarrow> tfo_err option \<times> tfo" where
  "tfoSetReadDeadline E d t =
     (let t1 = t\<lparr>t_rd := d\<rparr> in
      case t_conn t1 of None \<Rightarrow> (None, t1) | Some k \<Rightarrow> onConn k (rawSetRead E d) t1)"

definition tfoSetWriteDeadline :: "tfo_env \<Rightarrow> int \<Rightarrow> tfo \<Rightarrow> tfo_err option \<times> tfo" where
  "tfoSetWriteDeadline E d t =
     (let t1 = t\<lparr>t_wd := d\<rparr> in
      case t_conn t1 of None \<Rightarrow> (None, t1) | Some k \<Rightarrow> onConn k (rawSetWrite E d) t1)"

definition tfoSetDeadline :: "tfo_env \<Rightarrow> int \<Rightarrow> tfo \<Rightarrow> tfo_err option \<times> tfo" where
  "tfoSetDeadline E d t =
     (let t1 = t\<lparr>t_rd := d, t_wd := d\<rparr> in
      case t_conn t1 of
        None \<Rightarrow> (None, t1)
      | Some k \<Rightarrow>
          (case onConn k (rawSetRead E d) t1 of
             (Some e, t2) \<Rightarrow> (Some e, t2)
           | (None, t2) \<Rightarrow> onConn k (rawSetWrite E d) t2))"

section \<open>One caller: a connection that was there from the start\<close>

datatype conn_op = OpWrite bytes | OpRead nat | OpClose | OpRd int | OpWd int | OpD int

datatype conn_res = Wrote "nat \<times> tfo_err option" | Got "tfo_err + bytes" | Did "tfo_err option"

fun tfoOp :: "tfo_env \<Rightarrow> conn_op \<Rightarrow> tfo \<Rightarrow> conn_res \<times> tfo" where
  "tfoOp E (OpWrite b) t = map_prod Wrote id (tfoWrite E b t)"
| "tfoOp E (OpRead n) t = map_prod Got id (tfoRead E n t)"
| "tfoOp E OpClose t = map_prod Did id (tfoClose E t)"
| "tfoOp E (OpRd d) t = map_prod Did id (tfoSetReadDeadline E d t)"
| "tfoOp E (OpWd d) t = map_prod Did id (tfoSetWriteDeadline E d t)"
| "tfoOp E (OpD d) t = map_prod Did id (tfoSetDeadline E d t)"

fun plainOp :: "tfo_env \<Rightarrow> conn_op \<Rightarrow> under \<Rightarrow> conn_res \<times> under" where
  \<comment> \<open>a connection that was dialled before it was handed out\<close>
  "plainOp E (OpWrite b) u =
     (if un_closed u then (Wrote (0, Some ClosedPipe), u) else map_prod Wrote id (rawWrite E b u))"
| "plainOp E (OpRead n) u =
     (if un_closed u then (Got (Inl ClosedPipe), u) else map_prod Got id (rawRead E n u))"
| "plainOp E OpClose u = (if un_closed u then (Did None, u) else map_prod Did id (rawClose E u))"
| "plainOp E (OpRd d) u = map_prod Did id (rawSetRead E d u)"
| "plainOp E (OpWd d) u = map_prod Did id (rawSetWrite E d u)"
| "plainOp E (OpD d) u =
     (case rawSetRead E d u of
        (Some e, u1) \<Rightarrow> (Did (Some e), u1)
      | (None, u1) \<Rightarrow> map_prod Did id (rawSetWrite E d u1))"

fun runOps :: "(conn_op \<Rightarrow> 's \<Rightarrow> conn_res \<times> 's) \<Rightarrow> conn_op list \<Rightarrow> 's \<Rightarrow> conn_res list \<times> 's" where
  "runOps f [] s = ([], s)"
| "runOps f (x # xs) s = (let (r, s1) = f x s; (rs, s2) = runOps f xs s1 in (r # rs, s2))"

fun deadlineOp :: "conn_op \<Rightarrow> bool" where
  "deadlineOp (OpRd d) = True"
| "deadlineOp (OpWd d) = True"
| "deadlineOp (OpD d) = True"
| "deadlineOp _ = False"

fun noDeadlineAfterClose :: "conn_op list \<Rightarrow> bool" where
  "noDeadlineAfterClose [] = True"
| "noDeadlineAfterClose (x # xs) =
     (if x = OpClose then list_all (\<lambda>y. \<not> deadlineOp y) xs else noDeadlineAfterClose xs)"

definition working :: "tfo_env \<Rightarrow> source \<Rightarrow> bool" where
  \<comment> \<open>the dial succeeds, whatever the early data, and the fresh connection takes its first bytes whole;
     deadlines can be set on it and it can be closed\<close>
  "working E s \<longleftrightarrow>
     (\<forall>b. dialDests E b (te_dests E) None = Inr s)
     \<and> (\<forall>u b. un_sent u = [] \<longrightarrow> te_write E u b = (length b, None))
     \<and> (\<forall>u d. \<not> un_closed u \<longrightarrow> te_setRead E u d = None \<and> te_setWrite E u d = None)
     \<and> (\<forall>u. te_close E u = None)"

definition absConn :: "source \<Rightarrow> tfo \<Rightarrow> under" where
  "absConn s t =
     (case t_conn t of
        Some k \<Rightarrow> t_conns t ! k
      | None \<Rightarrow> \<lparr>un_sent = [], un_in = s, un_rd = t_rd t, un_wd = t_wd t, un_closed = t_closed t,
                un_keep = t_keepAlive t\<rparr>)"

definition settled :: "tfo \<Rightarrow> bool" where
  \<comment> \<open>between two calls of one caller\<close>
  "settled t \<longleftrightarrow>
     (case t_conn t of
        Some k \<Rightarrow> t_once t = Finished \<and> t_err t = None \<and> k < length (t_conns t)
                  \<and> un_closed (t_conns t ! k) = t_closed t
      | None \<Rightarrow> (t_once t = Fresh \<and> t_err t = None) \<or> (t_once t = Finished \<and> t_closed t \<and> t_err t = Some ClosedPipe))"

lemma onConn_simps [simp]:
  "t_conn (snd (onConn k f t)) = t_conn t" "t_once (snd (onConn k f t)) = t_once t"
  "t_err (snd (onConn k f t)) = t_err t" "t_closed (snd (onConn k f t)) = t_closed t"
  "t_keepAlive (snd (onConn k f t)) = t_keepAlive t" "t_rd (snd (onConn k f t)) = t_rd t"
  "t_wd (snd (onConn k f t)) = t_wd t" "t_cancelled (snd (onConn k f t)) = t_cancelled t"
  "length (t_conns (snd (onConn k f t))) = length (t_conns t)"
  "fst (onConn k f t) = fst (f (t_conns t ! k))"
  "t_conns (snd (onConn k f t)) = (t_conns t)[k := snd (f (t_conns t ! k))]"
  by (simp_all add: onConn_def split: prod.split)

lemma ensure_working:
  assumes "working E s" and "settled t"
  shows "\<exists>t'. ensure E b t = (t_err t', t') \<and> settled t' \<and>
    (if t_once t = Finished then t' = t
     else if t_closed t then t_err t' = Some ClosedPipe \<and> absConn s t' = absConn s t
     else t_err t' = None \<and> t_closed t' = t_closed t
       \<and> absConn s t' = snd (rawWrite E b (absConn s t)) \<and> t_conn t' \<noteq> None)"
  using assms
  by (auto simp: ensure_def working_def settled_def dialFn_def publish_def onConn_def rawSetRead_def
      rawSetWrite_def rawClose_def rawWrite_def absConn_def Let_def nth_append split: option.splits)

lemma settled_open: "settled t \<Longrightarrow> t_conn t = Some k \<Longrightarrow>
    t_once t = Finished \<and> t_err t = None \<and> k < length (t_conns t) \<and> un_closed (t_conns t ! k) = t_closed t"
  by (simp add: settled_def)

lemma absConn_closed [simp]: "settled t \<Longrightarrow> un_closed (absConn s t) = t_closed t"
  by (auto simp: settled_def absConn_def split: option.splits)

lemma onConn_abs:
  assumes "settled t" and "t_conn t = Some k" and "\<And>u. un_closed (snd (f u)) = un_closed u"
    and "onConn k f t = (r, t')"
  shows "settled t' \<and> t_closed t' = t_closed t \<and> f (absConn s t) = (r, absConn s t')"
proof -
  from assms(4) have "t' = t\<lparr>t_conns := (t_conns t)[k := snd (f (t_conns t ! k))]\<rparr>" "r = fst (f (t_conns t ! k))"
    by (auto simp: onConn_def split: prod.splits)
  with assms(1-3) show ?thesis by (simp add: settled_def absConn_def)
qed

lemma raw_closed [simp]:
  "un_closed (snd (rawWrite E b u)) = un_closed u" "un_closed (snd (rawRead E n u)) = un_closed u"
  "un_closed (snd (rawSetRead E d u)) = un_closed u" "un_closed (snd (rawSetWrite E d u)) = un_closed u"
  by (simp_all add: rawWrite_def rawRead_def rawSetRead_def rawSetWrite_def Let_def split: prod.split option.split)

lemma tfoWrite_abs:
  assumes E: "working E s" and t: "settled t" and w: "tfoWrite E b t = (r, t')"
  shows "settled t' \<and> t_closed t' = t_closed t \<and> plainOp E (OpWrite b) (absConn s t) = (Wrote r, absConn s t')"
proof (cases "t_closed t")
  case True
  with w t show ?thesis by (auto simp: tfoWrite_def)
next
  case op: False
  obtain t1 where e: "ensure E b t = (t_err t1, t1)" "settled t1"
    and old: "t_once t = Finished \<Longrightarrow> t1 = t"
    and new: "t_once t \<noteq> Finished \<Longrightarrow> t_err t1 = None \<and> t_closed t1 = t_closed t
       \<and> absConn s t1 = snd (rawWrite E b (absConn s t)) \<and> t_conn t1 \<noteq> None"
    using ensure_working [OF E t, of b] op by (auto split: if_splits)
  show ?thesis
  proof (cases "t_once t = Finished")
    case True
    with old have t1: "t1 = t" by simp
    from t op True obtain k where k: "t_conn t = Some k" "t_err t = None"
      by (auto simp: settled_def split: option.splits)
    from w have "onConn k (rawWrite E b) t = (r, t')"
      using op e(1) True k t1 by (simp add: tfoWrite_def)
    from onConn_abs [OF t k(1) raw_closed(1) this] op t show ?thesis by simp
  next
    case False
    with w e(1) new [OF False] op have r: "r = (length b, None)" and t': "t' = t1" by (simp_all add: tfoWrite_def)
    have "fst (rawWrite E b (absConn s t)) = (length b, None)"
    proof -
      have "t_conn t = None" using t False by (auto simp: settled_def split: option.splits)
      then have "un_sent (absConn s t) = []" by (simp add: absConn_def)
      with E show ?thesis by (simp add: working_def rawWrite_def)
    qed
    then have "rawWrite E b (absConn s t) = (r, absConn s t')"
      using new [OF False] op r t' by (cases "rawWrite E b (absConn s t)") auto
    with e(2) new [OF False] op t t' show ?thesis by simp
  qed
qed

lemma tfoRead_abs:
  assumes E: "working E s" and t: "settled t" and w: "tfoRead E n t = (r, t')"
  shows "settled t' \<and> t_closed t' = t_closed t \<and> plainOp E (OpRead n) (absConn s t) = (Got r, absConn s t')"
proof -
  obtain t1 where e: "ensure E [] t = (t_err t1, t1)" "settled t1"
    and old: "t_once t = Finished \<Longrightarrow> t1 = t"
    and clo: "t_once t \<noteq> Finished \<Longrightarrow> t_closed t \<Longrightarrow> t_err t1 = Some ClosedPipe \<and> absConn s t1 = absConn s t"
    and new: "t_once t \<noteq> Finished \<Longrightarrow> \<not> t_closed t \<Longrightarrow> t_err t1 = None \<and> t_closed t1 = t_closed t
       \<and> absConn s t1 = snd (rawWrite E [] (absConn s t)) \<and> t_conn t1 \<noteq> None"
    using ensure_working [OF E t, of "[]"] by (auto split: if_splits)
  have same: "absConn s t1 = absConn s t"
    using old clo new by (cases "t_once t = Finished"; cases "t_closed t")
      (auto simp: rawWrite_def Let_def split: prod.split)
  then have closed: "t_closed t1 = t_closed t" using absConn_closed [OF t] absConn_closed [OF e(2)] by metis
  show ?thesis
  proof (cases "t_closed t")
    case True
    then have "r = Inl ClosedPipe \<and> t' = t1"
      using w e closed by (auto simp: tfoRead_def settled_def split: option.splits)
    with True e(2) same closed t show ?thesis by simp
  next
    case False
    with e(2) closed obtain k where k: "t_conn t1 = Some k" "t_err t1 = None"
      by (cases "t_once t = Finished") (use old new t in \<open>auto simp: settled_def split: option.splits\<close>)
    from w have "onConn k (rawRead E n) t1 = (r, t')"
      using False closed e(1) k by (simp add: tfoRead_def)
    from onConn_abs [OF e(2) k(1) raw_closed(2) this, of s] False closed same t show ?thesis by simp
  qed
qed

lemma tfoClose_abs:
  assumes E: "working E s" and t: "settled t" and w: "tfoClose E t = (r, t')"
  shows "settled t' \<and> t_closed t' \<and> plainOp E OpClose (absConn s t) = (Did r, absConn s t')"
proof (cases "t_closed t")
  case True
  with w t show ?thesis by (simp add: tfoClose_def)
next
  case False
  have cl: "te_close E u = None" for u using E by (simp add: working_def)
  show ?thesis
  proof (cases "t_conn t")
    case None
    with False t w cl show ?thesis
      by (auto simp: tfoClose_def settled_def absConn_def rawClose_def)
  next
    case (Some k)
    from settled_open [OF t Some] False Some w cl show ?thesis
      by (auto simp: tfoClose_def settled_def absConn_def rawClose_def onConn_def)
  qed
qed

lemma tfoDeadline_abs:
  assumes E: "working E s" and t: "settled t" and c: "\<not> t_closed t" and d: "deadlineOp x"
    and w: "tfoOp E x t = (r, t')"
  shows "settled t' \<and> t_closed t' = t_closed t \<and> plainOp E x (absConn s t) = (r, absConn s t')"
proof -
  have f: "t_once t = Fresh \<and> t_err t = None" if "t_conn t = None"
    using t c that by (auto simp: settled_def)
  have o: "te_setRead E u d = None" "te_setWrite E u d = None" if "\<not> un_closed u" for u d
    using E that by (simp_all add: working_def)
  from d show ?thesis
  proof (cases x)
    case (OpRd d)
    show ?thesis
    proof (cases "t_conn t")
      case None
      with OpRd w f [OF None] c show ?thesis
        by (auto simp: tfoSetReadDeadline_def settled_def absConn_def rawSetRead_def o)
    next
      case (Some k)
      from settled_open [OF t Some] c w OpRd Some show ?thesis
        by (auto simp: tfoSetReadDeadline_def settled_def absConn_def rawSetRead_def onConn_def o)
    qed
  next
    case (OpWd d)
    show ?thesis
    proof (cases "t_conn t")
      case None
      with OpWd w f [OF None] c show ?thesis
        by (auto simp: tfoSetWriteDeadline_def settled_def absConn_def rawSetWrite_def o)
    next
      case (Some k)
      from settled_open [OF t Some] c w OpWd Some show ?thesis
        by (auto simp: tfoSetWriteDeadline_def settled_def absConn_def rawSetWrite_def onConn_def o)
    qed
  next
    case (OpD d)
    show ?thesis
    proof (cases "t_conn t")
      case None
      with OpD w f [OF None] c show ?thesis
        by (auto simp: tfoSetDeadline_def settled_def absConn_def rawSetRead_def rawSetWrite_def o)
    next
      case (Some k)
      from settled_open [OF t Some] c w OpD Some show ?thesis
        by (auto simp: tfoSetDeadline_def settled_def absConn_def rawSetRead_def rawSetWrite_def onConn_def o Let_def)
    qed
  qed simp_all
qed

lemma tfoOp_abs:
  assumes E: "working E s" and t: "settled t" and d: "deadlineOp x \<Longrightarrow> \<not> t_closed t"
    and w: "tfoOp E x t = (r, t')"
  shows "settled t' \<and> (t_closed t' \<longleftrightarrow> t_closed t \<or> x = OpClose) \<and> plainOp E x (absConn s t) = (r, absConn s t')"
proof (cases "deadlineOp x")
  case True
  with tfoDeadline_abs [OF E t d [OF True] True w] show ?thesis by auto
next
  case False
  then show ?thesis
  proof (cases x)
    case (OpWrite b)
    with w tfoWrite_abs [OF E t] show ?thesis by (cases "tfoWrite E b t") auto
  next
    case (OpRead n)
    with w tfoRead_abs [OF E t] show ?thesis by (cases "tfoRead E n t") auto
  next
    case OpClose
    with w tfoClose_abs [OF E t] show ?thesis by (cases "tfoClose E t") auto
  qed simp_all
qed

lemma runOps_abs:
  assumes "working E s" and "settled t"
    and "if t_closed t then list_all (\<lambda>y. \<not> deadlineOp y) xs else noDeadlineAfterClose xs"
    and "runOps (tfoOp E) xs t = (rs, t')"
  shows "settled t' \<and> runOps (plainOp E) xs (absConn s t) = (rs, absConn s t')"
  using assms
proof (induction xs arbitrary: t rs)
  case (Cons x xs)
  obtain r t1 where x: "tfoOp E x t = (r, t1)" by (cases "tfoOp E x t")
  obtain rs1 where xs: "runOps (tfoOp E) xs t1 = (rs1, t')" "rs = r # rs1"
    using Cons.prems(4) x by (auto simp: Let_def split: prod.splits)
  have "deadlineOp x \<Longrightarrow> \<not> t_closed t" using Cons.prems(3) by auto
  from tfoOp_abs [OF Cons.prems(1,2) this x]
  have a: "settled t1" "t_closed t1 \<longleftrightarrow> t_closed t \<or> x = OpClose" "plainOp E x (absConn s t) = (r, absConn s t1)"
    by auto
  have "if t_closed t1 then list_all (\<lambda>y. \<not> deadlineOp y) xs else noDeadlineAfterClose xs"
    using Cons.prems(3) a(2) by (auto split: if_splits)
  from Cons.IH [OF Cons.prems(1) a(1) this xs(1)] a(3) xs(2) show ?case by simp
qed simp


definition exampleTfo :: tfo_env where
  "exampleTfo =
     \<lparr>te_dests = [''a:1'', ''b:1''],
      te_dial = (\<lambda>d _. if d = ''a:1'' then Inl 1 else Inr \<lparr>src_data = [], src_end = EOF\<rparr>),
      te_write = (\<lambda>_ b. (length b, None)), te_read = (\<lambda>u n. (Inl 1, un_in u)), te_close = (\<lambda>_. None),
      te_setRead = (\<lambda>_ _. None), te_setWrite = (\<lambda>_ _. None)\<rparr>"


end
