(* ===== verification/Tfo_Conc.thy ===== *)
theory Tfo_Conc
  imports Tfo
begin

text \<open>
  \<open>tfoConn\<close> under concurrency: goroutines that write, read, close and set deadlines, one step per
  critical section, with the dial outside the lock and inside \<open>sync.Once\<close>. The invariant says that
  nothing leaks, nothing is written twice and no deadline is lost.
\<close>

section \<open>Goroutines and steps\<close>

datatype call = InWrite bytes | InRead nat

fun early :: "call \<Rightarrow> bytes" where
  "early (InWrite b) = b"
| "early (InRead n) = []"

datatype pc =
    PIdle
  | POnce call                      \<comment> \<open>about to enter \<open>once.Do\<close>\<close>
  | PDial call                      \<comment> \<open>inside it, dialling\<close>
  | PDialed "tfo_err + nat" call    \<comment> \<open>inside it, about to publish\<close>
  | PAfter bool bytes               \<comment> \<open>\<open>Write\<close> after \<open>once.Do\<close>, with \<open>first\<close>\<close>
  | PReadAfter nat
  | PWriting nat bytes
  | PReading nat nat

record sys =
  s_t :: tfo
  s_pc :: "nat \<Rightarrow> pc"
  s_dl :: bool            \<comment> \<open>a deadline could not be set on the connection\<close>
  s_wire :: "bytes list"  \<comment> \<open>what was put on the wire, write by write\<close>
  s_ok :: "bytes list"    \<comment> \<open>what the \<open>Write\<close> calls were given that returned without error\<close>

definition goto :: "nat \<Rightarrow> pc \<Rightarrow> sys \<Rightarrow> sys" where
  "goto i p s = s\<lparr>s_pc := (s_pc s)(i := p)\<rparr>"

fun afterOnce :: "call \<Rightarrow> bool \<Rightarrow> pc" where
  "afterOnce (InWrite b) first = PAfter first b"
| "afterOnce (InRead n) first = PReadAfter n"

inductive tfo_step :: "sys \<Rightarrow> sys \<Rightarrow> bool" where
  write_start: "s_pc s i = PIdle \<Longrightarrow> \<not> t_closed (s_t s) \<Longrightarrow> tfo_step s (goto i (POnce (InWrite b)) s)"
| read_start: "s_pc s i = PIdle \<Longrightarrow> tfo_step s (goto i (POnce (InRead n)) s)"
| once_enter: "s_pc s i = POnce c \<Longrightarrow> t_once (s_t s) = Fresh \<Longrightarrow>
    tfo_step s (goto i (PDial c) (s\<lparr>s_t := (s_t s)\<lparr>t_once := Running\<rparr>\<rparr>))"
| once_pass: "s_pc s i = POnce c \<Longrightarrow> t_once (s_t s) = Finished \<Longrightarrow> tfo_step s (goto i (afterOnce c False) s)"
| dial: "s_pc s i = PDial c \<Longrightarrow> dialFn E (early c) (s_t s) = (res, t') \<Longrightarrow>
    tfo_step s (goto i (PDialed res c)
      (s\<lparr>s_t := t', s_wire := s_wire s @ (case res of Inl _ \<Rightarrow> [] | Inr _ \<Rightarrow> [early c])\<rparr>))"
| publish_once: "s_pc s i = PDialed res c \<Longrightarrow>
    tfo_step s (goto i (afterOnce c True) (s\<lparr>s_t := (publish E res (s_t s))\<lparr>t_once := Finished\<rparr>\<rparr>))"
| write_err: "s_pc s i = PAfter f b \<Longrightarrow> t_err (s_t s) \<noteq> None \<Longrightarrow> tfo_step s (goto i PIdle s)"
| write_first: "s_pc s i = PAfter True b \<Longrightarrow> t_err (s_t s) = None \<Longrightarrow>
    tfo_step s (goto i PIdle (s\<lparr>s_ok := s_ok s @ [b]\<rparr>))"
| write_none: "s_pc s i = PAfter False b \<Longrightarrow> t_err (s_t s) = None \<Longrightarrow> t_conn (s_t s) = None \<Longrightarrow>
    tfo_step s (goto i PIdle s)"
| write_get: "s_pc s i = PAfter False b \<Longrightarrow> t_err (s_t s) = None \<Longrightarrow> t_conn (s_t s) = Some k \<Longrightarrow>
    tfo_step s (goto i (PWriting k b) s)"
| write_do: "s_pc s i = PWriting k b \<Longrightarrow> onConn k (rawWrite E b) (s_t s) = ((n, e), t') \<Longrightarrow>
    (e = None \<Longrightarrow> n = length b) \<Longrightarrow>  \<comment> \<open>the contract of \<open>io.Writer\<close>\<close>
    tfo_step s (goto i PIdle (s\<lparr>s_t := t', s_wire := s_wire s @ [take n b],
      s_ok := s_ok s @ (if e = None then [b] else [])\<rparr>))"
| read_fail: "s_pc s i = PReadAfter n \<Longrightarrow>
    t_err (s_t s) \<noteq> None \<or> t_closed (s_t s) \<or> t_conn (s_t s) = None \<Longrightarrow> tfo_step s (goto i PIdle s)"
| read_get: "s_pc s i = PReadAfter n \<Longrightarrow> t_err (s_t s) = None \<Longrightarrow> \<not> t_closed (s_t s) \<Longrightarrow>
    t_conn (s_t s) = Some k \<Longrightarrow> tfo_step s (goto i (PReading k n) s)"
| read_do: "s_pc s i = PReading k n \<Longrightarrow>
    tfo_step s (goto i PIdle (s\<lparr>s_t := snd (onConn k (rawRead E n) (s_t s))\<rparr>))"
| close: "tfo_step s (s\<lparr>s_t := snd (tfoClose E (s_t s))\<rparr>)"
| set_read: "tfoSetReadDeadline E d (s_t s) = (r, t') \<Longrightarrow>
    tfo_step s (s\<lparr>s_t := t', s_dl := (s_dl s \<or> r \<noteq> None)\<rparr>)"
| set_write: "tfoSetWriteDeadline E d (s_t s) = (r, t') \<Longrightarrow>
    tfo_step s (s\<lparr>s_t := t', s_dl := (s_dl s \<or> r \<noteq> None)\<rparr>)"
| set_both: "tfoSetDeadline E d (s_t s) = (r, t') \<Longrightarrow>
    tfo_step s (s\<lparr>s_t := t', s_dl := (s_dl s \<or> r \<noteq> None)\<rparr>)"

definition tfo_init :: "bool \<Rightarrow> sys" where
  "tfo_init keepAlive =
     \<lparr>s_t = newTFOConn keepAlive, s_pc = (\<lambda>_. PIdle), s_dl = False, s_wire = [], s_ok = []\<rparr>"

abbreviation tfo_reach :: "bool \<Rightarrow> sys \<Rightarrow> bool" where
  "tfo_reach keepAlive \<equiv> tfo_step\<^sup>*\<^sup>* (tfo_init keepAlive)"

section \<open>The invariant\<close>

fun waiting :: "pc \<Rightarrow> bool" where
  "waiting PIdle = True"
| "waiting (POnce c) = True"
| "waiting _ = False"

fun inside :: "pc \<Rightarrow> bool" where
  "inside (PDial c) = True"
| "inside (PDialed res c) = True"
| "inside _ = False"

definition freshInv :: "sys \<Rightarrow> bool" where
  "freshInv s \<longleftrightarrow>
     t_conns (s_t s) = [] \<and> t_conn (s_t s) = None \<and> t_err (s_t s) = None \<and> (\<forall>i. waiting (s_pc s i))
     \<and> s_wire s = [] \<and> s_ok s = []"

fun insideOk :: "sys \<Rightarrow> pc \<Rightarrow> bool" where
  "insideOk s (PDial c) = (t_conns (s_t s) = [] \<and> s_wire s = [])"
| "insideOk s (PDialed (Inl e) c) = (t_conns (s_t s) = [] \<and> s_wire s = [])"
| "insideOk s (PDialed (Inr k) c) =
     (k = 0 \<and> s_wire s = [early c]
      \<and> (\<exists>u. t_conns (s_t s) = [u] \<and> un_sent u = early c \<and> \<not> un_closed u \<and> \<not> un_keep u))"
| "insideOk s _ = False"

definition runningInv :: "sys \<Rightarrow> bool" where
  "runningInv s \<longleftrightarrow>
     t_conn (s_t s) = None \<and> t_err (s_t s) = None \<and> s_ok s = []
     \<and> (\<exists>i. insideOk s (s_pc s i) \<and> (\<forall>j. j \<noteq> i \<longrightarrow> waiting (s_pc s j)))"

definition connInv :: "sys \<Rightarrow> under \<Rightarrow> bool" where
  "connInv s u \<longleftrightarrow>
     un_closed u = t_closed (s_t s) \<and> un_keep u = t_keepAlive (s_t s)
     \<and> (\<not> s_dl s \<longrightarrow> un_rd u = t_rd (s_t s) \<and> un_wd u = t_wd (s_t s))"

definition wiredInv :: "sys \<Rightarrow> bool" where
  "wiredInv s \<longleftrightarrow>
     (case t_conn (s_t s) of
        Some k \<Rightarrow> k = 0 \<and> t_err (s_t s) = None \<and> (\<exists>u. t_conns (s_t s) = [u] \<and> connInv s u)
      | None \<Rightarrow> t_err (s_t s) \<noteq> None \<and> length (t_conns (s_t s)) \<le> 1
               \<and> (\<forall>u \<in> set (t_conns (s_t s)). un_closed u) \<and> s_ok s = [])
     \<and> (\<forall>u \<in> set (t_conns (s_t s)). un_sent u = concat (s_wire s))"

fun holds :: "nat option \<Rightarrow> pc \<Rightarrow> bool" where
  \<comment> \<open>a goroutine uses only the published connection\<close>
  "holds c (PWriting k b) = (c = Some k)"
| "holds c (PReading k n) = (c = Some k)"
| "holds c p = True"

definition finishedInv :: "sys \<Rightarrow> bool" where
  "finishedInv s \<longleftrightarrow> wiredInv s \<and> (\<forall>i. \<not> inside (s_pc s i) \<and> holds (t_conn (s_t s)) (s_pc s i))"

definition sentInv :: "sys \<Rightarrow> bool" where
  \<comment> \<open>every successful \<open>Write\<close>, counted, is on the wire, and so is the one about to return\<close>
  "sentInv s \<longleftrightarrow>
     mset (s_ok s) \<subseteq># mset (s_wire s)
     \<and> (\<forall>i j b b'. s_pc s i = PAfter True b \<longrightarrow> s_pc s j = PAfter True b' \<longrightarrow> i = j)
     \<and> (\<forall>i b. s_pc s i = PAfter True b \<longrightarrow> t_err (s_t s) = None \<longrightarrow>
          mset (s_ok s) + {#b#} \<subseteq># mset (s_wire s))"

definition concInv :: "sys \<Rightarrow> bool" where
  "concInv s \<longleftrightarrow>
     (case t_once (s_t s) of Fresh \<Rightarrow> freshInv s | Running \<Rightarrow> runningInv s | Finished \<Rightarrow> finishedInv s) \<and> sentInv s"

section \<open>Every step keeps the invariant\<close>

lemma goto_simps [simp]:
  "s_t (goto i p s) = s_t s" "s_dl (goto i p s) = s_dl s" "s_wire (goto i p s) = s_wire s" "s_ok (goto i p s) = s_ok s"
  "s_pc (goto i p s) j = (if j = i then p else s_pc s j)"
  by (simp_all add: goto_def)

lemma afterOnce_simps [simp]:
  "\<not> inside (afterOnce c f)" "holds x (afterOnce c f)"
  "\<not> waiting (afterOnce c f)" "afterOnce c f = PAfter g b \<longleftrightarrow> c = InWrite b \<and> f = g"
  by (cases c; auto)+

lemma waiting_not [simp]:
  "waiting p \<Longrightarrow> \<not> inside p" "waiting p \<Longrightarrow> holds x p" "waiting p \<Longrightarrow> p \<noteq> PAfter f b"
  by (cases p; auto)+

lemma wiredInv_goto [simp]: "wiredInv (goto i p s) = wiredInv s"
  by (simp add: wiredInv_def connInv_def cong: option.case_cong)

lemma insideOk_inside: "insideOk s p \<Longrightarrow> inside p"
  by (cases p) auto

lemma insideOk_cong:
  "t_conns (s_t s') = t_conns (s_t s) \<Longrightarrow> s_wire s' = s_wire s \<Longrightarrow> insideOk s' p = insideOk s p"
  by (cases "(s, p)" rule: insideOk.cases) auto

lemma concInv_Fresh:
  "concInv s \<Longrightarrow> t_once (s_t s) = Fresh \<Longrightarrow> freshInv s \<and> sentInv s"
  by (simp add: concInv_def)

lemma waiting_step:
  assumes "concInv s" and "waiting p" and "waiting (s_pc s i)"
  shows "concInv (goto i p s)"
proof (cases "t_once (s_t s)")
  case Fresh
  with assms show ?thesis by (auto simp: concInv_def freshInv_def sentInv_def)
next
  case Running
  with assms(1) obtain j where j: "insideOk s (s_pc s j)" "\<forall>k. k \<noteq> j \<longrightarrow> waiting (s_pc s k)"
    "t_conn (s_t s) = None" "t_err (s_t s) = None" "s_ok s = []" "sentInv s"
    by (auto simp: concInv_def runningInv_def)
  have "j \<noteq> i" using insideOk_inside [OF j(1)] assms(3) by auto
  then have "runningInv (goto i p s)"
    using j assms(2) by (auto simp: runningInv_def insideOk_cong [of "goto i p s" s] intro!: exI [of _ j])
  moreover have "sentInv (goto i p s)" using j(6) assms(2) by (auto simp: sentInv_def)
  ultimately show ?thesis using Running by (simp add: concInv_def)
next
  case Finished
  with assms(1,2) show ?thesis by (auto simp: concInv_def finishedInv_def sentInv_def)
qed

lemma finished_goto:
  assumes "concInv s" and "t_once (s_t s) = Finished" and "\<not> inside p" and "\<And>b. p \<noteq> PAfter True b"
    and "holds (t_conn (s_t s)) p"
  shows "concInv (goto i p s)"
  using assms by (auto simp: concInv_def finishedInv_def sentInv_def)

lemma not_waiting_Finished:
  assumes "concInv s" and "\<not> waiting (s_pc s i)" and "\<not> inside (s_pc s i)"
  shows "t_once (s_t s) = Finished"
proof (cases "t_once (s_t s)")
  case Fresh
  with assms show ?thesis by (auto simp: concInv_def freshInv_def)
next
  case Running
  with assms(1) obtain j where "insideOk s (s_pc s j)" "\<forall>k. k \<noteq> j \<longrightarrow> waiting (s_pc s k)"
    by (auto simp: concInv_def runningInv_def)
  with assms(2,3) insideOk_inside show ?thesis by metis
qed

lemma inside_Running:
  assumes "concInv s" and "inside (s_pc s i)"
  shows "t_once (s_t s) = Running \<and> insideOk s (s_pc s i) \<and> (\<forall>j. j \<noteq> i \<longrightarrow> waiting (s_pc s j))"
proof (cases "t_once (s_t s)")
  case Running
  with assms(1) obtain j where j: "insideOk s (s_pc s j)" "\<forall>k. k \<noteq> j \<longrightarrow> waiting (s_pc s k)"
    by (auto simp: concInv_def runningInv_def)
  with assms(2) have "j = i" by (metis waiting_not(1))
  with j Running show ?thesis by simp
qed (use assms in \<open>auto simp: concInv_def freshInv_def finishedInv_def\<close>)

lemma enter_step:
  assumes "concInv s" and "s_pc s i = POnce c" and "t_once (s_t s) = Fresh"
  shows "concInv (goto i (PDial c) (s\<lparr>s_t := (s_t s)\<lparr>t_once := Running\<rparr>\<rparr>))"
proof -
  from assms(1,3) have f: "freshInv s" "sentInv s" by (simp_all add: concInv_def)
  then have "runningInv (goto i (PDial c) (s\<lparr>s_t := (s_t s)\<lparr>t_once := Running\<rparr>\<rparr>))"
    by (auto simp: runningInv_def freshInv_def intro!: exI [of _ i])
  with f(2) show ?thesis by (simp add: concInv_def sentInv_def)
qed

lemma dial_step:
  assumes "concInv s" and "s_pc s i = PDial c" and d: "dialFn E (early c) (s_t s) = (res, t')"
  shows "concInv (goto i (PDialed res c)
      (s\<lparr>s_t := t', s_wire := s_wire s @ (case res of Inl _ \<Rightarrow> [] | Inr _ \<Rightarrow> [early c])\<rparr>))" (is "concInv ?s")
proof -
  from inside_Running [OF assms(1), of i] assms(2)
  have r: "t_once (s_t s) = Running" "t_conns (s_t s) = []" "s_wire s = []" "\<forall>j. j \<noteq> i \<longrightarrow> waiting (s_pc s j)"
    by auto
  from assms(1) r(1) have q: "t_conn (s_t s) = None" "t_err (s_t s) = None" "s_ok s = []" "sentInv s"
    by (auto simp: concInv_def runningInv_def)
  have "insideOk ?s (PDialed res c)" "t_once t' = Running" "t_conn t' = None" "t_err t' = None"
    using d r(1-3) q by (auto simp: dialFn_def split: sum.splits)
  then have "runningInv ?s" using r(4) q by (auto simp: runningInv_def intro!: exI [of _ i])
  moreover have "sentInv ?s" using q r(4) by (auto simp: sentInv_def)
  ultimately show ?thesis using \<open>t_once t' = Running\<close> by (simp add: concInv_def)
qed

lemma publish_simps [simp]:
  "t_closed (publish E res t) = t_closed t" "t_keepAlive (publish E res t) = t_keepAlive t"
  "t_rd (publish E res t) = t_rd t" "t_wd (publish E res t) = t_wd t"
  by (auto simp: publish_def onConn_def Let_def split: sum.splits prod.splits option.splits)

lemma publish_none: "t_conn t = None \<Longrightarrow> t_err t = None \<Longrightarrow> publish E (Inl e) t = t\<lparr>t_err := Some (if t_closed t then ClosedPipe else e)\<rparr>"
  by (simp add: publish_def)

lemma publish_one:
  assumes "t_conns t = [u]" and "t_conn t = None" and "t_err t = None" and "\<not> un_closed u"
  shows "\<exists>u'. t_conns (publish E (Inr 0) t) = [u'] \<and> un_sent u' = un_sent u \<and>
    (t_conn (publish E (Inr 0) t) = None \<and> t_err (publish E (Inr 0) t) \<noteq> None \<and> un_closed u'
     \<or> t_conn (publish E (Inr 0) t) = Some 0 \<and> t_err (publish E (Inr 0) t) = None \<and> \<not> t_closed t \<and> \<not> un_closed u'
        \<and> (un_keep u' \<longleftrightarrow> un_keep u \<or> t_keepAlive t) \<and> un_rd u' = t_rd t \<and> un_wd u' = t_wd t)"
  using assms
  by (auto simp: publish_def onConn_def rawClose_def rawSetRead_def rawSetWrite_def Let_def split: option.splits)

lemma publish_step:
  assumes "concInv s" and "s_pc s i = PDialed res c"
  shows "concInv (goto i (afterOnce c True) (s\<lparr>s_t := (publish E res (s_t s))\<lparr>t_once := Finished\<rparr>\<rparr>))" (is "concInv ?s")
proof -
  from inside_Running [OF assms(1), of i] assms(2)
  have r: "t_once (s_t s) = Running" "insideOk s (PDialed res c)" "\<forall>j. j \<noteq> i \<longrightarrow> waiting (s_pc s j)"
    by auto
  from assms(1) r(1) have q: "t_conn (s_t s) = None" "t_err (s_t s) = None" "s_ok s = []" "sentInv s"
    by (auto simp: concInv_def runningInv_def)
  have pcs: "\<not> inside (s_pc ?s j) \<and> holds x (s_pc ?s j)" for j x using r(3) by auto
  have "wiredInv ?s \<and> (\<forall>b. c = InWrite b \<longrightarrow> t_err (s_t ?s) = None \<longrightarrow> s_wire s = [b])"
  proof (cases res)
    case (Inl e)
    with r(2) q show ?thesis by (simp add: wiredInv_def publish_none)
  next
    case (Inr k)
    with r(2) obtain u where u: "k = 0" "s_wire s = [early c]" "t_conns (s_t s) = [u]" "un_sent u = early c"
      "\<not> un_closed u" "\<not> un_keep u" by auto
    from publish_one [OF u(3) q(1,2) u(5), of E] u Inr q(3) show ?thesis
      by (auto simp: wiredInv_def connInv_def)
  qed
  moreover have "sentInv ?s" using calculation q(3) r(3) by (auto simp: sentInv_def)
  ultimately show ?thesis using pcs by (simp add: concInv_def finishedInv_def)
qed

lemma ok_step:
  assumes "concInv s" and "s_pc s i = PAfter True b" and "t_err (s_t s) = None"
  shows "concInv (goto i PIdle (s\<lparr>s_ok := s_ok s @ [b]\<rparr>))"
proof -
  from assms(1,2) have f: "t_once (s_t s) = Finished" "finishedInv s" "sentInv s"
    using not_waiting_Finished [of s i] by (auto simp: concInv_def)
  have "sentInv (goto i PIdle (s\<lparr>s_ok := s_ok s @ [b]\<rparr>))"
    using f(3) assms(2,3) by (auto simp: sentInv_def add_mset_commute)
  with f show ?thesis using assms(3)
    by (auto simp: concInv_def finishedInv_def wiredInv_def connInv_def split: option.splits)
qed

lemma finished_conn:
  assumes "concInv s" and "t_once (s_t s) = Finished" and "t_conn (s_t s) = Some k"
  obtains u where "k = 0" "t_err (s_t s) = None" "t_conns (s_t s) = [u]" "connInv s u" "un_sent u = concat (s_wire s)"
    "finishedInv s" "sentInv s"
  using assms by (auto simp: concInv_def finishedInv_def wiredInv_def)

lemma subset_add_right: "A \<subseteq># B \<Longrightarrow> A \<subseteq># add_mset x B"
  by (metis add_mset_add_single mset_subset_eq_add_left subset_mset.order_trans)

lemma finished_holds: "concInv s \<Longrightarrow> t_once (s_t s) = Finished \<Longrightarrow> holds (t_conn (s_t s)) (s_pc s i)"
  by (simp add: concInv_def finishedInv_def)

lemma write_step:
  assumes "concInv s" and "s_pc s i = PWriting k b" and w: "onConn k (rawWrite E b) (s_t s) = ((n, e), t')"
    and n: "e = None \<Longrightarrow> n = length b"
  shows "concInv (goto i PIdle (s\<lparr>s_t := t', s_wire := s_wire s @ [take n b],
      s_ok := s_ok s @ (if e = None then [b] else [])\<rparr>))" (is "concInv ?s")
proof -
  have fin: "t_once (s_t s) = Finished" using not_waiting_Finished [of s i] assms(1,2) by auto
  have k: "t_conn (s_t s) = Some k" using finished_holds [OF assms(1) fin, of i] assms(2) by simp
  obtain u where u: "k = 0" "t_err (s_t s) = None" "t_conns (s_t s) = [u]" "connInv s u"
    "un_sent u = concat (s_wire s)" "finishedInv s" "sentInv s"
    using finished_conn [OF assms(1) fin k] .
  obtain m where t': "t' = (s_t s)\<lparr>t_conns := [u\<lparr>un_sent := un_sent u @ take n b\<rparr>]\<rparr>"
    using w u(1,3) by (auto simp: onConn_def rawWrite_def Let_def split: prod.splits)
  have "wiredInv ?s" using u k t' by (auto simp: wiredInv_def connInv_def)
  moreover have "sentInv ?s"
  proof -
    have "mset (s_ok s) + (if e = None then {#b#} else {#}) \<subseteq># mset (s_wire s) + {#take n b#}"
      if "mset (s_ok s) \<subseteq># mset (s_wire s)"
      using that n by (auto intro: subset_add_right)
    moreover have "mset (s_ok s) + {#c#} + (if e = None then {#b#} else {#}) \<subseteq># mset (s_wire s) + {#take n b#}"
      if "mset (s_ok s) + {#c#} \<subseteq># mset (s_wire s)" for c
      using that n by (auto intro: subset_add_right)
    ultimately show ?thesis using u(7) t' by (auto simp: sentInv_def split: if_splits)
  qed
  ultimately show ?thesis using u(6) fin k t' by (auto simp: concInv_def finishedInv_def)
qed

text \<open>A call that does not move a goroutine and changes a connection only in what \<open>connInv\<close> allows.\<close>

lemma conn_call:
  assumes inv: "concInv s" and t: "t_once t' = t_once (s_t s)" "t_conn t' = t_conn (s_t s)" "t_err t' = t_err (s_t s)"
    and none: "t_conn (s_t s) = None \<Longrightarrow> t_conns t' = t_conns (s_t s)"
    and some: "\<And>u. t_conn (s_t s) = Some 0 \<Longrightarrow> t_conns (s_t s) = [u] \<Longrightarrow> connInv s u \<Longrightarrow>
      \<exists>u'. t_conns t' = [u'] \<and> un_sent u' = un_sent u \<and> connInv (s\<lparr>s_t := t', s_dl := d\<rparr>) u'"
  shows "concInv (s\<lparr>s_t := t', s_dl := d\<rparr>)" (is "concInv ?s")
proof (cases "t_once (s_t s)")
  case Fresh
  with inv t none show ?thesis by (auto simp: concInv_def freshInv_def sentInv_def)
next
  case Running
  with inv have r: "runningInv s" "sentInv s" by (simp_all add: concInv_def)
  then have "insideOk ?s p = insideOk s p" for p
    by (rule_tac insideOk_cong) (simp_all add: runningInv_def none)
  with r t have "runningInv ?s" by (simp add: runningInv_def)
  with r(2) t Running show ?thesis by (simp add: concInv_def sentInv_def)
next
  case Finished
  with inv have f: "finishedInv s" "sentInv s" by (simp_all add: concInv_def)
  have "wiredInv ?s"
  proof (cases "t_conn (s_t s)")
    case None
    with f(1) t none show ?thesis by (simp add: finishedInv_def wiredInv_def)
  next
    case (Some k)
    from finished_conn [OF inv Finished Some] obtain u where u: "k = 0" "t_err (s_t s) = None"
      "t_conns (s_t s) = [u]" "connInv s u" "un_sent u = concat (s_wire s)" by metis
    with some Some obtain u' where "t_conns t' = [u']" "un_sent u' = un_sent u" "connInv ?s u'" by blast
    with u Some t show ?thesis by (simp add: wiredInv_def)
  qed
  with f t Finished show ?thesis by (simp add: concInv_def finishedInv_def sentInv_def)
qed

lemma close_step: "concInv s \<Longrightarrow> concInv (s\<lparr>s_t := snd (tfoClose E (s_t s))\<rparr>)"
  using conn_call [of s "snd (tfoClose E (s_t s))" "s_dl s"]
  by (auto simp: tfoClose_def onConn_def rawClose_def connInv_def Let_def split: option.splits)

lemma read_step:
  assumes "concInv s" and "s_pc s i = PReading k n"
  shows "concInv (goto i PIdle (s\<lparr>s_t := snd (onConn k (rawRead E n) (s_t s))\<rparr>))"
proof -
  have fin: "t_once (s_t s) = Finished" using not_waiting_Finished [of s i] assms by auto
  have k: "t_conn (s_t s) = Some k" using finished_holds [OF assms(1) fin, of i] assms(2) by simp
  have "concInv (s\<lparr>s_t := snd (onConn k (rawRead E n) (s_t s)), s_dl := s_dl s\<rparr>)"
    using assms(1) k by (intro conn_call) (auto simp: onConn_def rawRead_def connInv_def Let_def split: prod.splits)
  then have "concInv (s\<lparr>s_t := snd (onConn k (rawRead E n) (s_t s))\<rparr>)" by simp
  from finished_goto [OF this, of PIdle i] fin show ?thesis by simp
qed

lemma deadline_step:
  assumes "concInv s"
  shows "tfoSetReadDeadline E d (s_t s) = (r, t') \<Longrightarrow> concInv (s\<lparr>s_t := t', s_dl := (s_dl s \<or> r \<noteq> None)\<rparr>)"
    and "tfoSetWriteDeadline E d (s_t s) = (r, t') \<Longrightarrow> concInv (s\<lparr>s_t := t', s_dl := (s_dl s \<or> r \<noteq> None)\<rparr>)"
    and "tfoSetDeadline E d (s_t s) = (r, t') \<Longrightarrow> concInv (s\<lparr>s_t := t', s_dl := (s_dl s \<or> r \<noteq> None)\<rparr>)"
  using assms
  by (intro conn_call; force simp: tfoSetReadDeadline_def tfoSetWriteDeadline_def tfoSetDeadline_def onConn_def
      rawSetRead_def rawSetWrite_def connInv_def Let_def split: option.splits prod.splits)+

lemma concInv_init: "concInv (tfo_init keepAlive)"
  by (simp add: concInv_def freshInv_def sentInv_def tfo_init_def newTFOConn_def)

lemma concInv_step: "tfo_step s s' \<Longrightarrow> concInv s \<Longrightarrow> concInv s'"
proof (induction rule: tfo_step.induct)
  case (once_pass s i c)
  then show ?case using finished_goto [of s "afterOnce c False" i] by (cases c) auto
next
  case (write_err s i f b)
  then show ?case using not_waiting_Finished [of s i] finished_goto [of s PIdle i] by auto
next
  case (write_none s i b)
  then show ?case using not_waiting_Finished [of s i] finished_goto [of s PIdle i] by auto
next
  case (write_get s i b k)
  then show ?case using not_waiting_Finished [of s i] finished_goto [of s "PWriting k b" i] by auto
next
  case (read_fail s i n)
  then show ?case using not_waiting_Finished [of s i] finished_goto [of s PIdle i] by auto
next
  case (read_get s i n k)
  then show ?case using not_waiting_Finished [of s i] finished_goto [of s "PReading k n" i] by auto
next
  case (write_do s i k b E n e t')
  then show ?case by (blast intro: write_step)
qed (auto intro: waiting_step enter_step dial_step publish_step ok_step write_step read_step close_step deadline_step
      simp del: not_None_eq)

interpretation tfo_machine: state_machine "tfo_init keepAlive" tfo_step concInv for keepAlive
  by unfold_locales (fact concInv_init, rule concInv_step)



end
