(* ===== verification/Config.thy ===== *)
theory Config
  imports Socks
begin

text \<open>
  The configuration file, \<open>internal/config/config.go\<close>: defaults, the checks on \<open>lanAuth\<close>, where
  credentials are required, and the listen addresses. Reading the file, decoding JSON, the
  environment and the file system are parameters.
\<close>

section \<open>Text\<close>

definition inset :: "string \<Rightarrow> char \<Rightarrow> bool" where "inset cs c \<longleftrightarrow> c \<in> set cs"

definition Trim :: "string \<Rightarrow> string \<Rightarrow> string" where
  \<comment> \<open>\<open>strings.Trim\<close> with a cutset of ASCII characters\<close>
  "Trim s cutset = rev (dropWhile (inset cutset) (rev (dropWhile (inset cutset) s)))"

fun containsControl :: "string \<Rightarrow> bool" where
  \<comment> \<open>\<open>strings.ContainsFunc(s, unicode.IsControl)\<close>: the C0 controls, delete, and the C1 controls,
     which UTF-8 writes C2 80 to C2 9F; C2 is never a continuation byte, so every such pair is a
     character of its own\<close>
  "containsControl [] = False"
| "containsControl (c # s) =
     (let n = (of_char c :: nat) in
      n < 32 \<or> n = 127 \<or> (n = 0xC2 \<and> s \<noteq> [] \<and> 128 \<le> (of_char (hd s) :: nat) \<and> (of_char (hd s) :: nat) \<le> 159)
      \<or> containsControl s)"

section \<open>The file\<close>

record LANAuth =
  la_Username :: string
  la_Password :: string

record Listener =
  ln_Name :: string
  ln_Type :: string
  ln_Port :: int
  ln_Node :: string
  ln_Listen :: string

record cfgFile =
  c_AccessToken :: string
  c_Email :: string
  c_Password :: string
  c_ProxyMode :: string
  c_ServePort :: int
  c_MapBasePort :: int
  c_ListenAddress :: string
  c_LANAuth :: "LANAuth option"
  c_SimpleRules :: bool
  c_Filter :: string
  c_Listeners :: "Listener list"
  c_OixParams :: string
  c_APIBase :: string
  c_CustomConf :: string
  c_DataDir :: string

definition Defaults :: cfgFile where
  "Defaults =
     \<lparr>c_AccessToken = [], c_Email = [], c_Password = [], c_ProxyMode = ''map'', c_ServePort = 6172,
      c_MapBasePort = 7200, c_ListenAddress = ''127.0.0.1'', c_LANAuth = None, c_SimpleRules = False,
      c_Filter = [], c_Listeners = [], c_OixParams = [], c_APIBase = [], c_CustomConf = [],
      c_DataDir = []\<rparr>"

datatype cfg_err =
    ReadErr nat
  | JsonErr nat
  | AuthRequired
  | AuthColon
  | AuthTooLong
  | AuthControl
  | DataDirErr nat
  | NoPort

definition validLANAuth :: "string \<Rightarrow> string \<Rightarrow> cfg_err + unit" where
  "validLANAuth user pass =
     (if user = [] \<or> pass = [] then Inl AuthRequired
      else if Contains user '':'' then Inl AuthColon
      else if 255 < length user \<or> 255 < length pass then Inl AuthTooLong
      else if containsControl user \<or> containsControl pass then Inl AuthControl
      else Inr ())"

section \<open>Paths\<close>

datatype file_kind = RegularFile | Directory

record env =
  ev_get :: "string \<Rightarrow> string"              \<comment> \<open>\<open>os.Getenv\<close>\<close>
  ev_home :: string                       \<comment> \<open>\<open>os.UserHomeDir\<close>, empty when unknown\<close>
  ev_stat :: "string \<Rightarrow> file_kind option"   \<comment> \<open>\<open>os.Stat\<close>\<close>
  ev_mkdirAll :: "string \<Rightarrow> nat option"
  ev_read :: "string \<Rightarrow> nat + bytes"
  ev_json :: "bytes \<Rightarrow> cfgFile \<Rightarrow> nat + cfgFile"  \<comment> \<open>\<open>json.Unmarshal\<close> into a struct\<close>
  ev_join :: "string \<Rightarrow> string \<Rightarrow> string"   \<comment> \<open>\<open>filepath.Join\<close>\<close>
  ev_dir :: "string \<Rightarrow> string"              \<comment> \<open>\<open>filepath.Dir\<close>\<close>

fun firstExisting :: "env \<Rightarrow> string list \<Rightarrow> string" where
  "firstExisting E [] = []"
| "firstExisting E (p # ps) = (if p \<noteq> [] \<and> ev_stat E p = Some RegularFile then p else firstExisting E ps)"

fun lastNonempty :: "string list \<Rightarrow> string" where
  \<comment> \<open>the loop from the end in \<open>firstExistingDir\<close>, on the reversed list\<close>
  "lastNonempty [] = []"
| "lastNonempty (p # ps) = (if p \<noteq> [] then p else lastNonempty ps)"

fun existingDir :: "env \<Rightarrow> string list \<Rightarrow> string option" where
  "existingDir E [] = None"
| "existingDir E (p # ps) = (if p \<noteq> [] \<and> ev_stat E p = Some Directory then Some p else existingDir E ps)"

definition firstExistingDir :: "env \<Rightarrow> string list \<Rightarrow> string" where
  "firstExistingDir E paths =
     (case existingDir E paths of Some p \<Rightarrow> p | None \<Rightarrow> lastNonempty (rev paths))"

definition helperDir :: string where "helperDir = ''.config/oixcloud-external-proxy-program''"

definition DefaultPath :: "env \<Rightarrow> string" where
  "DefaultPath E =
     (if ev_get E ''OIXCLOUD_CONFIG'' \<noteq> [] then ev_get E ''OIXCLOUD_CONFIG''
      else
        let home = ev_home E;
            own = ev_join E home (helperDir @ ''/config.json'');
            candidates = (if home \<noteq> [] then [own] else []) @ [''/config/config.json''] in
        case find (\<lambda>p. ev_stat E p = Some RegularFile) candidates of
          Some p \<Rightarrow> p
        | None \<Rightarrow> if home \<noteq> [] then own else ''config.json'')"

definition DataDir :: "env \<Rightarrow> cfg_err + string" where
  "DataDir E =
     (let v = TrimSpace (ev_get E ''OIXCLOUD_DATA'') in
      if v \<noteq> [] then (case ev_mkdirAll E v of Some e \<Rightarrow> Inl (DataDirErr e) | None \<Rightarrow> Inr v)
      else Inr (firstExistingDir E [''/data'', ev_join E (ev_home E) helperDir]))"

section \<open>Loading\<close>

definition fillDefaults :: "cfgFile \<Rightarrow> cfgFile" where
  "fillDefaults c =
     c\<lparr>c_ProxyMode := (if c_ProxyMode c = [] then ''map'' else c_ProxyMode c),
       c_ServePort := (if c_ServePort c = 0 then 6172 else c_ServePort c),
       c_MapBasePort := (if c_MapBasePort c = 0 then 7200 else c_MapBasePort c),
       c_ListenAddress := (if c_ListenAddress c = [] then ''127.0.0.1'' else c_ListenAddress c)\<rparr>"

definition checkLANAuth :: "cfgFile \<Rightarrow> cfg_err + unit" where
  "checkLANAuth c =
     (case c_LANAuth c of None \<Rightarrow> Inr () | Some a \<Rightarrow> validLANAuth (la_Username a) (la_Password a))"

definition Load :: "env \<Rightarrow> string \<Rightarrow> cfg_err + cfgFile" where
  "Load E path =
     (case ev_read E path of
        Inl e \<Rightarrow> Inl (ReadErr e)
      | Inr b \<Rightarrow>
          (case ev_json E b Defaults of
             Inl e \<Rightarrow> Inl (JsonErr e)
           | Inr raw \<Rightarrow>
               let cfg = fillDefaults raw in
               sbind (checkLANAuth cfg) (\<lambda>_.
               sbind (DataDir E) (\<lambda>dataDir.
                 Inr (cfg\<lparr>c_CustomConf :=
                            firstExisting E [ev_get E ''OIXCLOUD_CUSTOM_CONFIG'',
                              ev_join E (ev_dir E path) ''custom.conf'', ev_join E dataDir ''custom.conf'',
                              ''/config/custom.conf''],
                          c_DataDir := dataDir\<rparr>)))))"

section \<open>Addresses\<close>

definition netJoin :: "string \<Rightarrow> string \<Rightarrow> string" where
  "netJoin host0 port =
     (let host = (if host0 = [] then ''127.0.0.1'' else host0) in
      if Contains host '':'' \<and> \<not> HasPrefix host ''['' then ''['' @ host @ '']:'' @ port
      else host @ '':'' @ port)"

definition normalizeListen :: "string \<Rightarrow> string \<Rightarrow> string" where
  "normalizeListen v defaultHost =
     (if v = [] then netJoin defaultHost ''6172''
      else if \<not> Contains v '':'' then netJoin defaultHost v
      else if HasPrefix v '':'' then defaultHost @ v
      else v)"

definition ServeAddr :: "env \<Rightarrow> cfgFile \<Rightarrow> string \<Rightarrow> string" where
  "ServeAddr E c listenFlag =
     (if listenFlag \<noteq> [] then normalizeListen listenFlag (c_ListenAddress c)
      else if ev_get E ''OIXCLOUD_SERVE_PORT'' \<noteq> []
      then netJoin (c_ListenAddress c) (ev_get E ''OIXCLOUD_SERVE_PORT'')
      else netJoin (c_ListenAddress c) (Itoa (c_ServePort c)))"

definition BindAddr :: "cfgFile \<Rightarrow> string \<Rightarrow> string" where
  "BindAddr c bindFlag = (if bindFlag \<noteq> [] then bindFlag else c_ListenAddress c)"

definition splitHostPortSafe :: "string \<Rightarrow> cfg_err + string \<times> string" where
  "splitHostPortSafe addr =
     (case lastByteIndex CHR '':'' addr of
        None \<Rightarrow> Inl NoPort
      | Some i \<Rightarrow> Inr (Trim (take i addr) ''[]'', drop (i + 1) addr))"

definition authHost :: "string \<Rightarrow> string" where
  "authHost bind0 =
     (let bind = TrimSpace bind0 in
      case SplitHostPort bind of Some (h, _) \<Rightarrow> h | None \<Rightarrow> Trim bind ''[]'')"

definition isLoopback :: "(string \<Rightarrow> string) \<Rightarrow> string \<Rightarrow> bool" where
  "isLoopback L host0 =
     (let host = Trim (ToLower L (TrimSpace host0)) ''[]'' in
      host = ''localhost'' \<or> (case ParseIP host of None \<Rightarrow> False | Some ip \<Rightarrow> IsLoopback ip))"

definition AuthFor :: "(string \<Rightarrow> string) \<Rightarrow> cfgFile \<Rightarrow> string \<Rightarrow> string \<times> string" where
  "AuthFor L c bind =
     (case c_LANAuth c of
        None \<Rightarrow> ([], [])
      | Some a \<Rightarrow>
          if isLoopback L (authHost bind) then ([], []) else (la_Username a, la_Password a))"

section \<open>What a loaded configuration guarantees\<close>

lemma Contains_char: "Contains s [c] \<longleftrightarrow> c \<in> set s"
  by (auto simp: Contains_def indexOf_char)

lemma validLANAuth_Inr:
  "validLANAuth user pass = Inr () \<longleftrightarrow>
     user \<noteq> [] \<and> pass \<noteq> [] \<and> CHR '':'' \<notin> set user \<and> length user \<le> 255 \<and> length pass \<le> 255
     \<and> \<not> containsControl user \<and> \<not> containsControl pass"
  by (auto simp: validLANAuth_def Contains_char)

lemma Load_LANAuth:
  "Load E path = Inr cfg \<Longrightarrow> c_LANAuth cfg = Some a \<Longrightarrow> validLANAuth (la_Username a) (la_Password a) = Inr ()"
  by (auto simp: Load_def Let_def sbind_eq_Inr checkLANAuth_def split: sum.splits)

lemma fillDefaults_simps [simp]:
  "c_ProxyMode (fillDefaults c) \<noteq> []" "c_ServePort (fillDefaults c) \<noteq> 0"
  "c_MapBasePort (fillDefaults c) \<noteq> 0" "c_ListenAddress (fillDefaults c) \<noteq> []"
  "c_LANAuth (fillDefaults c) = c_LANAuth c"
  by (simp_all add: fillDefaults_def)

lemma Load_filled:
  "Load E path = Inr cfg \<Longrightarrow> c_ProxyMode cfg \<noteq> [] \<and> c_ServePort cfg \<noteq> 0 \<and> c_MapBasePort cfg \<noteq> 0
     \<and> c_ListenAddress cfg \<noteq> []"
  by (auto simp: Load_def Let_def sbind_eq_Inr split: sum.splits)

text \<open>\<open>netJoin\<close> is \<open>net.JoinHostPort\<close> with a default host and without doubling brackets.\<close>

lemma netJoin_JoinHostPort:
  "host \<noteq> [] \<Longrightarrow> \<not> HasPrefix host ''['' \<Longrightarrow> netJoin host port = JoinHostPort host port"
  by (simp add: netJoin_def JoinHostPort_def Contains_char)

lemma Itoa_chars: "c \<in> set (Itoa p) \<Longrightarrow> is_digit c \<or> c = CHR ''-''"
  using nat_str_digits [of "nat p"] nat_str_digits [of "nat (- p)"]
  by (auto simp: Itoa_def list_all_iff split: if_splits)

lemma Itoa_port [simp]: "port_ok (Itoa p)"
  by (auto simp: port_ok_def is_digit_def dest: Itoa_chars)

lemma Itoa_not_Nil [simp]: "Itoa p \<noteq> []"
  by (simp add: Itoa_def)

lemma Itoa_last_visible: "visible (last (Itoa p))"
  using Itoa_chars [OF last_in_set [OF Itoa_not_Nil], of p]
  by (auto simp: is_digit_def visible_def)

lemma authHost_JoinHostPort:
  assumes "host_ok h" and "h = [] \<or> visible (hd h)"
  shows "authHost (JoinHostPort h (Itoa p)) = h"
proof -
  have "visible (hd (JoinHostPort h (Itoa p)))"
    using assms(2) by (cases h) (auto simp: JoinHostPort_def visible_def)
  moreover have "visible (last (JoinHostPort h (Itoa p)))"
    by (simp add: JoinHostPort_def Itoa_last_visible)
  ultimately show ?thesis
    using SplitHostPort_Join [OF assms(1) Itoa_port] by (simp add: authHost_def)
qed

end
