(* ===== verification/Emit.thy ===== *)
theory Emit
  imports Transport
begin

text \<open>
  The documents handed to clients (\<open>internal/serve/emit.go\<close>, \<open>opensurge.go\<close>): Surge and Clash
  lines for the local SOCKS ports, the rewriting of a Surge template, and the OpenSurge overlay.
  Unicode tables (\<open>L\<close> for lower case, \<open>P\<close> for \<open>strconv.Quote\<close> outside ASCII) are parameters.
\<close>

section \<open>Mappings and their lines\<close>

record Mapping =
  m_Node :: node
  m_Port :: int
  m_Host :: string
  m_UDP :: bool
  m_User :: string
  m_Pass :: string
  m_ln :: "nat option"   \<comment> \<open>the listener\<close>

abbreviation nl :: string where "nl \<equiv> [CHR 0x0A]"
abbreviation dquote :: char where "dquote \<equiv> CHR 0x22"
abbreviation backslash :: char where "backslash \<equiv> CHR 0x5C"
abbreviation tab :: char where "tab \<equiv> CHR 0x09"

definition mappingHost :: "Mapping \<Rightarrow> string \<Rightarrow> string" where
  "mappingHost m fallback = (if m_Host m \<noteq> [] then m_Host m else fallback)"

definition needsSurgeQuote :: "string \<Rightarrow> bool" where
  "needsSurgeQuote s \<longleftrightarrow> list_ex (\<lambda>c. c \<in> set [CHR '','', dquote, CHR ''='', CHR '' '', tab]) s"

fun surgeEscape :: "string \<Rightarrow> string" where
  "surgeEscape [] = []"
| "surgeEscape (c # s) =
     (if c = backslash \<or> c = dquote then backslash # c # surgeEscape s else c # surgeEscape s)"

definition surgeQuote :: "string \<Rightarrow> string" where
  "surgeQuote s = (if \<not> needsSurgeQuote s then s else dquote # surgeEscape s @ [dquote])"

definition socksLine :: "Mapping \<Rightarrow> string \<Rightarrow> string" where
  "socksLine m host0 =
     (let host = mappingHost m host0 in
      n_Name (m_Node m) @ '' = socks5, '' @ host @ '', '' @ Itoa (m_Port m)
      @ (if m_User m \<noteq> [] then '', '' @ surgeQuote (m_User m) @ '', '' @ surgeQuote (m_Pass m) else [])
      @ (if m_UDP m then '', udp-relay=true'' else []))"

definition ProxyList :: "Mapping list \<Rightarrow> string \<Rightarrow> string" where
  "ProxyList maps host = concat (map (\<lambda>m. socksLine m host @ nl) maps)"

section \<open>Go's quoted strings\<close>

definition quoteByte :: "char \<Rightarrow> string" where
  "quoteByte c =
     (let n = (of_char c :: nat) in
      if c = dquote \<or> c = backslash then [backslash, c]
      else if 32 \<le> n \<and> n < 127 then [c]
      else if n = 7 then [backslash, CHR ''a''] else if n = 8 then [backslash, CHR ''b'']
      else if n = 12 then [backslash, CHR ''f''] else if n = 10 then [backslash, CHR ''n'']
      else if n = 13 then [backslash, CHR ''r''] else if n = 9 then [backslash, CHR ''t'']
      else if n = 11 then [backslash, CHR ''v'']
      else [backslash, CHR ''x'', hex_char (n div 16), hex_char (n mod 16)])"

definition quoteGo :: "(string \<Rightarrow> string) \<Rightarrow> string \<Rightarrow> string" where
  "quoteGo P s = (if is_ascii s then dquote # concat (map quoteByte s) @ [dquote] else P s)"

definition clashEntry :: "(string \<Rightarrow> string) \<Rightarrow> string \<Rightarrow> Mapping \<Rightarrow> string" where
  "clashEntry P host m =
     ''  - name: '' @ quoteGo P (n_Name (m_Node m)) @ nl
     @ ''    type: socks5'' @ nl
     @ ''    server: '' @ mappingHost m host @ nl
     @ ''    port: '' @ Itoa (m_Port m) @ nl
     @ (if m_User m \<noteq> [] then ''    username: '' @ quoteGo P (m_User m) @ nl
                               @ ''    password: '' @ quoteGo P (m_Pass m) @ nl else [])
     @ (if m_UDP m then ''    udp: true'' @ nl else [])"

definition ClashConfig :: "(string \<Rightarrow> string) \<Rightarrow> Mapping list \<Rightarrow> string \<Rightarrow> string" where
  "ClashConfig P maps host = ''proxies:'' @ nl @ concat (map (clashEntry P host) maps)"

section \<open>Policy group lines\<close>

fun csvScan :: "string \<Rightarrow> string \<Rightarrow> bool \<Rightarrow> bool \<Rightarrow> string list" where
  \<comment> \<open>what is left, the field so far, and the flags \<open>quoted\<close> and \<open>escaped\<close>\<close>
  "csvScan [] cur quoted escaped = [TrimSpace cur]"
| "csvScan (c # s) cur quoted escaped =
     (if escaped then csvScan s (cur @ [c]) quoted False
      else if c = backslash then csvScan s (cur @ [c]) quoted True
      else if c = dquote then csvScan s (cur @ [c]) (\<not> quoted) False
      else if c = CHR '','' \<and> \<not> quoted then TrimSpace cur # csvScan s [] quoted False
      else csvScan s (cur @ [c]) quoted False)"

definition splitQuotedCSV :: "string \<Rightarrow> string list" where
  "splitQuotedCSV s = csvScan s [] False False"

definition splitGroupLine :: "string \<Rightarrow> (string \<times> string) option" where
  "splitGroupLine line =
     (case Cut line ''='' of
        (name, rest, True) \<Rightarrow> Some (TrimSpace name, TrimSpace rest)
      | _ \<Rightarrow> None)"

definition proxyGroupName :: "string \<Rightarrow> string" where
  "proxyGroupName line = (case splitGroupLine line of None \<Rightarrow> [] | Some (name, _) \<Rightarrow> name)"

fun keepParts :: "string list \<Rightarrow> string list" where
  \<comment> \<open>the members after the group type, \<open>oixCloud\<close> replaced\<close>
  "keepParts [] = []"
| "keepParts (p # ps) =
     (if p = ''oixCloud'' then ''Auto - Smart'' # ''Auto - UrlTest'' # keepParts ps else p # keepParts ps)"

definition hasBlock :: "string list \<Rightarrow> bool" where
  "hasBlock ps \<longleftrightarrow> list_ex (\<lambda>p. p \<noteq> ''oixCloud'' \<and> fold_is p ''block'') ps"

definition isAuto :: "string \<Rightarrow> bool" where
  "isAuto name \<longleftrightarrow> fold_is name ''auto - urltest'' \<or> fold_is name ''auto - smart''"

definition expandGroup :: "(string \<Rightarrow> string) \<Rightarrow> string \<Rightarrow> string list \<Rightarrow> string" where
  "expandGroup L line names =
     (case splitGroupLine line of
        None \<Rightarrow> line
      | Some (name, rest) \<Rightarrow>
          if isAuto name then line
          else
            (case splitQuotedCSV rest of
               [] \<Rightarrow> line
             | k # ps \<Rightarrow>
                 let kept = k # keepParts ps;
                     kept' = (if ToLower L k = ''select'' \<and> \<not> hasBlock ps
                              then kept @ filter (\<lambda>n. n \<notin> set kept) names else kept)
                 in name @ '' = '' @ joinWith '', '' kept'))"

definition rewriteAutoGroup :: "string \<Rightarrow> string list \<Rightarrow> string" where
  "rewriteAutoGroup line names =
     (case splitGroupLine line of
        None \<Rightarrow> line
      | Some (name, rest) \<Rightarrow>
          (case splitQuotedCSV rest of
             [] \<Rightarrow> line
           | k # ps \<Rightarrow>
               name @ '' = '' @ joinWith '', '' (k # names @ filter (\<lambda>p. snd (snd (Cut p ''=''))) ps)))"

definition missingAutoGroups :: "string list \<Rightarrow> bool \<Rightarrow> bool \<Rightarrow> string list" where
  "missingAutoGroups names wroteURLTest wroteSmart =
     (if \<not> wroteURLTest then [''Auto - UrlTest = url-test, '' @ joinWith '', '' names] else [])
     @ (if \<not> wroteSmart then [''Auto - Smart = smart, '' @ joinWith '', '' names] else [])"

definition headerLine :: "string \<Rightarrow> bool" where
  \<comment> \<open>of a trimmed line\<close>
  "headerLine t \<longleftrightarrow> HasPrefix t ''['' \<and> HasSuffix t '']''"

definition groupEntry :: "bool \<Rightarrow> string \<Rightarrow> string" where
  \<comment> \<open>the name of the policy group on a line, empty where the loop skips the line\<close>
  "groupEntry inGroup line =
     (let t = TrimSpace line in
      if \<not> inGroup \<or> t = [] \<or> HasPrefix t ''#'' \<or> HasPrefix t '';'' then [] else proxyGroupName line)"

definition groupHeader :: "string \<Rightarrow> bool" where
  "groupHeader line \<longleftrightarrow> fold_is (TrimSpace line) ''[proxy group]''"

fun groupNames :: "(string \<Rightarrow> string) \<Rightarrow> bool \<Rightarrow> string set \<Rightarrow> string list \<Rightarrow> string list" where
  "groupNames L inGroup seen [] = []"
| "groupNames L inGroup seen (line # ls) =
     (if headerLine (TrimSpace line) then groupNames L (groupHeader line) seen ls
      else if groupEntry inGroup line = [] \<or> ToLower L (groupEntry inGroup line) \<in> seen
      then groupNames L inGroup seen ls
      else groupEntry inGroup line
           # groupNames L inGroup (insert (ToLower L (groupEntry inGroup line)) seen) ls)"

definition SurgeGroupNames :: "(string \<Rightarrow> string) \<Rightarrow> string \<Rightarrow> string list" where
  "SurgeGroupNames L template = groupNames L False {} (splitOn CHR 0x0A template)"

section \<open>Surge profiles\<close>

definition managedLine :: "string \<Rightarrow> string" where
  "managedLine url = ''#!MANAGED-CONFIG '' @ url @ '' interval=86400 strict=false''"

definition looksLikeSurge :: "string \<Rightarrow> bool" where
  "looksLikeSurge s \<longleftrightarrow> Contains s ''[Proxy]'' \<or> Contains s ''#!MANAGED-CONFIG''"

abbreviation mapNames :: "Mapping list \<Rightarrow> string list" where
  "mapNames maps \<equiv> map (\<lambda>m. n_Name (m_Node m)) maps"

definition minimalSurge :: "Mapping list \<Rightarrow> string \<Rightarrow> string \<Rightarrow> string" where
  "minimalSurge maps listenURL host =
     managedLine listenURL @ nl @ nl
     @ ''[General]'' @ nl
     @ ''loglevel = notify'' @ nl
     @ ''dns-server = system,119.29.29.29,223.5.5.5,223.6.6.6'' @ nl
     @ ''skip-proxy = localhost,*.local,127.0.0.1,10.0.0.0/8,172.16.0.0/12,192.168.0.0/16'' @ nl @ nl
     @ ''[Proxy]'' @ nl
     @ ''Direct = direct'' @ nl
     @ ''Block = reject'' @ nl @ nl
     @ concat (map (\<lambda>m. socksLine m host @ nl) maps)
     @ nl @ ''[Proxy Group]'' @ nl
     @ ''Proxy = select'' @ concat (map (\<lambda>n. '', '' @ n) (mapNames maps)) @ '', Direct'' @ nl
     @ nl @ ''[Rule]'' @ nl
     @ ''FINAL,Proxy'' @ nl"

record rewrite =
  rw_out :: "string list"
  rw_section :: string
  rw_wroteProxy :: bool
  rw_wroteURLTest :: bool
  rw_wroteSmart :: bool

definition emit :: "string list \<Rightarrow> rewrite \<Rightarrow> rewrite" where
  "emit ls s = s\<lparr>rw_out := rw_out s @ ls\<rparr>"

definition keptProxyLine :: "(string \<Rightarrow> string) \<Rightarrow> string \<Rightarrow> bool" where
  \<comment> \<open>the lines of a [Proxy] section that survive, given trimmed\<close>
  "keptProxyLine L t \<longleftrightarrow>
     t = [] \<or> HasPrefix t ''#''
     \<or> (let low = ToLower L t in
        HasPrefix low ''direct '' \<or> HasPrefix low ''direct='' \<or> HasPrefix low ''block '' \<or> HasPrefix low ''block='')"

definition proxyStep :: "(string \<Rightarrow> string) \<Rightarrow> Mapping list \<Rightarrow> string \<Rightarrow> string \<Rightarrow> rewrite \<Rightarrow> rewrite" where
  "proxyStep L maps host line s =
     (if keptProxyLine L (TrimSpace line) then emit [line] s
      else if \<not> rw_wroteProxy s then
        (let s1 = (if rw_out s \<noteq> [] \<and> TrimSpace (last (rw_out s)) \<noteq> [] then emit [[]] s else s) in
         (emit (map (\<lambda>m. socksLine m host) maps) s1)\<lparr>rw_wroteProxy := True\<rparr>)
      else s)"

definition groupStep :: "(string \<Rightarrow> string) \<Rightarrow> string list \<Rightarrow> string \<Rightarrow> rewrite \<Rightarrow> rewrite" where
  "groupStep L names line s =
     (let t = TrimSpace line; name = proxyGroupName line in
      if t = [] \<or> HasPrefix t ''#'' then emit [line] s
      else if fold_is name ''auto - urltest'' then
        (if \<not> rw_wroteURLTest s then (emit [rewriteAutoGroup line names] s)\<lparr>rw_wroteURLTest := True\<rparr> else s)
      else if fold_is name ''auto - smart'' then
        (if \<not> rw_wroteSmart s then (emit [rewriteAutoGroup line names] s)\<lparr>rw_wroteSmart := True\<rparr> else s)
      else emit [expandGroup L line names] s)"

definition headerStep :: "string list \<Rightarrow> string \<Rightarrow> rewrite \<Rightarrow> rewrite" where
  "headerStep names line s =
     (let s1 = (if rw_section s = ''[Proxy Group]'' \<and> names \<noteq> []
                then (emit (missingAutoGroups names (rw_wroteURLTest s) (rw_wroteSmart s)) s)
                       \<lparr>rw_wroteURLTest := True, rw_wroteSmart := True\<rparr>
                else s)
      in emit [line] (s1\<lparr>rw_section := TrimSpace line\<rparr>))"

definition rewriteStep ::
  "(string \<Rightarrow> string) \<Rightarrow> Mapping list \<Rightarrow> string \<Rightarrow> string \<Rightarrow> string \<Rightarrow> rewrite \<Rightarrow> rewrite" where
  "rewriteStep L maps listenURL host line s =
     (let t = TrimSpace line; names = mapNames maps in
      if HasPrefix t ''#!MANAGED-CONFIG'' then emit [managedLine listenURL] s
      else if headerLine t then headerStep names line s
      else if fold_is (rw_section s) ''[proxy]'' then proxyStep L maps host line s
      else if fold_is (rw_section s) ''[proxy group]'' then groupStep L names line s
      else emit [line] s)"

definition rewriteEnd :: "Mapping list \<Rightarrow> string \<Rightarrow> rewrite \<Rightarrow> string list" where
  "rewriteEnd maps host s =
     rw_out s
     @ (if fold_is (rw_section s) ''[proxy group]'' \<and> mapNames maps \<noteq> []
        then missingAutoGroups (mapNames maps) (rw_wroteURLTest s) (rw_wroteSmart s) else [])
     @ (if \<not> rw_wroteProxy s \<and> maps \<noteq> []
        then [[], ''[Proxy]'', ''Direct = direct'', ''Block = reject''] @ map (\<lambda>m. socksLine m host) maps
        else [])"

definition rewriteLines :: "(string \<Rightarrow> string) \<Rightarrow> string list \<Rightarrow> Mapping list \<Rightarrow> string \<Rightarrow> string \<Rightarrow> string list" where
  "rewriteLines L lines maps listenURL host =
     rewriteEnd maps host
       (foldl (\<lambda>s line. rewriteStep L maps listenURL host line s)
          \<lparr>rw_out = [], rw_section = [], rw_wroteProxy = False, rw_wroteURLTest = False,
           rw_wroteSmart = False\<rparr> lines)"

definition RewriteSurge :: "(string \<Rightarrow> string) \<Rightarrow> string \<Rightarrow> Mapping list \<Rightarrow> string \<Rightarrow> string \<Rightarrow> string" where
  "RewriteSurge L template maps listenURL host =
     (let body = joinWith nl (rewriteLines L (splitOn CHR 0x0A template) maps listenURL host) in
      if \<not> HasPrefix (TrimSpace body) ''#!MANAGED-CONFIG''
      then managedLine listenURL @ nl @ nl @ body
      else body)"

definition SurgeConfig :: "(string \<Rightarrow> string) \<Rightarrow> Mapping list \<Rightarrow> string \<Rightarrow> string \<Rightarrow> string \<Rightarrow> string" where
  "SurgeConfig L maps listenURL host template =
     (if looksLikeSurge template then RewriteSurge L template maps listenURL host
      else minimalSurge maps listenURL host)"

section \<open>The OpenSurge overlay\<close>

definition officialProcessName :: string where
  "officialProcessName = ''oixcloud-external-proxy-program''"

definition officialProcessPath :: string where
  "officialProcessPath = ''/usr/local/bin/oixcloud-external-proxy-program''"

definition addRule :: "string \<Rightarrow> string \<Rightarrow> string \<times> string set \<Rightarrow> string \<times> string set" where
  \<comment> \<open>\<open>addName\<close> and \<open>addPath\<close>: the text so far and the names seen\<close>
  "addRule kind name0 st =
     (let (b, seen) = st; name = TrimSpace name0 in
      if name = [] \<or> name \<in> seen then (b, seen)
      else (b @ ''  - '' @ [dquote] @ kind @ '','' @ name @ '',DIRECT'' @ [dquote] @ nl, insert name seen))"

definition processRules :: "string \<Rightarrow> string \<Rightarrow> string" where
  "processRules processName processPath =
     (let (b1, names) = addRule ''PROCESS-NAME'' processName ([], {});
          (b2, paths) = addRule ''PROCESS-PATH'' processPath (b1, {});
          (b3, _) = addRule ''PROCESS-NAME'' officialProcessName (b2, names);
          (b4, _) = addRule ''PROCESS-PATH'' officialProcessPath (b3, paths)
      in b4)"

definition OpenSurgeConfig :: "(string \<Rightarrow> string) \<Rightarrow> string \<Rightarrow> string \<Rightarrow> string \<Rightarrow> string" where
  "OpenSurgeConfig P clashURL0 processName0 processPath0 =
     (let clashURL = (if clashURL0 = [] then ''http://127.0.0.1:6172/clash'' else clashURL0);
          processName = (if processName0 = [] then officialProcessName else processName0);
          processPath = (if processPath0 = [] then officialProcessPath else processPath0) in
      ''proxy-providers:'' @ nl
      @ ''  oixcloud-nodes:'' @ nl
      @ ''    type: http'' @ nl
      @ ''    url: '' @ quoteGo P clashURL @ nl
      @ ''    path: ./oixcloud-provider.yaml'' @ nl
      @ ''    interval: 600'' @ nl
      @ ''    health-check:'' @ nl
      @ ''      enable: true'' @ nl
      @ ''      url: https://www.gstatic.com/generate_204'' @ nl
      @ ''      interval: 300'' @ nl
      @ ''      lazy: true'' @ nl
      @ nl
      @ ''proxy-groups:'' @ nl
      @ ''  - name: '' @ [dquote] @ ''oixCloud'' @ [dquote] @ nl
      @ ''    type: select'' @ nl
      @ ''    use:'' @ nl
      @ ''      - oixcloud-nodes'' @ nl
      @ ''    proxies:'' @ nl
      @ ''      - DIRECT'' @ nl
      @ nl
      @ ''rules:'' @ nl
      @ processRules processName processPath
      @ ''  - '' @ [dquote] @ ''MATCH,oixCloud'' @ [dquote] @ nl)"

section \<open>URLs\<close>

definition urlPlain :: "char set \<Rightarrow> char \<Rightarrow> bool" where
  \<comment> \<open>not escaped by \<open>net/url\<close>, where \<open>extra\<close> are the reserved characters the component allows\<close>
  "urlPlain extra c \<longleftrightarrow>
     (let n = (of_char c :: nat) in
      (97 \<le> n \<and> n \<le> 122) \<or> (65 \<le> n \<and> n \<le> 90) \<or> (48 \<le> n \<and> n \<le> 57)
      \<or> c = CHR ''-'' \<or> c = CHR ''_'' \<or> c = CHR ''.'' \<or> c = CHR ''~'' \<or> c \<in> extra)"

definition upper_hex :: "nat \<Rightarrow> char" where
  "upper_hex d = (if d < 10 then char_of (48 + d) else char_of (55 + d))"

definition urlEscape :: "char set \<Rightarrow> string \<Rightarrow> string" where
  "urlEscape extra s =
     concat (map (\<lambda>c. if urlPlain extra c then [c]
                      else [CHR ''%'', upper_hex (of_char c div 16), upper_hex (of_char c mod 16)]) s)"

definition userExtra :: "char set" where "userExtra = set ''$&+,;=''"

definition hostExtra :: "char set" where
  "hostExtra = set ''!$&()*+,;=:[]<>'' \<union> {CHR 0x27, dquote}"

definition httpURL :: "string \<Rightarrow> string \<Rightarrow> string \<Rightarrow> string \<Rightarrow> string" where
  \<comment> \<open>\<open>url.URL{Scheme: "http", User, Host, Path}.String()\<close> for the fixed paths of the server\<close>
  "httpURL user pass hostport path =
     ''http://''
     @ (if user \<noteq> [] then urlEscape userExtra user @ '':'' @ urlEscape userExtra pass @ ''@'' else [])
     @ urlEscape hostExtra hostport @ path"

definition managedURL :: "string \<Rightarrow> string \<Rightarrow> string \<Rightarrow> string \<Rightarrow> string \<Rightarrow> string" where
  "managedURL host port path user pass = httpURL user pass (JoinHostPort host port) path"

definition portOf :: "string \<Rightarrow> string" where
  "portOf addr = (case SplitHostPort addr of None \<Rightarrow> ''6172'' | Some (_, p) \<Rightarrow> p)"

definition clashInspectURL :: "string \<Rightarrow> string \<Rightarrow> string \<Rightarrow> string" where
  "clashInspectURL listen user pass =
     (let (host, port) = (case SplitHostPort listen of None \<Rightarrow> (''127.0.0.1'', portOf listen) | Some hp \<Rightarrow> hp);
          host' = (if host = [] \<or> host = ''0.0.0.0'' \<or> host = ''::'' then ''127.0.0.1'' else host)
      in httpURL user pass (JoinHostPort host' port) ''/clash'')"

declare fold_is.simps [simp del]

lemma char_of_eq: "char_of (n :: nat) = (c :: char) \<longleftrightarrow> n mod 256 = of_char c"
proof
  assume "char_of n = c"
  then have "(of_char (char_of n :: char) :: nat) = of_char c" by simp
  then show "n mod 256 = of_char c" by simp
next
  assume "n mod 256 = of_char c"
  then have "(of_char (char_of n :: char) :: nat) = of_char c" by simp
  then show "char_of n = c" by (simp only: of_char_eq_iff)
qed

lemma eq_char_of_iff: "(c :: char) = char_of (n :: nat) \<longleftrightarrow> n mod 256 = of_char c"
  using char_of_eq [of n c] by (auto simp: eq_commute)

lemma fold_is_map:
  "CHR ''k'' \<notin> set w \<Longrightarrow> CHR ''s'' \<notin> set w \<Longrightarrow> fold_is s w \<longleftrightarrow> map lower_char s = w"
  by (induction s w rule: fold_is.induct) (auto simp: fold_is.simps split: list.splits)

section \<open>Where the lines of a rewritten profile come from\<close>

fun tagged :: "string \<Rightarrow> string list \<Rightarrow> (string \<times> string) list" where
  \<comment> \<open>each line with its section; a header belongs to the section it opens\<close>
  "tagged sec [] = []"
| "tagged sec (l # ls) =
     (let sec' = (if headerLine (TrimSpace l) then TrimSpace l else sec) in (sec', l) # tagged sec' ls)"

fun secAfter :: "string \<Rightarrow> string list \<Rightarrow> string" where
  "secAfter sec [] = sec"
| "secAfter sec (l # ls) = secAfter (if headerLine (TrimSpace l) then TrimSpace l else sec) ls"

lemma tagged_append: "tagged sec (a @ b) = tagged sec a @ tagged (secAfter sec a) b"
  by (induction sec a rule: secAfter.induct) (simp_all add: Let_def)

lemma secAfter_append: "secAfter sec (a @ b) = secAfter (secAfter sec a) b"
  by (induction sec a rule: secAfter.induct) simp_all

definition copied :: "(string \<Rightarrow> string) \<Rightarrow> (string \<times> string) \<Rightarrow> bool" where
  \<comment> \<open>a template line that may be copied: a [Proxy] line only if it is a header, blank, a comment,
     or the Direct or Block policy\<close>
  "copied L sl \<longleftrightarrow>
     fold_is (fst sl) ''[proxy]'' \<longrightarrow> headerLine (TrimSpace (snd sl)) \<or> keptProxyLine L (TrimSpace (snd sl))"

definition fixedLines :: "Mapping list \<Rightarrow> string \<Rightarrow> string set" where
  "fixedLines maps listenURL =
     {managedLine listenURL, [], ''[Proxy]'', ''Direct = direct'', ''Block = reject''}
     \<union> set (missingAutoGroups (mapNames maps) False False)"

definition groupLines :: "(string \<Rightarrow> string) \<Rightarrow> Mapping list \<Rightarrow> (string \<times> string) list \<Rightarrow> string set" where
  "groupLines L maps ts =
     {l. \<exists>(sec, t) \<in> set ts. fold_is sec ''[proxy group]''
           \<and> (l = expandGroup L t (mapNames maps) \<or> l = rewriteAutoGroup t (mapNames maps))}"

definition local_line ::
  "(string \<Rightarrow> string) \<Rightarrow> Mapping list \<Rightarrow> string \<Rightarrow> string \<Rightarrow> (string \<times> string) list \<Rightarrow> string \<Rightarrow> bool" where
  "local_line L maps listenURL host ts l \<longleftrightarrow>
     (\<exists>m \<in> set maps. l = socksLine m host)
     \<or> l \<in> fixedLines maps listenURL
     \<or> l \<in> groupLines L maps ts
     \<or> (\<exists>sl \<in> set ts. l = snd sl \<and> copied L sl)"

lemma local_line_mono: "set ts \<subseteq> set ts' \<Longrightarrow> local_line L maps u h ts l \<Longrightarrow> local_line L maps u h ts' l"
  by (fastforce simp: local_line_def groupLines_def)

lemma managed_no_header: "HasPrefix t ''#!MANAGED-CONFIG'' \<Longrightarrow> \<not> headerLine t"
  by (auto simp: HasPrefix_iff headerLine_def)

definition rewrite_inv ::
  "(string \<Rightarrow> string) \<Rightarrow> Mapping list \<Rightarrow> string \<Rightarrow> string \<Rightarrow> string list \<Rightarrow> rewrite \<Rightarrow> bool" where
  "rewrite_inv L maps listenURL host ls s \<longleftrightarrow>
     rw_section s = secAfter [] ls
     \<and> (\<forall>l \<in> set (rw_out s). local_line L maps listenURL host (tagged [] ls) l)
     \<and> (rw_wroteProxy s \<longrightarrow> (\<forall>m \<in> set maps. socksLine m host \<in> set (rw_out s)))
     \<and> (ls \<noteq> [] \<longrightarrow> rw_out s \<noteq> [])"

lemma rewrite_invI:
  assumes inv: "rewrite_inv L maps u h ls s" and sec: "rw_section s' = secAfter [] (ls @ [line])"
    and out: "rw_out s' = rw_out s @ new"
    and new: "\<forall>l \<in> set new. local_line L maps u h (tagged [] (ls @ [line])) l"
    and wrote: "rw_wroteProxy s' \<Longrightarrow> rw_wroteProxy s \<or> (\<forall>m \<in> set maps. socksLine m h \<in> set new)"
    and ne: "new \<noteq> [] \<or> ls \<noteq> []"
  shows "rewrite_inv L maps u h (ls @ [line]) s'"
proof -
  have "set (tagged [] ls) \<subseteq> set (tagged [] (ls @ [line]))" by (auto simp: tagged_append)
  from local_line_mono [OF this] have "local_line L maps u h (tagged [] (ls @ [line])) l"
    if "l \<in> set (rw_out s)" for l
    using that inv by (auto simp: rewrite_inv_def)
  with inv sec out new wrote ne show ?thesis by (auto simp: rewrite_inv_def)
qed

lemma emit_simps [simp]:
  "rw_out (emit ls s) = rw_out s @ ls" "rw_section (emit ls s) = rw_section s"
  "rw_wroteProxy (emit ls s) = rw_wroteProxy s" "rw_wroteURLTest (emit ls s) = rw_wroteURLTest s"
  "rw_wroteSmart (emit ls s) = rw_wroteSmart s"
  by (simp_all add: emit_def)

lemma local_copied:
  "sec = secAfter [] ls \<Longrightarrow> (\<not> headerLine (TrimSpace line) \<Longrightarrow> fold_is sec ''[proxy]'' \<Longrightarrow> keptProxyLine L (TrimSpace line))
   \<Longrightarrow> local_line L maps u h (tagged [] (ls @ [line])) line"
  by (auto simp: local_line_def tagged_append copied_def Let_def)

lemma local_group:
  "\<not> headerLine (TrimSpace line) \<Longrightarrow> fold_is (secAfter [] ls) ''[proxy group]'' \<Longrightarrow>
   l = expandGroup L line (mapNames maps) \<or> l = rewriteAutoGroup line (mapNames maps)
   \<Longrightarrow> local_line L maps u h (tagged [] (ls @ [line])) l"
  by (auto simp: local_line_def groupLines_def tagged_append Let_def)

lemma local_fixed: "l \<in> fixedLines maps u \<Longrightarrow> local_line L maps u h ts l"
  by (simp add: local_line_def)

lemma local_socks: "m \<in> set maps \<Longrightarrow> local_line L maps u h ts (socksLine m h)"
  by (auto simp: local_line_def)

lemma missing_fixed: "l \<in> set (missingAutoGroups (mapNames maps) a b) \<Longrightarrow> l \<in> fixedLines maps u"
  by (auto simp: fixedLines_def missingAutoGroups_def split: if_splits)

lemma blank_fixed: "[] \<in> fixedLines maps u" "managedLine u \<in> fixedLines maps u"
  by (simp_all add: fixedLines_def)

lemma proxyStep_inv:
  assumes inv: "rewrite_inv L maps u h ls s" and t: "\<not> headerLine (TrimSpace line)" and ne: "ls \<noteq> []"
  shows "rewrite_inv L maps u h (ls @ [line]) (proxyStep L maps h line s)"
proof -
  have sec: "rw_section s = secAfter [] (ls @ [line])" using inv t by (simp add: rewrite_inv_def secAfter_append)
  consider (keep) "keptProxyLine L (TrimSpace line)" | (drop) "\<not> keptProxyLine L (TrimSpace line)" "rw_wroteProxy s"
    | (first) "\<not> keptProxyLine L (TrimSpace line)" "\<not> rw_wroteProxy s" by blast
  then show ?thesis
  proof cases
    case keep
    then show ?thesis
      by (intro rewrite_invI [OF inv, of _ _ "[line]"])
        (use sec local_copied in \<open>auto simp: proxyStep_def\<close>)
  next
    case drop
    then show ?thesis
      by (intro rewrite_invI [OF inv, of _ _ "[]"]) (use sec ne in \<open>auto simp: proxyStep_def\<close>)
  next
    case first
    show ?thesis
    proof (cases "rw_out s \<noteq> [] \<and> TrimSpace (last (rw_out s)) \<noteq> []")
      case True
      then show ?thesis
        by (intro rewrite_invI [OF inv, of _ _ "[] # map (\<lambda>m. socksLine m h) maps"])
          (use sec first local_socks local_fixed blank_fixed in \<open>auto simp: proxyStep_def\<close>)
    next
      case False
      then show ?thesis
        by (intro rewrite_invI [OF inv, of _ _ "map (\<lambda>m. socksLine m h) maps"])
          (use sec first ne local_socks in \<open>auto simp: proxyStep_def\<close>)
    qed
  qed
qed

lemma groupStep_inv:
  assumes inv: "rewrite_inv L maps u h ls s" and t: "\<not> headerLine (TrimSpace line)" and ne: "ls \<noteq> []"
    and g: "fold_is (rw_section s) ''[proxy group]''" and p: "\<not> fold_is (rw_section s) ''[proxy]''"
  shows "rewrite_inv L maps u h (ls @ [line]) (groupStep L (mapNames maps) line s)"
proof -
  have sec: "rw_section s = secAfter [] (ls @ [line])" and sec': "rw_section s = secAfter [] ls"
    using inv t by (simp_all add: rewrite_inv_def secAfter_append)
  have gl: "local_line L maps u h (tagged [] (ls @ [line])) l"
    if "l = expandGroup L line (mapNames maps) \<or> l = rewriteAutoGroup line (mapNames maps)" for l
    using local_group [OF t _ that] g sec' by simp
  have cl: "local_line L maps u h (tagged [] (ls @ [line])) line"
    using p by (intro local_copied [OF sec']) auto
  let ?s' = "groupStep L (mapNames maps) line s"
  have "rw_section ?s' = rw_section s" "rw_wroteProxy ?s' = rw_wroteProxy s"
    by (simp_all add: groupStep_def Let_def)
  moreover obtain new where "rw_out ?s' = rw_out s @ new"
    "\<forall>l \<in> set new. local_line L maps u h (tagged [] (ls @ [line])) l"
  proof (cases "rw_out ?s' = rw_out s")
    case False
    then have "\<exists>l. rw_out ?s' = rw_out s @ [l] \<and>
        (l = line \<or> l = expandGroup L line (mapNames maps) \<or> l = rewriteAutoGroup line (mapNames maps))"
      by (simp add: groupStep_def Let_def split: if_splits)
    with that gl cl show ?thesis by fastforce
  qed (use that [of "[]"] in simp)
  ultimately show ?thesis
    by (intro rewrite_invI [OF inv, of _ _ new]) (use sec ne in auto)
qed

lemma headerStep_inv:
  assumes inv: "rewrite_inv L maps u h ls s" and t: "headerLine (TrimSpace line)"
  shows "rewrite_inv L maps u h (ls @ [line]) (headerStep (mapNames maps) line s)"
proof -
  let ?s' = "headerStep (mapNames maps) line s"
  let ?g = "if rw_section s = ''[Proxy Group]'' \<and> mapNames maps \<noteq> []
            then missingAutoGroups (mapNames maps) (rw_wroteURLTest s) (rw_wroteSmart s) else []"
  have "rw_section ?s' = secAfter [] (ls @ [line])" "rw_wroteProxy ?s' = rw_wroteProxy s"
    "rw_out ?s' = rw_out s @ (?g @ [line])"
    using t by (simp_all add: headerStep_def Let_def secAfter_append)
  moreover have "local_line L maps u h (tagged [] (ls @ [line])) line"
    by (rule local_copied [OF refl]) (use t in simp)
  moreover have "\<forall>l \<in> set ?g. local_line L maps u h (tagged [] (ls @ [line])) l"
    by (auto intro: local_fixed missing_fixed)
  ultimately show ?thesis
    by (intro rewrite_invI [OF inv, of _ _ "?g @ [line]"]) simp_all
qed

lemma rewriteStep_inv:
  assumes inv: "rewrite_inv L maps u h ls s"
  shows "rewrite_inv L maps u h (ls @ [line]) (rewriteStep L maps u h line s)"
proof -
  have sec: "rw_section s = secAfter [] ls" using inv by (simp add: rewrite_inv_def)
  have first: "ls = [] \<Longrightarrow> \<not> fold_is (rw_section s) ''[proxy]'' \<and> \<not> fold_is (rw_section s) ''[proxy group]''"
    using sec by (simp add: fold_is_map)
  consider (managed) "HasPrefix (TrimSpace line) ''#!MANAGED-CONFIG''"
    | (header) "headerLine (TrimSpace line)"
    | (body) "\<not> HasPrefix (TrimSpace line) ''#!MANAGED-CONFIG''" "\<not> headerLine (TrimSpace line)" by blast
  then show ?thesis
  proof cases
    case managed
    then show ?thesis
      by (intro rewrite_invI [OF inv, of _ _ "[managedLine u]"])
        (use sec managed_no_header local_fixed blank_fixed in \<open>auto simp: rewriteStep_def secAfter_append\<close>)
  next
    case header
    then have "\<not> HasPrefix (TrimSpace line) ''#!MANAGED-CONFIG''" using managed_no_header by blast
    with header headerStep_inv [OF inv header] show ?thesis by (simp add: rewriteStep_def)
  next
    case body
    have "rewrite_inv L maps u h (ls @ [line]) (emit [line] s)" if "\<not> fold_is (rw_section s) ''[proxy]''"
    proof -
      have "local_line L maps u h (tagged [] (ls @ [line])) line"
        by (rule local_copied [OF refl]) (use that sec in simp)
      then show ?thesis
        by (intro rewrite_invI [OF inv, of _ _ "[line]"]) (use sec body in \<open>auto simp: secAfter_append\<close>)
    qed
    with body first proxyStep_inv [OF inv] groupStep_inv [OF inv] show ?thesis
      by (auto simp: rewriteStep_def Let_def)
  qed
qed

lemma rewrite_inv_fold:
  "rewrite_inv L maps u h lines
     (foldl (\<lambda>s line. rewriteStep L maps u h line s)
        \<lparr>rw_out = [], rw_section = [], rw_wroteProxy = False, rw_wroteURLTest = False, rw_wroteSmart = False\<rparr>
        lines)"
  by (induction lines rule: rev_induct) (simp_all add: rewrite_inv_def [of _ _ _ _ "[]"] rewriteStep_inv)

lemma rewriteLines_local:
  "\<forall>l \<in> set (rewriteLines L lines maps u h). local_line L maps u h (tagged [] lines) l"
  "\<forall>m \<in> set maps. socksLine m h \<in> set (rewriteLines L lines maps u h)"
  "lines \<noteq> [] \<Longrightarrow> rewriteLines L lines maps u h \<noteq> []"
  using rewrite_inv_fold [where L = L and maps = maps and u = u and h = h and lines = lines]
  by (auto simp: rewriteLines_def rewriteEnd_def rewrite_inv_def
      intro: local_fixed missing_fixed local_socks [unfolded comp_def] simp: fixedLines_def)

lemma joinWith_header: "out \<noteq> [] \<Longrightarrow> l @ nl @ nl @ joinWith nl out = joinWith nl (l # [] # out)"
  by (cases out) simp_all

lemma HasPrefix_trimmed:
  "visible (hd p) \<Longrightarrow> p \<noteq> [] \<Longrightarrow> HasPrefix s p \<Longrightarrow> spaceAt s = 0"
  by (rule spaceAt_visible) (auto simp: HasPrefix_iff)


definition exampleMapping :: Mapping where
  "exampleMapping =
     \<lparr>m_Node = \<lparr>n_Name = ''hk'', n_Server = ''h'', n_Port = 443, n_PSK = ''k'', n_SNI = [],
        n_ECHConfig = ''e'', n_ALPN = [], n_Path = [], n_Fingerprint = [], n_IdentityVersion = 2,
        n_SkipVerify = False, n_Reuse = True, n_TFO = False, n_UDP = False, n_LegacyFallback = True,
        n_Preconnect = 2, n_DNS = [], n_DialIP = []\<rparr>,
      m_Port = 7200, m_Host = [], m_UDP = False, m_User = [], m_Pass = [], m_ln = None\<rparr>"


text \<open>
  A [Proxy] section that holds nothing but Direct and Block is not recognised as one: a second
  [Proxy] section, with the policies again, is appended.
\<close>

theorem rewriteLines_second_section:
  "rewriteLines id [''[Proxy]'', ''Direct = direct''] [exampleMapping] ''u'' ''h''
   = [''[Proxy]'', ''Direct = direct'', [], ''[Proxy]'', ''Direct = direct'', ''Block = reject'',
      socksLine exampleMapping ''h'']"
proof -
  have t: "TrimSpace ''[Proxy]'' = ''[Proxy]''" "TrimSpace ''Direct = direct'' = ''Direct = direct''"
    by (simp_all add: visible_def)
  have h: "headerLine ''[Proxy]''" "\<not> headerLine ''Direct = direct''"
    "\<not> HasPrefix ''[Proxy]'' ''#!MANAGED-CONFIG''" "\<not> HasPrefix ''Direct = direct'' ''#!MANAGED-CONFIG''"
    by (simp_all add: headerLine_def HasPrefix_def HasSuffix_def)
  have f: "fold_is ''[Proxy]'' ''[proxy]''" "\<not> fold_is ''[Proxy]'' ''[proxy group]''"
    by (simp_all add: fold_is_map lower_char_def char_of_eq)
  have k: "keptProxyLine id ''Direct = direct''"
    by (simp add: keptProxyLine_def ToLower_def is_ascii_def lower_char_def HasPrefix_def Let_def char_of_eq)
  let ?s = "\<lambda>out sec. \<lparr>rw_out = out, rw_section = sec, rw_wroteProxy = False, rw_wroteURLTest = False,
    rw_wroteSmart = False\<rparr>"
  have "rewriteStep id [exampleMapping] ''u'' ''h'' ''[Proxy]'' (?s [] []) = ?s [''[Proxy]''] ''[Proxy]''"
    unfolding rewriteStep_def headerStep_def Let_def t using h by (simp add: emit_def)
  moreover have "rewriteStep id [exampleMapping] ''u'' ''h'' ''Direct = direct'' (?s [''[Proxy]''] ''[Proxy]'')
      = ?s [''[Proxy]'', ''Direct = direct''] ''[Proxy]''"
    unfolding rewriteStep_def proxyStep_def Let_def t using h f k by (simp add: emit_def)
  moreover have "rewriteEnd [exampleMapping] ''h'' (?s [''[Proxy]'', ''Direct = direct''] ''[Proxy]'')
      = [''[Proxy]'', ''Direct = direct'', [], ''[Proxy]'', ''Direct = direct'', ''Block = reject'',
         socksLine exampleMapping ''h'']"
    unfolding rewriteEnd_def using f by simp
  ultimately show ?thesis unfolding rewriteLines_def by simp
qed

section \<open>Quoted fields\<close>

lemma csvScan_escaped:
  "csvScan (surgeEscape s @ r) cur True False = csvScan r (cur @ surgeEscape s) True False"
  by (induction s arbitrary: cur) auto

lemma csvScan_plain:
  "CHR '','' \<notin> set f \<Longrightarrow> dquote \<notin> set f \<Longrightarrow> backslash \<notin> set f \<Longrightarrow>
   csvScan (f @ r) cur False False = csvScan r (cur @ f) False False"
  by (induction f arbitrary: cur) auto

lemma spaceAt_blank: "spaceAt (CHR '' '' # s) = 1"
  by (simp add: spaceAt_def spaceTokens_def HasPrefix_def upt_rec eq_char_of_iff)

lemma TrimSpace_blank: "TrimSpace (CHR '' '' # s) = TrimSpace s"
  by (simp add: TrimSpace_def trimLeft.simps [of "CHR '' '' # s"] spaceAt_blank)

definition fieldOK :: "string \<Rightarrow> bool" where
  \<comment> \<open>\<open>surgeQuote\<close> quotes the field, or it can stand as it is\<close>
  "fieldOK f \<longleftrightarrow> needsSurgeQuote f \<or> (backslash \<notin> set f \<and> TrimSpace f = f)"

lemma surgeQuote_field:
  assumes "fieldOK f"
  shows "csvScan (surgeQuote f @ r) cur False False = csvScan r (cur @ surgeQuote f) False False"
    and "TrimSpace (surgeQuote f) = surgeQuote f"
  using assms csvScan_escaped [of f "dquote # r" "cur @ [dquote]"] csvScan_plain [of f r cur]
  by (auto simp: fieldOK_def surgeQuote_def needsSurgeQuote_def list_ex_iff visible_def)

lemma csvScan_fields:
  assumes "\<forall>f \<in> set fs. fieldOK f" and "fs \<noteq> []" and "cur = [] \<or> cur = '' ''"
  shows "csvScan (joinWith '', '' (map surgeQuote fs)) cur False False = map surgeQuote fs"
  using assms
proof (induction fs arbitrary: cur rule: induct_list012)
  case (2 f)
  then show ?case using surgeQuote_field(1) [of f "[]" cur] surgeQuote_field(2) [of f] by (auto simp: TrimSpace_blank)
next
  case (3 f g fs)
  then show ?case
    using surgeQuote_field(1) [of f "'', '' @ joinWith '', '' (map surgeQuote (g # fs))" cur]
      surgeQuote_field(2) [of f]
    by (auto simp: TrimSpace_blank)
qed simp

fun unescape :: "string \<Rightarrow> string" where
  "unescape (c # d # s) = (if c = backslash then d # unescape s else c # unescape (d # s))"
| "unescape s = s"

definition surgeUnquote :: "string \<Rightarrow> string" where
  \<comment> \<open>how a quoted field is read\<close>
  "surgeUnquote s = (if s \<noteq> [] \<and> hd s = dquote then unescape (butlast (tl s)) else s)"

lemma unescape_surgeEscape: "unescape (surgeEscape s) = s"
proof (induction s)
  case (Cons c s)
  then show ?case by (cases "surgeEscape s") auto
qed simp

lemma surgeUnquote_surgeQuote: "surgeUnquote (surgeQuote s) = s"
  by (cases s) (auto simp: surgeUnquote_def surgeQuote_def needsSurgeQuote_def unescape_surgeEscape
      simp del: surgeEscape.simps)



text \<open>
  A backslash alone does not make \<open>surgeQuote\<close> quote, so a field that ends in one swallows the
  comma after it.
\<close>

theorem surgeQuote_backslash:
  "splitQuotedCSV (joinWith '', '' (map surgeQuote [[CHR ''a'', backslash], ''b'']))
   = [CHR ''a'' # backslash # '', b'']"
  by (simp add: splitQuotedCSV_def surgeQuote_def needsSurgeQuote_def visible_def)

end
