(* ===== verification/Serve.thy ===== *)
theory Serve
  imports Emit Socks Pool
begin

text \<open>
  The server object of \<open>internal/serve/serve.go\<close>: one mixed listener per node and per extra,
  the pools behind them, start-up with clean-up on failure, shutdown, and the HTTP endpoints with
  their authentication. The state keeps, besides the fields of \<open>Server\<close>, every listener and pool
  ever made and which of them are shut, so that leaks are visible.
\<close>

section \<open>State\<close>

datatype dial_via =
    CustomDial            \<comment> \<open>\<open>s.Dial\<close>\<close>
  | DirectDial            \<comment> \<open>\<open>dialer.Dial\<close>\<close>
  | PoolDial nat          \<comment> \<open>\<open>p.Dial\<close> of this pool\<close>

record Extra =
  x_Name :: string
  x_Node :: node
  x_Addr :: string

record tcp_addr =
  ta_IP :: ip
  ta_Port :: int
  ta_Zone :: string

record listener =
  l_addr :: string
  l_user :: string
  l_pass :: string
  l_node :: node
  l_dial :: dial_via
  l_udp :: bool

record server =
  sv_Listen :: string
  sv_Bind :: string
  sv_BasePort :: int
  sv_User :: string
  sv_Pass :: string
  sv_Auth :: "(string \<Rightarrow> string \<times> string) option"
  sv_NoHTTP :: bool
  sv_Nodes :: "node list"
  sv_Extras :: "Extra list"
  sv_Template :: string
  sv_Dial :: bool                          \<comment> \<open>a custom \<open>Dial\<close> is set\<close>
  sv_OpenSurgePath :: string
  sv_ProcessName :: string
  sv_ProcessPath :: string
  sv_maps :: "Mapping list"
  sv_pools :: "nat list"
  sv_poolByName :: "string \<rightharpoonup> nat"
  sv_httpLn :: bool
  sv_httpSrv :: bool
  sv_closed :: bool
  sv_listeners :: "listener list"          \<comment> \<open>every mixed listener opened, by number\<close>
  sv_shut :: "nat set"                     \<comment> \<open>the numbers of the closed ones\<close>
  sv_allPools :: "(string \<times> node \<times> int) list"  \<comment> \<open>every pool made: key, node, preconnects\<close>
  sv_poolsShut :: "nat set"
  sv_httpOpen :: bool                      \<comment> \<open>the HTTP socket is open\<close>

datatype serve_err = ListenErr string nat | NotTCP string | HttpListen nat

record serve_env =
  se_listen :: "nat \<Rightarrow> string \<Rightarrow> nat + tcp_addr option"
    \<comment> \<open>\<open>inbound.ListenMixed\<close> of the n-th listener; \<open>None\<close> when \<open>Addr()\<close> is not a \<open>*net.TCPAddr\<close>\<close>
  se_http :: "string \<Rightarrow> nat + string"   \<comment> \<open>\<open>net.Listen\<close> and the text of its address\<close>
  se_base :: string                     \<comment> \<open>\<open>filepath.Base(os.Args[0])\<close>\<close>
  se_exe :: "string option"             \<comment> \<open>\<open>os.Executable\<close>\<close>
  se_quote :: "string \<Rightarrow> string"        \<comment> \<open>\<open>strconv.Quote\<close> outside ASCII\<close>
  se_lower :: "string \<Rightarrow> string"        \<comment> \<open>the Unicode case table\<close>

section \<open>Dialers and pools\<close>

definition poolKey :: "node \<Rightarrow> string" where
  "poolKey n = n_Name n @ [CHR 0x00] @ n_Server n @ [CHR 0x00] @ Itoa (n_Port n)"

definition dialerFor :: "node \<Rightarrow> server \<Rightarrow> dial_via \<times> server" where
  "dialerFor n s =
     (if sv_Dial s then (CustomDial, s)
      else if \<not> n_Reuse n then (DirectDial, s)
      else case sv_poolByName s (poolKey n) of
             Some p \<Rightarrow> (PoolDial p, s)
           | None \<Rightarrow>
               let p = length (sv_allPools s) in
               (PoolDial p,
                s\<lparr>sv_poolByName := (sv_poolByName s)(poolKey n \<mapsto> p), sv_pools := sv_pools s @ [p],
                  sv_allPools := sv_allPools s @ [(poolKey n, n, n_Preconnect n)]\<rparr>))"

definition creds :: "server \<Rightarrow> string \<Rightarrow> string \<times> string" where
  "creds s addr = (case sv_Auth s of Some f \<Rightarrow> f addr | None \<Rightarrow> (sv_User s, sv_Pass s))"

definition udpDialer :: "server \<Rightarrow> node \<Rightarrow> bool" where
  "udpDialer s n \<longleftrightarrow> \<not> (sv_Dial s \<or> \<not> n_UDP n)"

definition tcpAddrHost :: "tcp_addr \<Rightarrow> string" where
  "tcpAddrHost a =
     (if IsUnspecified (ta_IP a) then []
      else IPString (ta_IP a) @ (if ta_Zone a \<noteq> [] then ''%'' @ ta_Zone a else []))"

section \<open>Closing\<close>

definition serverClose :: "server \<Rightarrow> server" where
  "serverClose s =
     (if sv_closed s then s
      else s\<lparr>sv_closed := True, sv_httpSrv := False, sv_httpLn := False,
             sv_httpOpen := (sv_httpOpen s \<and> \<not> sv_httpLn s),
             sv_shut := sv_shut s \<union> set (List.map_filter m_ln (sv_maps s)),
             sv_poolsShut := sv_poolsShut s \<union> set (sv_pools s),
             sv_pools := [], sv_poolByName := Map.empty, sv_maps := []\<rparr>)"

section \<open>Starting\<close>

definition openListener ::
  "serve_env \<Rightarrow> node \<Rightarrow> string \<Rightarrow> server \<Rightarrow> (serve_err + nat \<times> tcp_addr option \<times> string \<times> string \<times> bool) \<times> server" where
  \<comment> \<open>\<open>dialerFor\<close>, \<open>udpDialer\<close>, \<open>creds\<close> and \<open>ListenMixed\<close>, which both loops of \<open>Start\<close> call in this order\<close>
  "openListener E n addr s =
     (let (d, s1) = dialerFor n s; udp = udpDialer s1 n; (u, p) = creds s1 addr; k = length (sv_listeners s1) in
      case se_listen E k addr of
        Inl e \<Rightarrow> (Inl (ListenErr addr e), serverClose s1)
      | Inr bound \<Rightarrow>
          (Inr (k, bound, u, p, udp),
           s1\<lparr>sv_listeners := sv_listeners s1
                @ [\<lparr>l_addr = addr, l_user = u, l_pass = p, l_node = n, l_dial = d, l_udp = udp\<rparr>]\<rparr>))"

fun startNodes :: "serve_env \<Rightarrow> nat \<Rightarrow> node list \<Rightarrow> server \<Rightarrow> (serve_err + unit) \<times> server" where
  "startNodes E i [] s = (Inr (), s)"
| "startNodes E i (n # ns) s =
     (let port = sv_BasePort s + int i in
      ebind (openListener E n (JoinHostPort (sv_Bind s) (Itoa port))) (\<lambda>(k, _, u, p, udp) s.
        startNodes E (i + 1) ns
          (s\<lparr>sv_maps := sv_maps s @ [\<lparr>m_Node = n, m_Port = port, m_Host = [], m_UDP = udp, m_User = u,
                                       m_Pass = p, m_ln = Some k\<rparr>]\<rparr>)) s)"

fun startExtras :: "serve_env \<Rightarrow> Extra list \<Rightarrow> server \<Rightarrow> (serve_err + unit) \<times> server" where
  "startExtras E [] s = (Inr (), s)"
| "startExtras E (x # xs) s =
     ebind (openListener E (x_Node x) (x_Addr x)) (\<lambda>(k, bound, u, p, udp) s.
       case bound of
         None \<Rightarrow> (Inl (NotTCP (x_Addr x)), serverClose (s\<lparr>sv_shut := insert k (sv_shut s)\<rparr>))
       | Some a \<Rightarrow>
           let node = (if x_Name x \<noteq> [] then (x_Node x)\<lparr>n_Name := x_Name x\<rparr> else x_Node x) in
           startExtras E xs
             (s\<lparr>sv_maps := sv_maps s @ [\<lparr>m_Node = node, m_Port = ta_Port a, m_Host = tcpAddrHost a,
                                          m_UDP = udp, m_User = u, m_Pass = p, m_ln = Some k\<rparr>]\<rparr>)) s"

definition startHTTP :: "serve_env \<Rightarrow> server \<Rightarrow> (serve_err + unit) \<times> server" where
  "startHTTP E s =
     (if sv_NoHTTP s then (Inr (), s)
      else case se_http E (sv_Listen s) of
             Inl e \<Rightarrow> (Inl (HttpListen e), serverClose s)
           | Inr addr \<Rightarrow>
               (Inr (), s\<lparr>sv_httpLn := True, sv_httpOpen := True, sv_Listen := addr, sv_httpSrv := True\<rparr>))"

definition startInit :: "server \<Rightarrow> server" where
  "startInit s =
     s\<lparr>sv_closed := False,
       sv_Bind := (if sv_Bind s = [] then ''127.0.0.1'' else sv_Bind s),
       sv_BasePort := (if sv_BasePort s = 0 then 7200 else sv_BasePort s),
       sv_maps := []\<rparr>"

definition Start :: "serve_env \<Rightarrow> server \<Rightarrow> (serve_err + unit) \<times> server" where
  "Start E s =
     ebind (startNodes E 0 (sv_Nodes s)) (\<lambda>_.
     ebind (startExtras E (sv_Extras s)) (\<lambda>_. startHTTP E)) (startInit s)"

section \<open>The HTTP endpoints\<close>

record http_get =
  hg_path :: string
  hg_host :: string
  hg_auth :: string   \<comment> \<open>\<open>Header.Get("Authorization")\<close>\<close>

datatype http_reply =
    Ok string
  | Unauthorized string string   \<comment> \<open>the challenge and the body\<close>

definition BasicAuth :: "string \<Rightarrow> string \<times> string \<times> bool" where
  \<comment> \<open>\<open>Request.BasicAuth\<close> on the header value\<close>
  "BasicAuth h =
     (if length h < 6 \<or> map lower_char (take 6 h) \<noteq> ''basic '' then ([], [], False)
      else case parseBasicB64 (drop 6 h) of (u, p, True) \<Rightarrow> (u, p, True) | _ \<Rightarrow> ([], [], False))"

definition auth :: "server \<Rightarrow> http_get \<Rightarrow> http_reply \<Rightarrow> http_reply" where
  "auth s r doc =
     (if sv_User s \<noteq> [] \<and> BasicAuth (hg_auth r) \<noteq> (sv_User s, sv_Pass s, True)
      then Unauthorized (''Basic realm='' @ [dquote] @ ''oixCloud'' @ [dquote]) (''unauthorized'' @ nl)
      else doc)"

definition advertiseHost :: "http_get \<Rightarrow> string" where
  "advertiseHost r =
     (let host = (case SplitHostPort (hg_host r) of Some (h, _) \<Rightarrow> h | None \<Rightarrow> hg_host r) in
      if host = [] \<or> host = ''localhost'' then ''127.0.0.1'' else host)"

definition processName :: "serve_env \<Rightarrow> server \<Rightarrow> string" where
  "processName E s = (if sv_ProcessName s \<noteq> [] then sv_ProcessName s else se_base E)"

definition processPath :: "serve_env \<Rightarrow> server \<Rightarrow> string" where
  "processPath E s =
     (if sv_ProcessPath s \<noteq> [] then sv_ProcessPath s
      else case se_exe E of
             Some p \<Rightarrow> if p \<noteq> [] then p else officialProcessPath
           | None \<Rightarrow> officialProcessPath)"

definition openSurgeBody :: "serve_env \<Rightarrow> server \<Rightarrow> string" where
  "openSurgeBody E s =
     OpenSurgeConfig (se_quote E) (clashInspectURL (sv_Listen s) (sv_User s) (sv_Pass s))
       (processName E s) (processPath E s)"

definition handleClash :: "serve_env \<Rightarrow> server \<Rightarrow> http_get \<Rightarrow> http_reply" where
  "handleClash E s r = Ok (ClashConfig (se_quote E) (sv_maps s) (advertiseHost r))"

definition handleList :: "server \<Rightarrow> http_get \<Rightarrow> http_reply" where
  "handleList s r = Ok (ProxyList (sv_maps s) (advertiseHost r))"

definition handleOpenSurge :: "serve_env \<Rightarrow> server \<Rightarrow> http_get \<Rightarrow> http_reply" where
  "handleOpenSurge E s r = Ok (openSurgeBody E s)"

definition handleSurge :: "serve_env \<Rightarrow> server \<Rightarrow> http_get \<Rightarrow> http_reply" where
  "handleSurge E s r =
     (let host = advertiseHost r;
          path = (if hg_path r = ''/map'' then ''/map'' else ''/'');
          listenURL = managedURL host (portOf (sv_Listen s)) path (sv_User s) (sv_Pass s)
      in Ok (SurgeConfig (se_lower E) (sv_maps s) listenURL host (sv_Template s)))"

definition handle :: "serve_env \<Rightarrow> server \<Rightarrow> http_get \<Rightarrow> http_reply" where
  \<comment> \<open>the mux, for paths in canonical form (\<open>ServeMux\<close> redirects the others)\<close>
  "handle E s r =
     (if hg_path r = ''/health'' then Ok (''ok'' @ nl)
      else if hg_path r = ''/clash'' then auth s r (handleClash E s r)
      else if hg_path r = ''/list'' then auth s r (handleList s r)
      else if hg_path r = ''/opensurge'' then auth s r (handleOpenSurge E s r)
      else auth s r (handleSurge E s r))"

section \<open>Writing the OpenSurge file\<close>

datatype file_op =
    MkdirAll string nat | Chmod string nat | WriteFile string string nat | Rename string string

fun runOps :: "(file_op \<Rightarrow> nat option) \<Rightarrow> file_op list \<Rightarrow> nat option \<times> file_op list" where
  \<comment> \<open>each call in turn until one fails; the calls that were made\<close>
  "runOps os [] = (None, [])"
| "runOps os (f # fs) =
     (case os f of
        Some e \<Rightarrow> (Some e, [f])
      | None \<Rightarrow> (let (r, made) = runOps os fs in (r, f # made)))"

definition writeOpenSurgeFile ::
  "(string \<Rightarrow> string) \<Rightarrow> (file_op \<Rightarrow> nat option) \<Rightarrow> string \<Rightarrow> string \<Rightarrow> nat option \<times> file_op list" where
  \<comment> \<open>\<open>dirOf\<close> is \<open>filepath.Dir\<close>; modes are 0700 and 0600\<close>
  "writeOpenSurgeFile dirOf os path body =
     (if path = [] then (None, [])
      else let dir = dirOf path; tmp = path @ ''.tmp'' in
        runOps os [MkdirAll dir 448, Chmod dir 448, WriteFile tmp body 384, Rename tmp path, Chmod path 384])"

section \<open>The states between the steps of Start\<close>

definition pools_ok :: "server \<Rightarrow> bool" where
  \<comment> \<open>one pool per key\<close>
  "pools_ok s \<longleftrightarrow>
     sv_pools s = [0..<length (sv_allPools s)] \<and> distinct (map fst (sv_allPools s))
     \<and> (\<forall>k p. sv_poolByName s k = Some p \<longleftrightarrow> p < length (sv_allPools s) \<and> fst (sv_allPools s ! p) = k)"

fun dial_ok :: "server \<Rightarrow> node \<Rightarrow> dial_via \<Rightarrow> bool" where
  "dial_ok s n CustomDial = sv_Dial s"
| "dial_ok s n DirectDial = (\<not> sv_Dial s \<and> \<not> n_Reuse n)"
| "dial_ok s n (PoolDial p) =
     (\<not> sv_Dial s \<and> n_Reuse n \<and> p < length (sv_allPools s) \<and> fst (sv_allPools s ! p) = poolKey n)"

definition listener_ok :: "server \<Rightarrow> listener \<Rightarrow> bool" where
  "listener_ok s l \<longleftrightarrow>
     (l_user l, l_pass l) = creds s (l_addr l) \<and> dial_ok s (l_node l) (l_dial l)
     \<and> l_udp l = udpDialer s (l_node l)"

definition publishes :: "server \<Rightarrow> Mapping \<Rightarrow> listener \<Rightarrow> bool" where
  \<comment> \<open>what a mapping says of its listener\<close>
  "publishes s m l \<longleftrightarrow>
     m_User m = l_user l \<and> m_Pass m = l_pass l \<and> m_UDP m = l_udp l
     \<and> (m_Host m = [] \<and> m_Node m = l_node l \<and> l_addr l = JoinHostPort (sv_Bind s) (Itoa (m_Port m))
        \<or> (\<exists>x \<in> set (sv_Extras s). l_addr l = x_Addr x \<and> l_node l = x_Node x
             \<and> n_Name (m_Node m) = (if x_Name x \<noteq> [] then x_Name x else n_Name (x_Node x))))"

definition running :: "server \<Rightarrow> bool" where
  "running s \<longleftrightarrow>
     \<not> sv_closed s \<and> sv_shut s = {} \<and> sv_poolsShut s = {} \<and> (sv_httpOpen s \<longrightarrow> sv_httpLn s)
     \<and> map m_ln (sv_maps s) = map Some [0..<length (sv_listeners s)]
     \<and> list_all2 (publishes s) (sv_maps s) (sv_listeners s)
     \<and> list_all (listener_ok s) (sv_listeners s) \<and> pools_ok s"

definition stopped :: "server \<Rightarrow> bool" where
  \<comment> \<open>nothing is left open\<close>
  "stopped s \<longleftrightarrow>
     sv_closed s \<and> sv_maps s = [] \<and> sv_pools s = [] \<and> \<not> sv_httpOpen s
     \<and> sv_shut s = {..<length (sv_listeners s)} \<and> sv_poolsShut s = {..<length (sv_allPools s)}"

definition fresh :: "server \<Rightarrow> bool" where
  \<comment> \<open>as \<open>run.Main\<close> builds it\<close>
  "fresh s \<longleftrightarrow>
     sv_maps s = [] \<and> sv_pools s = [] \<and> sv_poolByName s = Map.empty \<and> sv_listeners s = []
     \<and> sv_allPools s = [] \<and> sv_shut s = {} \<and> sv_poolsShut s = {} \<and> \<not> sv_httpOpen s"

definition same_config :: "server \<Rightarrow> server \<Rightarrow> bool" where
  "same_config s t \<longleftrightarrow>
     sv_Bind t = sv_Bind s \<and> sv_BasePort t = sv_BasePort s \<and> sv_User t = sv_User s \<and> sv_Pass t = sv_Pass s
     \<and> sv_Auth t = sv_Auth s \<and> sv_Dial t = sv_Dial s \<and> sv_Extras t = sv_Extras s \<and> sv_NoHTTP t = sv_NoHTTP s"

lemma same_config_trans: "same_config s t \<Longrightarrow> same_config t u \<Longrightarrow> same_config s u"
  by (simp add: same_config_def)

lemma running_init: "fresh s \<Longrightarrow> running (startInit s)"
  by (auto simp: fresh_def running_def startInit_def pools_ok_def)

lemma map_filter_Some: "map f xs = map Some ys \<Longrightarrow> List.map_filter f xs = ys"
proof (induction xs arbitrary: ys)
  case (Cons x xs)
  then show ?case by (cases ys) (auto simp: map_filter_simps)
qed (simp add: map_filter_simps)

lemma running_close: "running s \<Longrightarrow> stopped (serverClose s)"
  using map_filter_Some [of m_ln "sv_maps s" "[0..<length (sv_listeners s)]"]
  by (auto simp: running_def stopped_def serverClose_def pools_ok_def)

lemma dialerFor_running:
  assumes "running s" and "dialerFor n s = (d, t)"
  shows "running t" "same_config s t" "dial_ok t n d" "sv_listeners t = sv_listeners s" "sv_maps t = sv_maps s"
proof -
  have mono: "dial_ok s m e \<Longrightarrow> dial_ok t m e" for m e
    using assms(2) by (cases e) (auto simp: dialerFor_def Let_def nth_append split: if_splits option.splits)
  show cfg: "same_config s t" and "sv_listeners t = sv_listeners s" "sv_maps t = sv_maps s"
    using assms(2) by (auto simp: dialerFor_def Let_def same_config_def split: if_splits option.splits)
  have pools: "pools_ok t \<and> dial_ok t n d"
  proof (cases "sv_Dial s \<or> \<not> n_Reuse n \<or> sv_poolByName s (poolKey n) \<noteq> None")
    case True
    have p: "pools_ok s" using assms(1) by (simp add: running_def)
    have "t = s" using assms(2) True by (auto simp: dialerFor_def split: if_splits option.splits)
    moreover have "q < length (sv_allPools s) \<and> fst (sv_allPools s ! q) = poolKey n"
      if "sv_poolByName s (poolKey n) = Some q" for q
      using p that by (simp add: pools_ok_def)
    then have "dial_ok s n d"
      using assms(2) True by (auto simp: dialerFor_def Let_def split: if_splits option.splits)
    ultimately show ?thesis using p by simp
  next
    case False
    then have t: "t = s\<lparr>sv_poolByName := (sv_poolByName s)(poolKey n \<mapsto> length (sv_allPools s)),
        sv_pools := sv_pools s @ [length (sv_allPools s)],
        sv_allPools := sv_allPools s @ [(poolKey n, n, n_Preconnect n)]\<rparr>" "d = PoolDial (length (sv_allPools s))"
      using assms(2) by (auto simp: dialerFor_def Let_def)
    have p: "pools_ok s" using assms(1) by (simp add: running_def)
    have new: "fst (sv_allPools s ! p) \<noteq> poolKey n" if "p < length (sv_allPools s)" for p
      using p False that by (auto simp: pools_ok_def)
    then have "poolKey n \<notin> fst ` set (sv_allPools s)" by (metis imageE in_set_conv_nth)
    with p new False show ?thesis
      by (auto simp: t pools_ok_def nth_append less_Suc_eq split: if_splits)
  qed
  then show "dial_ok t n d" by simp
  have "listener_ok t l" if "listener_ok s l" for l
    using that cfg mono [of "l_node l" "l_dial l"]
    by (auto simp: listener_ok_def creds_def same_config_def udpDialer_def split: option.splits)
  moreover have "publishes t m l" if "publishes s m l" for m l
    using that cfg by (simp add: publishes_def same_config_def)
  moreover have "sv_closed t = sv_closed s" "sv_shut t = sv_shut s" "sv_poolsShut t = sv_poolsShut s"
    "sv_httpOpen t = sv_httpOpen s" "sv_httpLn t = sv_httpLn s" "sv_listeners t = sv_listeners s"
    "sv_maps t = sv_maps s"
    using assms(2) by (auto simp: dialerFor_def Let_def split: if_splits option.splits)
  ultimately show "running t"
    using assms(1) pools by (auto simp: running_def list_all_iff intro: list_all2_mono)
qed

lemma openListener_cases:
  assumes "running s" and "openListener E n addr s = (r, t)"
  shows "case r of
      Inl e \<Rightarrow> stopped t
    | Inr (k, bound, u, p, udp) \<Rightarrow>
        \<exists>s1 l. running s1 \<and> same_config s s1 \<and> sv_listeners s1 = sv_listeners s \<and> sv_maps s1 = sv_maps s
          \<and> k = length (sv_listeners s1) \<and> t = s1\<lparr>sv_listeners := sv_listeners s1 @ [l]\<rparr>
          \<and> listener_ok s1 l \<and> l_addr l = addr \<and> l_node l = n \<and> l_user l = u \<and> l_pass l = p \<and> l_udp l = udp"
proof -
  obtain d s1 where d: "dialerFor n s = (d, s1)" by (cases "dialerFor n s")
  note f = dialerFor_running [OF assms(1) d]
  obtain u p where c: "creds s1 addr = (u, p)" by (cases "creds s1 addr")
  show ?thesis
  proof (cases "se_listen E (length (sv_listeners s1)) addr")
    case (Inl e)
    with assms(2) d c running_close [OF f(1)] show ?thesis by (auto simp: openListener_def Let_def)
  next
    case (Inr bound)
    let ?l = "\<lparr>l_addr = addr, l_user = u, l_pass = p, l_node = n, l_dial = d, l_udp = udpDialer s1 n\<rparr>"
    have "listener_ok s1 ?l" using f(3) c by (simp add: listener_ok_def)
    moreover have "r = Inr (length (sv_listeners s1), bound, u, p, udpDialer s1 n)"
      "t = s1\<lparr>sv_listeners := sv_listeners s1 @ [?l]\<rparr>"
      using assms(2) d c Inr by (simp_all add: openListener_def Let_def)
    ultimately show ?thesis using f by (auto intro!: exI [of _ s1] exI [of _ ?l])
  qed
qed

lemma running_add:
  assumes "running s" and "listener_ok s l" and "publishes s m l" and "m_ln m = Some (length (sv_listeners s))"
  shows "running (s\<lparr>sv_listeners := sv_listeners s @ [l], sv_maps := sv_maps s @ [m]\<rparr>)"
proof -
  let ?t = "s\<lparr>sv_listeners := sv_listeners s @ [l], sv_maps := sv_maps s @ [m]\<rparr>"
  have "listener_ok ?t x = listener_ok s x" for x
    by (cases "l_dial x") (simp_all add: listener_ok_def creds_def udpDialer_def split: option.splits)
  then have "listener_ok ?t = listener_ok s" by (rule ext)
  moreover have "publishes ?t = publishes s" by (intro ext) (simp add: publishes_def)
  ultimately show ?thesis
    using assms by (simp add: running_def list_all2_appendI pools_ok_def)
qed

lemma unmapped_close:
  assumes "running s"
  shows "stopped (serverClose (s\<lparr>sv_listeners := sv_listeners s @ [l], sv_shut := {length (sv_listeners s)}\<rparr>))"
  using assms map_filter_Some [of m_ln "sv_maps s" "[0..<length (sv_listeners s)]"]
  by (auto simp: running_def stopped_def serverClose_def pools_ok_def)

definition expected :: "string \<Rightarrow> int \<Rightarrow> nat \<Rightarrow> node list \<Rightarrow> (node \<times> string) list" where
  \<comment> \<open>node \<open>i\<close> on port \<open>BasePort + i\<close>\<close>
  "expected bind base i ns =
     map (\<lambda>(n, j). (n, JoinHostPort bind (Itoa (base + int j)))) (zip ns [i..<i + length ns])"

abbreviation served_nodes :: "server \<Rightarrow> (node \<times> string) list" where
  "served_nodes s \<equiv> map (\<lambda>l. (l_node l, l_addr l)) (sv_listeners s)"

lemma startNodes_cases:
  "running s \<Longrightarrow> startNodes E i ns s = (r, t) \<Longrightarrow>
   case r of
     Inl e \<Rightarrow> stopped t
   | Inr _ \<Rightarrow> running t \<and> same_config s t
       \<and> served_nodes t = served_nodes s @ expected (sv_Bind s) (sv_BasePort s) i ns"
proof (induction ns arbitrary: i s)
  case Nil
  then show ?case by (auto simp: same_config_def expected_def)
next
  case (Cons n ns)
  let ?port = "sv_BasePort s + int i" and ?addr = "JoinHostPort (sv_Bind s) (Itoa (sv_BasePort s + int i))"
  obtain o1 s1 where o1: "openListener E n ?addr s = (o1, s1)" by (cases "openListener E n ?addr s")
  note c = openListener_cases [OF Cons.prems(1) o1]
  show ?case
  proof (cases o1)
    case (Inl e)
    with c o1 Cons.prems(2) show ?thesis by (auto simp: ebind_def Let_def)
  next
    case (Inr q)
    obtain k bound u p udp where q: "q = (k, bound, u, p, udp)" by (cases q)
    from c Inr q obtain s2 l where s2: "running s2" "same_config s s2" "sv_listeners s2 = sv_listeners s"
      "k = length (sv_listeners s2)" "s1 = s2\<lparr>sv_listeners := sv_listeners s2 @ [l]\<rparr>" "listener_ok s2 l"
      "l_addr l = ?addr" "l_node l = n" "l_user l = u" "l_pass l = p" "l_udp l = udp" by auto
    let ?m = "\<lparr>m_Node = n, m_Port = ?port, m_Host = [], m_UDP = udp, m_User = u, m_Pass = p, m_ln = Some k\<rparr>"
    let ?s3 = "s2\<lparr>sv_listeners := sv_listeners s2 @ [l], sv_maps := sv_maps s2 @ [?m]\<rparr>"
    have cfg: "same_config s ?s3" using s2(2) by (simp add: same_config_def)
    have "publishes s2 ?m l" using s2 by (simp add: publishes_def same_config_def)
    from running_add [OF s2(1,6) this] s2(4) have "running ?s3" by simp
    moreover have "startNodes E (i + 1) ns ?s3 = (r, t)"
      using Cons.prems(2) o1 Inr q s2(2,5) by (simp add: ebind_def Let_def same_config_def)
    ultimately have "case r of
        Inl e \<Rightarrow> stopped t
      | Inr _ \<Rightarrow> running t \<and> same_config ?s3 t
          \<and> served_nodes t = served_nodes ?s3 @ expected (sv_Bind ?s3) (sv_BasePort ?s3) (i + 1) ns"
      by (rule Cons.IH)
    moreover have "served_nodes ?s3 @ expected (sv_Bind ?s3) (sv_BasePort ?s3) (i + 1) ns
        = served_nodes s @ expected (sv_Bind s) (sv_BasePort s) i (n # ns)"
    proof -
      have "[i..<i + length (n # ns)] = i # [i + 1..<i + 1 + length ns]"
        by (subst upt_conv_Cons) (simp_all del: upt_Suc)
      then show ?thesis using s2 by (simp add: expected_def same_config_def del: upt_Suc)
    qed
    ultimately show ?thesis using same_config_trans [OF cfg] by (auto split: sum.splits)
  qed
qed

lemma startExtras_cases:
  "running s \<Longrightarrow> set xs \<subseteq> set (sv_Extras s) \<Longrightarrow> startExtras E xs s = (r, t) \<Longrightarrow>
   case r of
     Inl e \<Rightarrow> stopped t
   | Inr _ \<Rightarrow> running t \<and> same_config s t
       \<and> served_nodes t = served_nodes s @ map (\<lambda>x. (x_Node x, x_Addr x)) xs"
proof (induction xs arbitrary: s)
  case Nil
  then show ?case by (auto simp: same_config_def)
next
  case (Cons x xs)
  obtain o1 s1 where o1: "openListener E (x_Node x) (x_Addr x) s = (o1, s1)"
    by (cases "openListener E (x_Node x) (x_Addr x) s")
  note c = openListener_cases [OF Cons.prems(1) o1]
  show ?case
  proof (cases o1)
    case (Inl e)
    with c o1 Cons.prems(3) show ?thesis by (auto simp: ebind_def)
  next
    case (Inr q)
    obtain k bound u p udp where q: "q = (k, bound, u, p, udp)" by (cases q)
    from c Inr q obtain s2 l where s2: "running s2" "same_config s s2" "sv_listeners s2 = sv_listeners s"
      "k = length (sv_listeners s2)" "s1 = s2\<lparr>sv_listeners := sv_listeners s2 @ [l]\<rparr>" "listener_ok s2 l"
      "l_addr l = x_Addr x" "l_node l = x_Node x" "l_user l = u" "l_pass l = p" "l_udp l = udp" by auto
    show ?thesis
    proof (cases bound)
      case None
      have "s1\<lparr>sv_shut := insert k (sv_shut s1)\<rparr>
          = s2\<lparr>sv_listeners := sv_listeners s2 @ [l], sv_shut := {length (sv_listeners s2)}\<rparr>"
        using s2(1,4,5) by (simp add: running_def)
      with unmapped_close [OF s2(1), of l] Cons.prems(3) o1 Inr q None show ?thesis by (auto simp: ebind_def)
    next
      case (Some a)
      let ?node = "if x_Name x \<noteq> [] then (x_Node x)\<lparr>n_Name := x_Name x\<rparr> else x_Node x"
      let ?m = "\<lparr>m_Node = ?node, m_Port = ta_Port a, m_Host = tcpAddrHost a, m_UDP = udp, m_User = u,
                 m_Pass = p, m_ln = Some k\<rparr>"
      let ?s3 = "s2\<lparr>sv_listeners := sv_listeners s2 @ [l], sv_maps := sv_maps s2 @ [?m]\<rparr>"
      have cfg: "same_config s ?s3" using s2(2) by (simp add: same_config_def)
      have "x \<in> set (sv_Extras s2)" using Cons.prems(2) s2(2) by (auto simp: same_config_def)
      then have "publishes s2 ?m l" using s2 by (auto simp: publishes_def)
      from running_add [OF s2(1,6) this] s2(4) have run: "running ?s3" by simp
      have sub: "set xs \<subseteq> set (sv_Extras ?s3)" using Cons.prems(2) s2(2) by (simp add: same_config_def)
      have "startExtras E xs ?s3 = (r, t)"
        using Cons.prems(3) o1 Inr q Some s2(5) by (simp add: ebind_def Let_def)
      from Cons.IH [OF run sub this] show ?thesis
        using same_config_trans [OF cfg] s2 by (auto split: sum.splits)
    qed
  qed
qed

lemma startHTTP_cases:
  assumes "running s" and "startHTTP E s = (r, t)"
  shows "case r of Inl e \<Rightarrow> stopped t | Inr _ \<Rightarrow> running t \<and> same_config s t \<and> sv_listeners t = sv_listeners s"
proof (cases "sv_NoHTTP s")
  case True
  with assms show ?thesis by (auto simp: startHTTP_def same_config_def)
next
  case False
  show ?thesis
  proof (cases "se_http E (sv_Listen s)")
    case (Inl e)
    with assms False running_close [OF assms(1)] show ?thesis by (auto simp: startHTTP_def)
  next
    case (Inr addr)
    let ?t = "s\<lparr>sv_httpLn := True, sv_httpOpen := True, sv_Listen := addr, sv_httpSrv := True\<rparr>"
    have "listener_ok ?t l = listener_ok s l" for l
      by (cases "l_dial l") (simp_all add: listener_ok_def creds_def udpDialer_def split: option.splits)
    then have "listener_ok ?t = listener_ok s" by (rule ext)
    moreover have "publishes ?t = publishes s" by (intro ext) (simp add: publishes_def)
    ultimately have "running ?t" using assms(1) by (simp add: running_def pools_ok_def)
    with assms(2) False Inr show ?thesis by (auto simp: startHTTP_def same_config_def)
  qed
qed

lemma Start_fact:
  assumes "fresh s" and "Start E s = (r, t)"
  shows "case r of
      Inl e \<Rightarrow> stopped t
    | Inr _ \<Rightarrow> running t \<and> same_config (startInit s) t
        \<and> served_nodes t = expected (sv_Bind t) (sv_BasePort t) 0 (sv_Nodes s)
                           @ map (\<lambda>x. (x_Node x, x_Addr x)) (sv_Extras s)"
proof -
  obtain r1 s1 where n: "startNodes E 0 (sv_Nodes s) (startInit s) = (r1, s1)"
    by (cases "startNodes E 0 (sv_Nodes s) (startInit s)")
  note c1 = startNodes_cases [OF running_init [OF assms(1)] n]
  show ?thesis
  proof (cases r1)
    case (Inl e)
    with c1 n assms(2) show ?thesis by (auto simp: Start_def ebind_def)
  next
    case (Inr u)
    with c1 have s1: "running s1" "same_config (startInit s) s1"
      "served_nodes s1 = expected (sv_Bind s1) (sv_BasePort s1) 0 (sv_Nodes s)"
      using assms(1) by (auto simp: same_config_def fresh_def startInit_def)
    obtain r2 s2 where x: "startExtras E (sv_Extras s) s1 = (r2, s2)" by (cases "startExtras E (sv_Extras s) s1")
    have "set (sv_Extras s) \<subseteq> set (sv_Extras s1)" using s1(2) by (simp add: same_config_def startInit_def)
    note c2 = startExtras_cases [OF s1(1) this x]
    show ?thesis
    proof (cases r2)
      case (Inl e)
      with c2 n Inr x assms(2) show ?thesis by (auto simp: Start_def ebind_def)
    next
      case r2: (Inr v)
      with c2 have s2: "running s2" "same_config s1 s2" "served_nodes s2 = served_nodes s1
          @ map (\<lambda>x. (x_Node x, x_Addr x)) (sv_Extras s)" by auto
      have "startHTTP E s2 = (r, t)" using assms(2) n Inr x r2 by (simp add: Start_def ebind_def)
      from startHTTP_cases [OF s2(1) this] show ?thesis
        using s1 s2 same_config_trans [OF same_config_trans [OF s1(2) s2(2)]]
        by (auto simp: same_config_def split: sum.splits)
    qed
  qed
qed


section \<open>The endpoints\<close>

lemma BasicAuth_encode:
  assumes "CHR '':'' \<notin> set user"
  shows "BasicAuth (''Basic '' @ b64_encode (str_bytes (user @ '':'' @ pass))) = (user, pass, True)"
proof -
  have "parseBasicB64 (b64_encode (str_bytes (user @ '':'' @ pass))) = (user, pass, True)"
    using assms by (simp add: parseBasicB64_def b64_decode_encode Cut_char)
  then show ?thesis by (simp add: BasicAuth_def lower_char_def char_of_eq)
qed

text \<open>
  C32. The configuration endpoints ask for the same credentials as the proxies: with a user set,
  every path but /health answers 401, independently of the mappings and the template, unless the
  request carries the Basic encoding of user and password; a client that encodes them (the user
  has no colon) gets the document; /health never needs any.
\<close>

theorem config_endpoints_auth:
  assumes "sv_User s \<noteq> []"
  shows "(hg_path r \<noteq> ''/health'' \<longrightarrow>
            (\<exists>doc. handle E s r = Ok doc) \<longleftrightarrow> BasicAuth (hg_auth r) = (sv_User s, sv_Pass s, True))
    \<and> (CHR '':'' \<notin> set (sv_User s) \<and> hg_path r = ''/list''
         \<and> hg_auth r = ''Basic '' @ b64_encode (str_bytes (sv_User s @ '':'' @ sv_Pass s)) \<longrightarrow>
         handle E s r = Ok (ProxyList (sv_maps s) (advertiseHost r)))
    \<and> (hg_path r = ''/health'' \<longrightarrow> handle E s r = Ok (''ok'' @ nl))"
  using assms BasicAuth_encode [of "sv_User s" "sv_Pass s"]
  by (auto simp: handle_def auth_def handleClash_def handleList_def handleOpenSurge_def handleSurge_def Let_def)

section \<open>Examples\<close>

definition exampleServer :: server where
  "exampleServer =
     \<lparr>sv_Listen = ''127.0.0.1:6172'', sv_Bind = [], sv_BasePort = 0, sv_User = ''u'', sv_Pass = ''p'',
      sv_Auth = None, sv_NoHTTP = False,
      sv_Nodes = [m_Node exampleMapping, (m_Node exampleMapping)\<lparr>n_Name := ''jp''\<rparr>],
      sv_Extras = [\<lparr>x_Name = ''x'', x_Node = m_Node exampleMapping, x_Addr = ''0.0.0.0:9000''\<rparr>],
      sv_Template = [], sv_Dial = False, sv_OpenSurgePath = [], sv_ProcessName = [], sv_ProcessPath = [],
      sv_maps = [], sv_pools = [], sv_poolByName = Map.empty, sv_httpLn = False, sv_httpSrv = False,
      sv_closed = False, sv_listeners = [], sv_shut = {}, sv_allPools = [], sv_poolsShut = {},
      sv_httpOpen = False\<rparr>"

definition exampleEnv :: serve_env where
  \<comment> \<open>the third listener is refused\<close>
  "exampleEnv =
     \<lparr>se_listen = (\<lambda>n a. if n < 2 then Inr None else Inl 1), se_http = (\<lambda>a. Inr a), se_base = ''x'',
      se_exe = None, se_quote = id, se_lower = id\<rparr>"

lemma fresh_example: "fresh exampleServer"
  by (simp add: fresh_def exampleServer_def)


theorem config_endpoints_auth_witness:
  "\<not> (\<exists>doc. handle exampleEnv exampleServer \<lparr>hg_path = ''/clash'', hg_host = ''h'', hg_auth = []\<rparr> = Ok doc)
   \<and> handle exampleEnv exampleServer \<lparr>hg_path = ''/health'', hg_host = ''h'', hg_auth = []\<rparr> = Ok (''ok'' @ nl)"
proof -
  have u: "sv_User exampleServer \<noteq> []" by (simp add: exampleServer_def)
  have "BasicAuth [] \<noteq> (sv_User exampleServer, sv_Pass exampleServer, True)" by (simp add: BasicAuth_def)
  with config_endpoints_auth [OF u, of "\<lparr>hg_path = ''/clash'', hg_host = ''h'', hg_auth = []\<rparr>" exampleEnv]
    config_endpoints_auth [OF u, of "\<lparr>hg_path = ''/health'', hg_host = ''h'', hg_auth = []\<rparr>" exampleEnv]
  show ?thesis by simp
qed

end
