(* ===== verification/Profile_Dns.thy ===== *)
theory Profile_Dns
  imports Transport "HOL-Library.Multiset" "HOL-Library.Char_ord" "HOL-Library.List_Lexorder"
    "HOL-Library.Product_Lexorder"
begin

text \<open>
  The DNS section of a profile (\<open>internal/profile/dns.go\<close>): decoded YAML values, the nameserver
  policies as an ordered rule list, and the choice of the servers for a node. The YAML decoder is
  a parameter; a Go map is the association list in the order its iteration happens to visit it.
\<close>

section \<open>Decoded values\<close>

datatype yval =
    YNil
  | YStr string
  | YBool bool
  | YInt int              \<comment> \<open>\<open>int\<close>\<close>
  | YInt64 int
  | YUint64 "64 word"
  | YFloat nat            \<comment> \<open>\<open>float64\<close>, by a name for its value\<close>
  | YList "yval list"     \<comment> \<open>\<open>[]any\<close>\<close>
  | YStrings "string list"  \<comment> \<open>\<open>[]string\<close>\<close>
  | YMap "(string \<times> yval) list"  \<comment> \<open>\<open>map[string]any\<close>\<close>
  | YOther nat            \<comment> \<open>any other type, such as \<open>time.Time\<close>\<close>

type_synonym ymap = "(string \<times> yval) list"

record rawDNS =
  rd_ProxyServerNameserverPolicy :: ymap
  rd_NameserverPolicy :: ymap
  rd_ProxyServerNameserver :: yval
  rd_DefaultNameserver :: yval

record yaml =
  y_proxies :: "bytes \<Rightarrow> nat + ymap list"     \<comment> \<open>\<open>yaml.Unmarshal\<close> into a \<open>rawFile\<close>\<close>
  y_dns :: "bytes \<Rightarrow> nat + rawDNS option"    \<comment> \<open>\<open>yaml.Unmarshal\<close> into a \<open>rawDNSFile\<close>\<close>
  y_sprint :: "yval \<Rightarrow> string"               \<comment> \<open>\<open>fmt.Sprint\<close> of a value of a composite type\<close>
  y_trunc :: "nat \<Rightarrow> int"                    \<comment> \<open>\<open>int\<close> of a \<open>float64\<close>\<close>
  y_lower :: "string \<Rightarrow> string"              \<comment> \<open>the Unicode case table\<close>

definition yget :: "ymap \<Rightarrow> string \<Rightarrow> yval" where
  \<comment> \<open>indexing a map: the zero value where the key is missing\<close>
  "yget m k = (case map_of m k of None \<Rightarrow> YNil | Some v \<Rightarrow> v)"

fun str :: "yaml \<Rightarrow> yval \<Rightarrow> string" where
  "str Y YNil = []"
| "str Y (YStr s) = s"
| "str Y (YBool b) = (if b then ''true'' else ''false'')"
| "str Y (YInt i) = Itoa i"
| "str Y (YInt64 i) = Itoa i"
| "str Y (YUint64 w) = nat_str (unat w)"
| "str Y v = y_sprint Y v"

section \<open>The order of the rules\<close>

definition dnsSuffix :: "string \<Rightarrow> string" where
  "dnsSuffix p = (if HasPrefix p ''+.'' \<or> HasPrefix p ''*.'' then drop 2 p else p)"

definition dnsPatternRank :: "string \<Rightarrow> nat" where
  "dnsPatternRank p = (if HasPrefix p ''+.'' then 2 else if HasPrefix p ''*.'' then 3 else 1)"

definition dnsRuleLess :: "string \<Rightarrow> string \<Rightarrow> bool" where
  "dnsRuleLess a b =
     (let sa = dnsSuffix a; sb = dnsSuffix b in
      if length sa \<noteq> length sb then length sb < length sa
      else let ra = dnsPatternRank a; rb = dnsPatternRank b in
        if ra \<noteq> rb then ra < rb
        else if length a \<noteq> length b then length b < length a
        else a < b)"

text \<open>
  \<open>dnsRuleLess\<close> is a strict linear order, so \<open>pattern\<close> is an instance of \<open>linorder\<close> and
  \<open>sort.SliceStable\<close> with it is the library's stable \<open>sort_key\<close>.
\<close>

datatype pattern = Pattern (pat_text: string)

definition pat_key :: "string \<Rightarrow> int \<times> nat \<times> int \<times> string" where
  "pat_key p = (- int (length (dnsSuffix p)), dnsPatternRank p, - int (length p), p)"

lemma dnsRuleLess_key: "dnsRuleLess a b \<longleftrightarrow> pat_key a < pat_key b"
  by (auto simp: dnsRuleLess_def pat_key_def Let_def)

lemma pat_key_inj: "pat_key a = pat_key b \<longleftrightarrow> a = b"
  by (auto simp: pat_key_def)

instantiation pattern :: linorder
begin

definition less_pattern :: "pattern \<Rightarrow> pattern \<Rightarrow> bool" where
  "less_pattern a b = dnsRuleLess (pat_text a) (pat_text b)"

definition less_eq_pattern :: "pattern \<Rightarrow> pattern \<Rightarrow> bool" where
  "less_eq_pattern a b = (\<not> dnsRuleLess (pat_text b) (pat_text a))"

instance
proof
  fix a b c :: pattern
  show "a < b \<longleftrightarrow> a \<le> b \<and> \<not> b \<le> a"
    by (auto simp: less_pattern_def less_eq_pattern_def dnsRuleLess_key)
  show "a \<le> a" by (simp add: less_eq_pattern_def dnsRuleLess_key)
  show "a \<le> b \<Longrightarrow> b \<le> c \<Longrightarrow> a \<le> c"
    by (auto simp: less_eq_pattern_def dnsRuleLess_key)
  show "a \<le> b \<Longrightarrow> b \<le> a \<Longrightarrow> a = b"
    using pat_key_inj [of "pat_text a" "pat_text b"]
    by (auto simp: less_eq_pattern_def dnsRuleLess_key intro: pattern.expand)
  show "a \<le> b \<or> b \<le> a"
    by (auto simp: less_eq_pattern_def dnsRuleLess_key)
qed

end

section \<open>Rules and policies\<close>

record DNSRule =
  r_Pattern :: string
  r_Servers :: "DNSServer list"

record DNSPolicy =
  p_Policies :: "DNSRule list"
  p_Fallback :: "DNSServer list"

fun asStringSlice :: "yaml \<Rightarrow> yval \<Rightarrow> string list" where
  "asStringSlice Y YNil = []"
| "asStringSlice Y (YStr s) = [s]"
| "asStringSlice Y (YList xs) = map (str Y) xs"
| "asStringSlice Y (YStrings ss) = ss"
| "asStringSlice Y v = (let s = str Y v in if s = [] then [] else [s])"

definition parseServerList :: "yaml \<Rightarrow> yval \<Rightarrow> DNSServer list" where
  "parseServerList Y v = List.map_filter ParseNameserver (asStringSlice Y v)"

definition ruleKept :: "string \<times> yval \<Rightarrow> bool" where
  "ruleKept kv =
     (let k = TrimSpace (fst kv) in
      \<not> (k = [] \<or> HasPrefix k ''geosite:'' \<or> HasPrefix k ''geoip:''))"

definition ruleOf :: "yaml \<Rightarrow> string \<times> yval \<Rightarrow> DNSRule" where
  "ruleOf Y kv = \<lparr>r_Pattern = TrimSpace (fst kv), r_Servers = parseServerList Y (snd kv)\<rparr>"

definition rulesFromMap :: "yaml \<Rightarrow> ymap \<Rightarrow> DNSRule list" where
  "rulesFromMap Y m = sort_key (\<lambda>r. Pattern (r_Pattern r)) (map (ruleOf Y) (filter ruleKept m))"

definition ParseDNS :: "yaml \<Rightarrow> bytes \<Rightarrow> DNSPolicy" where
  "ParseDNS Y b =
     (case y_dns Y b of
        Inl _ \<Rightarrow> \<lparr>p_Policies = [], p_Fallback = []\<rparr>
      | Inr None \<Rightarrow> \<lparr>p_Policies = [], p_Fallback = []\<rparr>
      | Inr (Some d) \<Rightarrow>
          \<lparr>p_Policies = rulesFromMap Y (rd_ProxyServerNameserverPolicy d)
                        @ rulesFromMap Y (rd_NameserverPolicy d),
           p_Fallback = parseServerList Y (rd_ProxyServerNameserver d)
                        @ parseServerList Y (rd_DefaultNameserver d)\<rparr>)"

fun matchRules :: "(string \<Rightarrow> string) \<Rightarrow> DNSRule list \<Rightarrow> DNSServer list \<Rightarrow> string \<Rightarrow> DNSServer list" where
  "matchRules L [] fallback host = fallback"
| "matchRules L (r # rs) fallback host =
     (if DomainMatch L (r_Pattern r) host \<and> r_Servers r \<noteq> [] then r_Servers r
      else matchRules L rs fallback host)"

definition Match :: "(string \<Rightarrow> string) \<Rightarrow> DNSPolicy \<Rightarrow> string \<Rightarrow> DNSServer list" where
  "Match L p host = matchRules L (p_Policies p) (p_Fallback p) host"

definition ApplyDNS :: "(string \<Rightarrow> string) \<Rightarrow> node list \<Rightarrow> DNSPolicy \<Rightarrow> node list" where
  "ApplyDNS L nodes p =
     map (\<lambda>n. if n_DNS n \<noteq> [] then n else n\<lparr>n_DNS := Match L p (n_Server n)\<rparr>) nodes"

section \<open>Lemmas\<close>

definition applies :: "(string \<Rightarrow> string) \<Rightarrow> string \<Rightarrow> DNSRule \<Rightarrow> bool" where
  "applies L host r \<longleftrightarrow> DomainMatch L (r_Pattern r) host \<and> r_Servers r \<noteq> []"

lemma matchRules_find:
  "matchRules L rs fb host = (case find (applies L host) rs of None \<Rightarrow> fb | Some r \<Rightarrow> r_Servers r)"
  by (induction rs) (auto simp: applies_def)

lemma set_rulesFromMap: "set (rulesFromMap Y m) = ruleOf Y ` {kv \<in> set m. ruleKept kv}"
  by (simp add: rulesFromMap_def)

lemma sorted_rulesFromMap: "sorted (map (\<lambda>r. Pattern (r_Pattern r)) (rulesFromMap Y m))"
  by (simp add: rulesFromMap_def)

lemma find_sorted_least:
  assumes "sorted (map k xs)" and "find P xs = Some x" and "y \<in> set xs" and "P y"
  shows "k x \<le> k y"
  using assms by (induction xs) (auto split: if_splits)

lemma find_NoneD: "find P xs = None \<Longrightarrow> y \<in> set xs \<Longrightarrow> \<not> P y"
  by (auto simp: find_None_iff)

lemma rulesFromMap_mset:
  assumes "mset m = mset m'" and "distinct (map (\<lambda>kv. TrimSpace (fst kv)) (filter ruleKept m))"
  shows "rulesFromMap Y m = rulesFromMap Y m'"
proof -
  let ?k = "\<lambda>r. Pattern (r_Pattern r)" and ?f = "\<lambda>m. map (ruleOf Y) (filter ruleKept m)"
  have "mset (?f m) = mset (?f m')" using assms(1) by (simp add: mset_filter)
  then have ms: "mset (?f m) = mset (sort_key ?k (?f m'))" by simp
  have "distinct (map ?k (?f m))"
    using assms(2) by (simp add: o_def ruleOf_def distinct_map inj_on_def)
  then have "inj_on ?k (set (?f m))" by (simp only: distinct_map)
  from sort_key_inj_key_eq [OF ms this] show ?thesis by (simp add: rulesFromMap_def)
qed

section \<open>The servers of a host\<close>

definition entryApplies :: "yaml \<Rightarrow> (string \<Rightarrow> string) \<Rightarrow> string \<Rightarrow> string \<times> yval \<Rightarrow> bool" where
  "entryApplies Y L host kv \<longleftrightarrow> ruleKept kv \<and> applies L host (ruleOf Y kv)"

definition most_specific :: "yaml \<Rightarrow> (string \<Rightarrow> string) \<Rightarrow> string \<Rightarrow> ymap \<Rightarrow> DNSServer list \<Rightarrow> bool" where
  \<comment> \<open>\<open>S\<close> are the servers of an applicable entry that no applicable entry beats\<close>
  "most_specific Y L host m S \<longleftrightarrow>
     (\<exists>kv \<in> set m. entryApplies Y L host kv \<and> S = parseServerList Y (snd kv) \<and>
        (\<forall>kv' \<in> set m. entryApplies Y L host kv' \<longrightarrow>
           \<not> dnsRuleLess (TrimSpace (fst kv')) (TrimSpace (fst kv))
           \<and> length (dnsSuffix (TrimSpace (fst kv'))) \<le> length (dnsSuffix (TrimSpace (fst kv)))))"

definition none_applies :: "yaml \<Rightarrow> (string \<Rightarrow> string) \<Rightarrow> string \<Rightarrow> ymap \<Rightarrow> bool" where
  "none_applies Y L host m \<longleftrightarrow> (\<forall>kv \<in> set m. \<not> entryApplies Y L host kv)"

lemma not_less_suffix: "\<not> dnsRuleLess b a \<Longrightarrow> length (dnsSuffix b) \<le> length (dnsSuffix a)"
  by (auto simp: dnsRuleLess_def Let_def split: if_splits)

lemma find_rulesFromMap:
  "case find (applies L host) (rulesFromMap Y m) of
     None \<Rightarrow> none_applies Y L host m
   | Some r \<Rightarrow> most_specific Y L host m (r_Servers r)"
proof (cases "find (applies L host) (rulesFromMap Y m)")
  case None
  then have "none_applies Y L host m"
    by (auto simp: find_None_iff set_rulesFromMap none_applies_def entryApplies_def)
  with None show ?thesis by simp
next
  case (Some r)
  then have "r \<in> set (rulesFromMap Y m)" and a: "applies L host r"
    by (auto simp: find_Some_iff)
  then obtain kv where kv: "kv \<in> set m" "ruleKept kv" "r = ruleOf Y kv"
    by (auto simp: set_rulesFromMap)
  have best: "\<not> dnsRuleLess (TrimSpace (fst kv')) (TrimSpace (fst kv))"
    if "kv' \<in> set m" "entryApplies Y L host kv'" for kv'
  proof -
    have "ruleOf Y kv' \<in> set (rulesFromMap Y m)" and "applies L host (ruleOf Y kv')"
      using that by (auto simp: set_rulesFromMap entryApplies_def)
    from find_sorted_least [OF sorted_rulesFromMap Some this]
    show ?thesis by (simp add: less_eq_pattern_def ruleOf_def kv(3))
  qed
  have "most_specific Y L host m (r_Servers r)"
    unfolding most_specific_def
    by (rule bexI [of _ kv])
      (use kv a best not_less_suffix in \<open>auto simp: entryApplies_def ruleOf_def\<close>)
  with Some show ?thesis by simp
qed

lemma find_append:
  "find P (xs @ ys) = (case find P xs of None \<Rightarrow> find P ys | Some x \<Rightarrow> Some x)"
  by (induction xs) auto

text \<open>
  C25. The servers a node is resolved with do not depend on the order in which Go visits the
  policy map: for two orders of the same entries with distinct (trimmed) patterns,
  \<open>rulesFromMap\<close> returns the same rule list, so every host gets the same servers.
\<close>

theorem rulesFromMap_order_free:
  assumes "mset m = mset m'"
    and "distinct (map (\<lambda>kv. TrimSpace (fst kv)) (filter ruleKept m))"
  shows "rulesFromMap Y m = rulesFromMap Y m'
     \<and> matchRules L (rulesFromMap Y m) fb host = matchRules L (rulesFromMap Y m') fb host"
  using rulesFromMap_mset [OF assms] by simp_all

text \<open>
  C26. \<open>Match\<close> on a parsed profile returns the servers of the most specific applicable entry of
  \<open>proxy-server-nameserver-policy\<close> (no applicable entry is smaller in \<open>dnsRuleLess\<close> or has a
  longer suffix); when none applies, those of \<open>nameserver-policy\<close>; when none applies there
  either, the fallback lists. Entries without a usable server never apply.
\<close>

theorem Match_most_specific:
  assumes "y_dns Y b = Inr (Some d)" and "S = Match L (ParseDNS Y b) host"
  shows "most_specific Y L host (rd_ProxyServerNameserverPolicy d) S
     \<or> none_applies Y L host (rd_ProxyServerNameserverPolicy d)
       \<and> (most_specific Y L host (rd_NameserverPolicy d) S
          \<or> none_applies Y L host (rd_NameserverPolicy d)
            \<and> S = parseServerList Y (rd_ProxyServerNameserver d)
                   @ parseServerList Y (rd_DefaultNameserver d))"
  using assms find_rulesFromMap [where L = L and host = host and Y = Y and m = "rd_ProxyServerNameserverPolicy d"]
    find_rulesFromMap [where L = L and host = host and Y = Y and m = "rd_NameserverPolicy d"]
  by (auto simp: Match_def ParseDNS_def find_append matchRules_find split: option.splits)

definition exampleDNS :: rawDNS where
  "exampleDNS =
     \<lparr>rd_ProxyServerNameserverPolicy =
        [(''*.b.c'', YStr ''10.0.0.1''), (''+.a.b.c'', YList [YStr ''10.0.0.2'']), (''geosite:cn'', YNil)],
      rd_NameserverPolicy = [], rd_ProxyServerNameserver = YStr ''10.0.0.3'', rd_DefaultNameserver = YNil\<rparr>"

definition exampleYaml :: yaml where
  "exampleYaml =
     \<lparr>y_proxies = (\<lambda>_. Inl 0), y_dns = (\<lambda>_. Inr (Some exampleDNS)), y_sprint = (\<lambda>_. []),
      y_trunc = int, y_lower = id\<rparr>"

lemma TrimSpace_example [simp]:
  "TrimSpace ''*.b.c'' = ''*.b.c''" "TrimSpace ''+.a.b.c'' = ''+.a.b.c''" "TrimSpace ''geosite:cn'' = ''geosite:cn''"
  by (simp_all add: visible_def)

theorem rulesFromMap_order_free_witness:
  "rulesFromMap exampleYaml (rd_ProxyServerNameserverPolicy exampleDNS)
   = rulesFromMap exampleYaml (rev (rd_ProxyServerNameserverPolicy exampleDNS))"
  by (rule rulesFromMap_order_free [THEN conjunct1]) (simp_all add: exampleDNS_def ruleKept_def HasPrefix_def)

theorem Match_most_specific_witness:
  "\<exists>S. S = Match id (ParseDNS exampleYaml []) ''x.a.b.c'' \<and>
     (most_specific exampleYaml id ''x.a.b.c'' (rd_ProxyServerNameserverPolicy exampleDNS) S
      \<or> none_applies exampleYaml id ''x.a.b.c'' (rd_ProxyServerNameserverPolicy exampleDNS)
        \<and> (most_specific exampleYaml id ''x.a.b.c'' (rd_NameserverPolicy exampleDNS) S
           \<or> none_applies exampleYaml id ''x.a.b.c'' (rd_NameserverPolicy exampleDNS)
             \<and> S = parseServerList exampleYaml (rd_ProxyServerNameserver exampleDNS)
                    @ parseServerList exampleYaml (rd_DefaultNameserver exampleDNS)))"
  by (rule exI, rule conjI, rule refl, rule Match_most_specific [where b = "[]", OF _ refl])
    (simp add: exampleYaml_def)

end
