(* ===== verification/Profile.thy ===== *)
theory Profile
  imports Profile_Dns
begin

text \<open>
  Profiles (\<open>internal/profile/profile.go\<close>, \<open>filter.go\<close>): the nodes of a Clash YAML document or of
  Surge lines, their defaults and checks, unique names, and the name filter. The YAML decoder and
  the regular-expression engine are parameters.
\<close>

section \<open>Lines and fields\<close>

definition blank :: "char \<Rightarrow> bool" where
  "blank c \<longleftrightarrow> c = CHR '' '' \<or> c = CHR 0x09 \<or> c = CHR 0x0D"

definition trim :: "string \<Rightarrow> string" where
  "trim s = rev (dropWhile blank (rev (dropWhile blank s)))"

definition cut :: "string \<Rightarrow> string \<Rightarrow> (string \<times> string) option" where
  "cut s sep =
     (case indexOf s sep of None \<Rightarrow> None | Some i \<Rightarrow> Some (take i s, drop (i + length sep) s))"

definition splitLines :: "string \<Rightarrow> string list" where
  "splitLines s = splitOn CHR 0x0A s"

definition splitCSV :: "string \<Rightarrow> string list" where
  "splitCSV s = map trim (splitOn CHR '','' s)"

section \<open>Typed access\<close>

function skipSpace :: "string \<Rightarrow> string option" where
  \<comment> \<open>\<open>SkipSpace\<close> of \<open>fmt.Sscanf\<close>; \<open>None\<close> is its error on a newline\<close>
  "skipSpace s =
     (if spaceAt s = 0 then Some s
      else if hd s = CHR 0x0A then None
      else skipSpace (drop (spaceAt s) s))"
  by pat_completeness auto
termination
proof (relation "measure length")
  fix s assume "spaceAt s \<noteq> 0"
  with spaceAt_le [of s] show "(drop (spaceAt s) s, s) \<in> measure length" by simp
qed simp

declare skipSpace.simps [simp del]

definition sscanfD :: "string \<Rightarrow> int" where
  \<comment> \<open>the \<open>n\<close> that \<open>fmt.Sscanf(t, "%d", &n)\<close> leaves, its error ignored\<close>
  "sscanfD s =
     (case skipSpace s of
        None \<Rightarrow> 0
      | Some t \<Rightarrow>
          let signed = t \<noteq> [] \<and> (hd t = CHR ''+'' \<or> hd t = CHR ''-'');
              digits = takeWhile is_digit (if signed then tl t else t) in
          if digits = [] then 0
          else case Atoi ((if signed then [hd t] else []) @ digits) of None \<Rightarrow> 0 | Some n \<Rightarrow> n)"

fun asInt :: "yaml \<Rightarrow> yval \<Rightarrow> int" where
  "asInt Y (YInt i) = i"
| "asInt Y (YInt64 i) = i"
| "asInt Y (YUint64 w) = sint w"
| "asInt Y (YFloat f) = y_trunc Y f"
| "asInt Y (YStr s) = sscanfD s"
| "asInt Y v = 0"

fun asBoolDefault :: "yval \<Rightarrow> bool \<Rightarrow> bool" where
  "asBoolDefault YNil def = def"
| "asBoolDefault (YBool b) def = b"
| "asBoolDefault (YStr t) def =
     (if t = [] then def
      else if t = ''false'' \<or> t = ''0'' then False
      else t = ''true'' \<or> t = ''1'')"
| "asBoolDefault v def = def"

definition asBool :: "yval \<Rightarrow> bool" where
  "asBool v = asBoolDefault v False"

fun first :: "yaml \<Rightarrow> ymap \<Rightarrow> string list \<Rightarrow> string" where
  "first Y m [] = []"
| "first Y m (k # ks) = (let s = str Y (yget m k) in if s \<noteq> [] then s else first Y m ks)"

definition clampPreconnect :: "int \<Rightarrow> int" where
  "clampPreconnect n = (if n < 0 then 0 else if n > 4 then 4 else n)"

definition preconnectOf :: "yaml \<Rightarrow> ymap \<Rightarrow> int" where
  "preconnectOf Y obfs =
     (case map_of obfs ''preconnect'' of
        None \<Rightarrow> 2
      | Some v \<Rightarrow> if v = YNil then 2 else clampPreconnect (asInt Y v))"

section \<open>Surge lines\<close>

type_synonym kv = "string \<rightharpoonup> string"

definition kvget :: "kv \<Rightarrow> string \<Rightarrow> string" where
  "kvget kv k = (case kv k of None \<Rightarrow> [] | Some v \<Rightarrow> v)"

fun firstKV :: "kv \<Rightarrow> string list \<Rightarrow> string" where
  "firstKV kv [] = []"
| "firstKV kv (k # ks) = (if kvget kv k \<noteq> [] then kvget kv k else firstKV kv ks)"

definition kvBoolDefault :: "kv \<Rightarrow> string \<Rightarrow> bool \<Rightarrow> bool" where
  "kvBoolDefault kv key def =
     (case kv key of None \<Rightarrow> def | Some v \<Rightarrow> asBoolDefault (YStr v) def)"

definition kvPreconnect :: "kv \<Rightarrow> int" where
  "kvPreconnect kv =
     (case kv ''preconnect'' of
        None \<Rightarrow> 2
      | Some v \<Rightarrow> if v = [] then 2 else clampPreconnect (sscanfD v))"

fun parseKV :: "string list \<Rightarrow> kv \<Rightarrow> kv" where
  "parseKV [] kv = kv"
| "parseKV (p # ps) kv =
     (case cut p ''='' of None \<Rightarrow> parseKV ps kv | Some (k, v) \<Rightarrow> parseKV ps (kv(k \<mapsto> v)))"

definition completeNode :: "node \<Rightarrow> bool" where
  \<comment> \<open>the fields both parsers insist on\<close>
  "completeNode n \<longleftrightarrow>
     \<not> (n_Name n = [] \<or> n_Server n = [] \<or> n_Port n = 0 \<or> n_PSK n = [] \<or> n_ECHConfig n = [])"

definition echTLS :: "kv \<Rightarrow> bool" where
  "echTLS kv \<longleftrightarrow>
     kvget kv ''obfs'' = ''ech-tls'' \<or> kvget kv ''obfs-mode'' = ''ech-tls'' \<or> kvget kv ''mode'' = ''ech-tls''
     \<or> kvget kv ''ech-config'' \<noteq> []"

definition surgeNode :: "string \<Rightarrow> string list \<Rightarrow> kv \<Rightarrow> node" where
  "surgeNode name parts kv =
     \<lparr>n_Name = name, n_Server = parts ! 1, n_Port = sscanfD (parts ! 2),
      n_PSK = firstKV kv [''psk'', ''psk-key''],
      n_SNI = firstKV kv [''obfs-host'', ''sni'', ''host''],
      n_ECHConfig = kvget kv ''ech-config'',
      n_ALPN = firstKV kv [''alpn''],
      n_Path = firstKV kv [''obfs-uri'', ''path'', ''obfs-path''],
      n_Fingerprint = firstKV kv [''client-fingerprint''],
      n_IdentityVersion = sscanfD (kvget kv ''identity-version''),
      n_SkipVerify = False,
      n_Reuse = kvBoolDefault kv ''reuse'' True,
      n_TFO = (kvget kv ''tfo'' = ''true'' \<or> kvget kv ''tfo'' = ''1''),
      n_UDP = (kvget kv ''udp'' = ''true'' \<or> kvget kv ''udp'' = ''1''),
      n_LegacyFallback = kvBoolDefault kv ''legacy-fallback'' True,
      n_Preconnect = kvPreconnect kv,
      n_DNS = [], n_DialIP = []\<rparr>"

definition parseSurgeLine :: "string \<Rightarrow> node option" where
  "parseSurgeLine s =
     (case cut s '' = '' of
        None \<Rightarrow> None
      | Some (name, rest) \<Rightarrow>
          let parts = splitCSV rest in
          if length parts < 4 \<or> parts ! 0 \<noteq> ''snell'' then None
          else
            let kv = parseKV (drop 3 parts) Map.empty in
            if \<not> echTLS kv then None
            else let n = surgeNode name parts kv in if completeNode n then Some n else None)"

fun surgeLines :: "bool \<Rightarrow> string list \<Rightarrow> node list" where
  \<comment> \<open>the flag is \<open>inProxy\<close>\<close>
  "surgeLines inProxy [] = []"
| "surgeLines inProxy (line # ls) =
     (let s = trim line in
      if s = [] \<or> hd s = CHR ''#'' \<or> hd s = CHR '';'' then surgeLines inProxy ls
      else if hd s = CHR ''['' then surgeLines (s = ''[Proxy]'' \<or> s = ''[proxy]'') ls
      else if \<not> inProxy \<and> \<not> Contains s '' = snell,'' then surgeLines inProxy ls
      else case parseSurgeLine s of
             None \<Rightarrow> surgeLines inProxy ls
           | Some n \<Rightarrow> n # surgeLines inProxy ls)"

definition parseSurge :: "bytes \<Rightarrow> node list" where
  "parseSurge b = surgeLines False (splitLines (bytes_str b))"

section \<open>Clash nodes\<close>

datatype prof_err =
    YamlErr nat
  | Incomplete string
  | NoNodes
  | DuplicateName string
  | FilterErr string nat

definition obfsOpts :: "ymap \<Rightarrow> ymap" where
  "obfsOpts p = (case yget p ''obfs-opts'' of YMap m \<Rightarrow> m | _ \<Rightarrow> [])"

definition yamlNode :: "yaml \<Rightarrow> ymap \<Rightarrow> ymap \<Rightarrow> node" where
  "yamlNode Y p obfs =
     (let n =
        \<lparr>n_Name = str Y (yget p ''name''), n_Server = str Y (yget p ''server''),
         n_Port = asInt Y (yget p ''port''), n_PSK = str Y (yget p ''psk''),
         n_SNI = first Y obfs [''sni'', ''host''],
         n_ECHConfig = str Y (yget obfs ''ech-config''),
         n_ALPN = str Y (yget obfs ''alpn''),
         n_Path = str Y (yget obfs ''path''),
         n_Fingerprint = first Y obfs [''client-fingerprint''],
         n_IdentityVersion = asInt Y (yget obfs ''identity-version''),
         n_SkipVerify = (asBool (yget obfs ''skip-cert-verify'') \<or> asBool (yget obfs ''insecure'')),
         n_Reuse = asBoolDefault (yget p ''reuse'') True,
         n_TFO = asBool (yget p ''tfo''),
         n_UDP = asBool (yget p ''udp''),
         n_LegacyFallback = asBoolDefault (yget obfs ''legacy-fallback'') True,
         n_Preconnect = preconnectOf Y obfs,
         n_DNS = [], n_DialIP = []\<rparr>
      in if n_IdentityVersion n = 0 \<and> asBool (yget p ''identity'')
         then n\<lparr>n_IdentityVersion := 2\<rparr> else n)"

definition parseNode :: "yaml \<Rightarrow> ymap \<Rightarrow> prof_err + node option" where
  "parseNode Y p =
     (if str Y (yget p ''type'') \<noteq> ''snell'' then Inr None
      else
        let obfs = obfsOpts p in
        if str Y (yget obfs ''mode'') \<noteq> ''ech-tls'' then Inr None
        else let n = yamlNode Y p obfs in
          if completeNode n then Inr (Some n) else Inl (Incomplete (n_Name n)))"

fun parseNodes :: "yaml \<Rightarrow> ymap list \<Rightarrow> prof_err + node list" where
  "parseNodes Y [] = Inr []"
| "parseNodes Y (p # ps) =
     sbind (parseNode Y p) (\<lambda>r.
     sbind (parseNodes Y ps) (\<lambda>ns.
       Inr (case r of None \<Rightarrow> ns | Some n \<Rightarrow> n # ns)))"

definition parseYAML :: "yaml \<Rightarrow> bytes \<Rightarrow> prof_err + node list" where
  "parseYAML Y b =
     (case y_proxies Y b of
        Inl e \<Rightarrow> Inl (YamlErr e)
      | Inr ps \<Rightarrow>
          sbind (parseNodes Y ps) (\<lambda>out.
            if out = [] then Inl NoNodes else Inr (ApplyDNS (y_lower Y) out (ParseDNS Y b))))"

fun duplicateName :: "string set \<Rightarrow> node list \<Rightarrow> string option" where
  "duplicateName seen [] = None"
| "duplicateName seen (n # ns) =
     (if n_Name n \<in> seen then Some (n_Name n) else duplicateName (insert (n_Name n) seen) ns)"

definition uniqueNodeNames :: "node list \<Rightarrow> prof_err + node list" where
  \<comment> \<open>the error, or the nodes it was given\<close>
  "uniqueNodeNames nodes =
     (case duplicateName {} nodes of Some d \<Rightarrow> Inl (DuplicateName d) | None \<Rightarrow> Inr nodes)"

definition Parse :: "yaml \<Rightarrow> bytes \<Rightarrow> prof_err + node list" where
  "Parse Y b =
     (case parseYAML Y b of
        Inr nodes \<Rightarrow>
          if nodes \<noteq> [] then uniqueNodeNames nodes
          else if parseSurge b \<noteq> [] then uniqueNodeNames (parseSurge b) else Inl NoNodes
      | Inl _ \<Rightarrow> if parseSurge b \<noteq> [] then uniqueNodeNames (parseSurge b) else Inl NoNodes)"

section \<open>The name filter\<close>

type_synonym regex = "string \<Rightarrow> bool"  \<comment> \<open>\<open>MatchString\<close> of a compiled expression\<close>

fun compileParts :: "(string \<Rightarrow> nat + regex) \<Rightarrow> string list \<Rightarrow> prof_err + regex list" where
  "compileParts R [] = Inr []"
| "compileParts R (p # ps) =
     (let part = TrimSpace p in
      if part = [] then compileParts R ps
      else case R part of
             Inl e \<Rightarrow> Inl (FilterErr part e)
           | Inr re \<Rightarrow> sbind (compileParts R ps) (\<lambda>regs. Inr (re # regs)))"

definition compileFilter :: "(string \<Rightarrow> nat + regex) \<Rightarrow> string \<Rightarrow> prof_err + regex list" where
  "compileFilter R expr0 =
     (let expr = TrimSpace expr0 in
      if expr = [] then Inr [] else compileParts R (splitOn CHR ''`'' expr))"

fun filterOne :: "regex \<Rightarrow> node list \<Rightarrow> string set \<Rightarrow> node list \<times> string set" where
  "filterOne re [] seen = ([], seen)"
| "filterOne re (n # ns) seen =
     (if n_Name n \<in> seen then filterOne re ns seen
      else if re (n_Name n)
      then (let (out, seen') = filterOne re ns (insert (n_Name n) seen) in (n # out, seen'))
      else filterOne re ns seen)"

fun filterAll :: "regex list \<Rightarrow> node list \<Rightarrow> string set \<Rightarrow> node list" where
  "filterAll [] nodes seen = []"
| "filterAll (re # regs) nodes seen =
     (let (out, seen') = filterOne re nodes seen in out @ filterAll regs nodes seen')"

definition Filter :: "(string \<Rightarrow> nat + regex) \<Rightarrow> node list \<Rightarrow> string \<Rightarrow> prof_err + node list" where
  "Filter R nodes expr =
     sbind (compileFilter R expr) (\<lambda>regs.
       if regs = [] then Inr nodes else Inr (filterAll regs nodes {}))"

section \<open>What a parsed profile guarantees\<close>

definition usable_server :: "DNSServer \<Rightarrow> bool" where
  "usable_server d \<longleftrightarrow>
     (ds_network d = ''udp'' \<or> ds_network d = ''tcp'')
     \<and> (\<exists>host port. ds_addr d = JoinHostPort host port \<and> host \<noteq> [] \<and> Atoi port \<noteq> None)"

definition profile_node :: "node \<Rightarrow> bool" where
  "profile_node n \<longleftrightarrow>
     completeNode n \<and> 0 \<le> n_Preconnect n \<and> n_Preconnect n \<le> 4 \<and> n_DialIP n = []
     \<and> (\<forall>d \<in> set (n_DNS n). usable_server d)"

lemma clampPreconnect_bounds: "0 \<le> clampPreconnect i \<and> clampPreconnect i \<le> 4"
  by (simp add: clampPreconnect_def)

lemma preconnect_bounds:
  "0 \<le> preconnectOf Y m \<and> preconnectOf Y m \<le> 4" "0 \<le> kvPreconnect kv \<and> kvPreconnect kv \<le> 4"
  by (auto simp: preconnectOf_def kvPreconnect_def clampPreconnect_def split: option.splits)

lemma built_node_simps [simp]:
  "n_Preconnect (surgeNode name parts kv) = kvPreconnect kv" "n_DialIP (surgeNode name parts kv) = []"
  "n_DNS (surgeNode name parts kv) = []"
  "n_Preconnect (yamlNode Y p obfs) = preconnectOf Y obfs" "n_DialIP (yamlNode Y p obfs) = []"
  "n_DNS (yamlNode Y p obfs) = []"
  by (simp_all add: surgeNode_def yamlNode_def Let_def)

lemma parseSurgeLine_complete: "parseSurgeLine s = Some n \<Longrightarrow>
    completeNode n \<and> 0 \<le> n_Preconnect n \<and> n_Preconnect n \<le> 4 \<and> n_DialIP n = [] \<and> n_DNS n = []"
  by (auto simp: parseSurgeLine_def Let_def preconnect_bounds split: option.splits if_splits)

lemma parseSurgeLine_wf: "parseSurgeLine s = Some n \<Longrightarrow> profile_node n"
  using parseSurgeLine_complete [of s n] by (simp add: profile_node_def)

lemma surgeLines_wf: "n \<in> set (surgeLines i ls) \<Longrightarrow> profile_node n"
  by (induction i ls rule: surgeLines.induct)
    (auto simp: Let_def parseSurgeLine_wf split: if_splits option.splits)

lemma parseNode_wf: "parseNode Y p = Inr (Some n) \<Longrightarrow> profile_node n"
  by (auto simp: parseNode_def profile_node_def Let_def preconnect_bounds split: if_splits)

lemma parseNodes_wf: "parseNodes Y ps = Inr ns \<Longrightarrow> n \<in> set ns \<Longrightarrow> profile_node n"
  by (induction ps arbitrary: ns) (auto simp: sbind_eq_Inr parseNode_wf split: option.splits)

lemma parseServerList_usable: "d \<in> set (parseServerList Y v) \<Longrightarrow> usable_server d"
  using ParseNameserver_sound
  by (fastforce simp: parseServerList_def usable_server_def map_filter_def)

lemma rulesFromMap_usable: "r \<in> set (rulesFromMap Y m) \<Longrightarrow> d \<in> set (r_Servers r) \<Longrightarrow> usable_server d"
  by (auto simp: set_rulesFromMap ruleOf_def parseServerList_usable)

lemma Match_usable:
  assumes "d \<in> set (Match L (ParseDNS Y b) host)"
  shows "usable_server d"
proof -
  have rules: "usable_server d" if "r \<in> set (p_Policies (ParseDNS Y b))" "d \<in> set (r_Servers r)" for r
    using that rulesFromMap_usable by (auto simp: ParseDNS_def split: sum.splits option.splits)
  have fallback: "usable_server d" if "d \<in> set (p_Fallback (ParseDNS Y b))"
    using that parseServerList_usable by (auto simp: ParseDNS_def split: sum.splits option.splits)
  show ?thesis
    using assms rules [OF nth_mem] fallback
    by (auto simp: Match_def matchRules_find find_Some_iff split: option.splits)
qed

lemma ApplyDNS_wf:
  assumes "\<forall>n \<in> set ns. profile_node n" and "n \<in> set (ApplyDNS L ns (ParseDNS Y b))"
  shows "profile_node n"
  using assms Match_usable by (auto simp: ApplyDNS_def profile_node_def completeNode_def split: if_splits)

lemma parseYAML_wf: "parseYAML Y b = Inr ns \<Longrightarrow> n \<in> set ns \<Longrightarrow> profile_node n"
  by (auto simp: parseYAML_def sbind_eq_Inr split: sum.splits if_splits
      intro: ApplyDNS_wf [OF ballI] parseNodes_wf)

lemma duplicateName_None:
  "duplicateName seen ns = None \<longleftrightarrow> distinct (map n_Name ns) \<and> n_Name ` set ns \<inter> seen = {}"
  by (induction seen ns rule: duplicateName.induct) auto

lemma uniqueNodeNames_Inr: "uniqueNodeNames ns = Inr ms \<longleftrightarrow> ms = ns \<and> distinct (map n_Name ns)"
  using duplicateName_None [of "{}" ns] by (auto simp: uniqueNodeNames_def split: option.splits)

lemma Parse_fact:
  assumes "Parse Y b = Inr nodes"
  shows "nodes \<noteq> [] \<and> distinct (map n_Name nodes) \<and> (\<forall>n \<in> set nodes. profile_node n)"
  using assms parseYAML_wf surgeLines_wf
  by (auto simp: Parse_def uniqueNodeNames_Inr parseSurge_def split: sum.splits if_splits)


section \<open>The filter against a reference\<close>

definition chosen :: "regex list \<Rightarrow> nat \<Rightarrow> node \<Rightarrow> bool" where
  \<comment> \<open>expression \<open>i\<close> is the first one that matches the node\<close>
  "chosen regs i n \<longleftrightarrow> (regs ! i) (n_Name n) \<and> (\<forall>j < i. \<not> (regs ! j) (n_Name n))"

lemma filterOne_filter:
  "distinct (map n_Name ns) \<Longrightarrow>
   filterOne re ns seen =
     (filter (\<lambda>n. n_Name n \<notin> seen \<and> re (n_Name n)) ns,
      seen \<union> {n_Name n | n. n \<in> set ns \<and> re (n_Name n)})"
proof (induction re ns seen rule: filterOne.induct)
  case (2 re n ns seen)
  have ne: "n_Name m \<noteq> n_Name n" if "m \<in> set ns" for m
    using 2(4) that by (metis distinct.simps(2) image_eqI list.set_map list.simps(9))
  have "filter (\<lambda>m. n_Name m \<notin> insert (n_Name n) seen \<and> re (n_Name m)) ns
        = filter (\<lambda>m. n_Name m \<notin> seen \<and> re (n_Name m)) ns"
    by (intro filter_cong) (auto dest: ne)
  with 2 show ?case by auto
qed simp

lemma filterAll_reference:
  assumes "distinct (map n_Name nodes)"
  shows "filterAll regs nodes seen =
    concat (map (\<lambda>i. filter (\<lambda>n. n_Name n \<notin> seen \<and> chosen regs i n) nodes) [0..<length regs])"
proof (induction regs arbitrary: seen)
  case (Cons re regs)
  let ?seen = "seen \<union> {n_Name n | n. n \<in> set nodes \<and> re (n_Name n)}"
  have split: "[0..<length (re # regs)] = 0 # map Suc [0..<length regs]"
    by (simp add: upt_conv_Cons map_Suc_upt del: upt_Suc)
  have key: "(n_Name n \<notin> ?seen \<and> chosen regs i n) = (n_Name n \<notin> seen \<and> chosen (re # regs) (Suc i) n)"
    if "n \<in> set nodes" for n i
    using that by (auto simp: chosen_def less_Suc_eq_0_disj)
  have "filterAll (re # regs) nodes seen
        = filter (\<lambda>n. n_Name n \<notin> seen \<and> re (n_Name n)) nodes @ filterAll regs nodes ?seen"
    using filterOne_filter [OF assms] by simp
  also have "filterAll regs nodes ?seen
             = concat (map (\<lambda>i. filter (\<lambda>n. n_Name n \<notin> seen \<and> chosen (re # regs) (Suc i) n) nodes)
                         [0..<length regs])"
    unfolding Cons.IH by (intro arg_cong [where f = concat] map_cong refl filter_cong key)
  finally show ?case unfolding split by (simp add: chosen_def o_def)
qed simp

text \<open>
  C28. On nodes with distinct names (which \<open>Parse\<close> guarantees) the filter is the reference one:
  the nodes whose first matching expression is the first, in profile order, then those of the
  second, and so on; no expression at all keeps the list, and an invalid one is an error.
\<close>

theorem Filter_reference:
  assumes "distinct (map n_Name nodes)"
  shows "Filter R nodes expr =
    (case compileFilter R expr of
       Inl e \<Rightarrow> Inl e
     | Inr regs \<Rightarrow>
         Inr (if regs = [] then nodes
              else concat (map (\<lambda>i. filter (chosen regs i) nodes) [0..<length regs])))"
  using filterAll_reference [OF assms, of _ "{}"] by (simp add: Filter_def sbind_def split: sum.split)

section \<open>Examples\<close>

definition exampleNode :: ymap where
  "exampleNode =
     [(''name'', YStr ''hk''), (''type'', YStr ''snell''), (''server'', YStr ''h.example''),
      (''port'', YInt 443), (''psk'', YStr ''k''),
      (''obfs-opts'', YMap [(''mode'', YStr ''ech-tls''), (''ech-config'', YStr ''AAAA''),
        (''preconnect'', YInt 9)])]"

definition exampleProfile :: yaml where
  "exampleProfile =
     \<lparr>y_proxies = (\<lambda>_. Inr [exampleNode, [(''type'', YStr ''ss'')]]), y_dns = (\<lambda>_. Inr None),
      y_sprint = (\<lambda>_. []), y_trunc = int, y_lower = id\<rparr>"

lemma example_fields [simp]:
  "n_Name (yamlNode exampleProfile exampleNode (obfsOpts exampleNode)) = ''hk''"
  "n_Server (yamlNode exampleProfile exampleNode (obfsOpts exampleNode)) = ''h.example''"
  "n_Port (yamlNode exampleProfile exampleNode (obfsOpts exampleNode)) = 443"
  "n_PSK (yamlNode exampleProfile exampleNode (obfsOpts exampleNode)) = ''k''"
  "n_ECHConfig (yamlNode exampleProfile exampleNode (obfsOpts exampleNode)) = ''AAAA''"
  by (simp_all add: yamlNode_def Let_def exampleNode_def exampleProfile_def yget_def obfsOpts_def)

lemma example_parseNode:
  "parseNode exampleProfile exampleNode
   = Inr (Some (yamlNode exampleProfile exampleNode (obfsOpts exampleNode)))"
proof -
  have "str exampleProfile (yget exampleNode ''type'') = ''snell''"
    "str exampleProfile (yget (obfsOpts exampleNode) ''mode'') = ''ech-tls''"
    by (simp_all add: exampleNode_def yget_def obfsOpts_def)
  then show ?thesis by (simp add: parseNode_def completeNode_def Let_def)
qed

lemma example_parse:
  "Parse exampleProfile b = Inr [yamlNode exampleProfile exampleNode (obfsOpts exampleNode)]"
proof -
  have "y_proxies exampleProfile b = Inr [exampleNode, [(''type'', YStr ''ss'')]]"
    "parseNode exampleProfile [(''type'', YStr ''ss'')] = Inr None" "y_dns exampleProfile b = Inr None"
    by (simp_all add: exampleProfile_def parseNode_def yget_def)
  then show ?thesis
    by (simp add: Parse_def parseYAML_def example_parseNode ApplyDNS_def ParseDNS_def Match_def
        uniqueNodeNames_def)
qed


theorem Filter_reference_witness:
  "let n = yamlNode exampleProfile exampleNode (obfsOpts exampleNode);
       m = n\<lparr>n_Name := ''jp''\<rparr>; R = (\<lambda>p. Inr (\<lambda>s. s = p)) in
   Filter R [n, m] ''jp`hk'' =
     (case compileFilter R ''jp`hk'' of
        Inl e \<Rightarrow> Inl e
      | Inr regs \<Rightarrow>
          Inr (if regs = [] then [n, m]
               else concat (map (\<lambda>i. filter (chosen regs i) [n, m]) [0..<length regs])))"
  unfolding Let_def by (intro Filter_reference) simp

end
