(* ===== verification/Panel.thy ===== *)
theory Panel
  imports Profile Obf Emit
begin

text \<open>
  The panel client (\<open>internal/panel/panel.go\<close>, \<open>sign.go\<close>) and the age identity file
  (\<open>internal/identity/age.go\<close>): login, the signed download of the dedicated nodes, the Surge
  template with its fallbacks, decryption, and the limits on bodies. HTTP, JSON, URL parsing, age,
  the clock and SHA-256 are parameters; the client keeps a log of the requests it sent.
\<close>

section \<open>The outside\<close>

record http_out =
  ho_method :: string
  ho_url :: string
  ho_headers :: "(string \<times> string) list"
  ho_body :: string

record http_in =
  hi_status :: nat
  hi_header :: "string \<Rightarrow> string"
  hi_body :: source

record retwrap =
  rt_Ret :: bytes
  rt_Msg :: string
  rt_Smart :: string
  rt_Config :: bytes
  rt_Data :: bytes

record url =
  u_abs :: bool
  u_rawQuery :: string
  u_string :: "string \<Rightarrow> string"   \<comment> \<open>\<open>String()\<close> with this \<open>RawQuery\<close>\<close>

type_synonym ident = nat

record age =
  ag_read :: "string \<Rightarrow> string option"           \<comment> \<open>\<open>os.ReadFile\<close>\<close>
  ag_parse :: "string \<Rightarrow> nat + ident"            \<comment> \<open>\<open>age.ParseX25519Identity\<close>\<close>
  ag_generate :: "nat + ident"
  ag_recipient :: "ident \<Rightarrow> string"
  ag_string :: "ident \<Rightarrow> string"
  ag_mkdirAll :: "string \<Rightarrow> nat option"
  ag_write :: "string \<Rightarrow> string \<Rightarrow> nat option"
  ag_dir :: "string \<Rightarrow> string"
  ag_decrypt :: "ident \<Rightarrow> bool \<Rightarrow> bytes \<Rightarrow> nat + bytes"  \<comment> \<open>the flag: through the armor reader\<close>

record panel_env =
  pe_do :: "http_out \<Rightarrow> nat + http_in"          \<comment> \<open>\<open>NewRequest\<close> and \<open>HTTP.Do\<close>\<close>
  pe_wrap :: "bytes \<Rightarrow> retwrap option"          \<comment> \<open>\<open>json.Unmarshal\<close> into the answer\<close>
  pe_int :: "bytes \<Rightarrow> int option"
  pe_string :: "bytes \<Rightarrow> string option"
  pe_inner :: "bytes \<Rightarrow> (bytes \<times> string) option"  \<comment> \<open>\<open>config\<close> and \<open>smart\<close> of \<open>data\<close>\<close>
  pe_url :: "string \<Rightarrow> url option"
  pe_now :: int
  pe_home :: string
  pe_join :: "string \<Rightarrow> string \<Rightarrow> string"
  pe_sha256 :: "bytes \<Rightarrow> bytes"
  pe_yaml :: yaml
  pe_age :: age

datatype panel_err =
    HttpErr nat
  | BodyErr io_err
  | BodyTooLong
  | PanelHTTP nat string
  | LoginErr panel_err
  | AuthFailed int string
  | NoNodes
  | IdentityErr nat
  | IdentityPathEmpty
  | AnywhereHTTP nat string
  | SigMismatch
  | Rejected int string
  | EmptySubscription
  | SubParse prof_err
  | SubDownload panel_err
  | SubHTTP nat
  | NoTemplateNodes
  | Joined "panel_err option" "panel_err option"

record panel =
  pc_Base :: string
  pc_Token :: string
  pc_OixParams :: string
  pc_SimpleRules :: bool
  pc_IdentityPath :: string
  pc_Template :: bytes
  pc_ident :: "ident option"
  pc_log :: "http_out list"   \<comment> \<open>the requests sent\<close>

section \<open>Signatures\<close>

definition hmac :: "(bytes \<Rightarrow> bytes) \<Rightarrow> bytes \<Rightarrow> bytes \<Rightarrow> bytes" where
  \<comment> \<open>HMAC with a 64-byte block over the hash \<open>H\<close>\<close>
  "hmac H key msg =
     (let k0 = (if 64 < length key then H key else key);
          k = k0 @ replicate (64 - length k0) 0;
          pad = (\<lambda>x. map (\<lambda>b. xor b x) k)
      in H (pad 0x5c @ H (pad 0x36 @ msg)))"

definition hexLower :: "bytes \<Rightarrow> string" where
  "hexLower bs = concat (map (\<lambda>b. [hex_char (unat b div 16), hex_char (unat b mod 16)]) bs)"

definition SignAnywhereKey :: "(bytes \<Rightarrow> bytes) \<Rightarrow> bytes \<Rightarrow> string \<Rightarrow> string \<Rightarrow> string" where
  "SignAnywhereKey H key timestamp payload =
     hexLower (hmac H key (str_bytes timestamp @ str_bytes ''.'' @ str_bytes payload))"

definition SignAnywhere :: "(bytes \<Rightarrow> bytes) \<Rightarrow> string \<Rightarrow> string \<Rightarrow> string \<Rightarrow> string" where
  "SignAnywhere H secret timestamp payload = SignAnywhereKey H (str_bytes secret) timestamp payload"

definition VerifyAnywhereKey :: "(bytes \<Rightarrow> bytes) \<Rightarrow> bytes \<Rightarrow> string \<Rightarrow> string \<Rightarrow> string \<Rightarrow> bool" where
  "VerifyAnywhereKey H key timestamp payload sig =
     (let want = SignAnywhereKey H key timestamp payload in
      if length want \<noteq> length sig then False else want = sig)"

definition VerifyAnywhere :: "(bytes \<Rightarrow> bytes) \<Rightarrow> string \<Rightarrow> string \<Rightarrow> string \<Rightarrow> string \<Rightarrow> bool" where
  "VerifyAnywhere H secret timestamp payload sig =
     VerifyAnywhereKey H (str_bytes secret) timestamp payload sig"

definition blobAppSecret :: string where
  "blobAppSecret = ''v2:FOOB/BGdy79vGP0h2xqgRlCSaGrlU7/eve3oGxBoEsDZIMtn84HlNw==''"
definition blobAnywhere :: string where
  "blobAnywhere = ''v2:7UHE0sBVsIHWqgb4E0GWuOnUHpMj9Yq0HbmzNQAzx1N14GCXtNjF''"
definition blobTS :: string where "blobTS = ''v2:JuFoMbIXMtklDGf3aOy/9yn6qd4d+bV46NnAtQ==''"
definition blobSig :: string where "blobSig = ''v2:krDWnvot6EKI+LcgCv8cNdx+H1BwR1zxV9D/RQ==''"
definition blobAgePub :: string where "blobAgePub = ''v2:sy6ISWcFq8+zmuv4SVh2NM9eXmxWPfAlEF6f4GQ=''"
definition blobRespSig :: string where "blobRespSig = ''v2:6ZXEUFFYYY0hTyxqxMKLxHX9J6bRCAiy0bLORRMdXWaGcn7Oig==''"

record proto =
  pr_AppSecret :: string
  pr_Anywhere :: string
  pr_HdrTS :: string
  pr_HdrSig :: string
  pr_HdrAge :: string
  pr_HdrResp :: string

definition protoInit :: "(bytes \<Rightarrow> bytes) \<Rightarrow> proto" where
  \<comment> \<open>the decoding ends for a 32-byte digest, by \<open>Obf.ksLoop_blocks\<close>\<close>
  "protoInit H =
     (let dec = (\<lambda>s. the (Decode H s)) in
      \<lparr>pr_AppSecret = dec blobAppSecret, pr_Anywhere = dec blobAnywhere, pr_HdrTS = dec blobTS,
       pr_HdrSig = dec blobSig, pr_HdrAge = dec blobAgePub, pr_HdrResp = dec blobRespSig\<rparr>)"

definition DefaultBase :: string where "DefaultBase = ''https://oixcloud.com''"
definition anywhereHost :: string where "anywhereHost = ''https://oics.net''"
definition anywhereUA :: string where "anywhereUA = ''anywhere-surge-snell''"
definition maxPanelBody :: nat where "maxPanelBody = 8 * 2 ^ 20"

section \<open>Small functions\<close>

definition newPanel :: "string \<Rightarrow> panel" where
  "newPanel token =
     \<lparr>pc_Base = DefaultBase, pc_Token = token, pc_OixParams = [], pc_SimpleRules = False,
      pc_IdentityPath = [], pc_Template = [], pc_ident = None, pc_log = []\<rparr>"

definition TrimRightSlash :: "string \<Rightarrow> string" where
  "TrimRightSlash s = rev (dropWhile (\<lambda>c. c = CHR ''/'') (rev s))"

definition dedicatedBase :: "panel \<Rightarrow> string" where
  "dedicatedBase c =
     (if pc_Base c \<noteq> [] \<and> pc_Base c \<noteq> DefaultBase then TrimRightSlash (pc_Base c) else anywhereHost)"

definition truncate :: "bytes \<Rightarrow> nat \<Rightarrow> string" where
  "truncate b n = (if length b \<le> n then bytes_str b else bytes_str (take n b) @ ''...'')"

definition readLimitedBody :: "source \<Rightarrow> nat \<Rightarrow> panel_err + bytes" where
  \<comment> \<open>\<open>ReadAll\<close> stops at \<open>limit + 1\<close> bytes, before it can see what ends the body\<close>
  "readLimitedBody r limit =
     (let b = take (limit + 1) (src_data r) in
      if length b < limit + 1 \<and> src_end r \<noteq> EOF then Inl (BodyErr (src_end r))
      else if limit < length b then Inl BodyTooLong
      else Inr b)"

definition rawQueryParam :: "string \<Rightarrow> string \<Rightarrow> string" where
  "rawQueryParam raw key =
     (case find (\<lambda>part. case Cut part ''='' of (k, _, ok) \<Rightarrow> ok \<and> k = key) (splitOn CHR ''&'' raw) of
        None \<Rightarrow> []
      | Some part \<Rightarrow> fst (snd (Cut part ''='')))"

fun largest :: "(bytes \<Rightarrow> bytes \<Rightarrow> bool) \<Rightarrow> bytes list \<Rightarrow> bytes \<Rightarrow> bytes" where
  \<comment> \<open>the two loops of \<open>pickTemplate\<close>: \<open>better b best\<close> replaces the best so far\<close>
  "largest better [] best = best"
| "largest better (b # bs) best = largest better bs (if better b best then b else best)"

definition looksSurge :: "bytes \<Rightarrow> bool" where
  "looksSurge b = looksLikeSurge (bytes_str b)"

definition pickTemplate :: "bytes list \<Rightarrow> bytes \<Rightarrow> bytes" where
  "pickTemplate bodies fallback =
     (let best = largest (\<lambda>b best. looksSurge b \<and> length best \<le> length b) bodies [] in
      if best \<noteq> [] then best
      else if looksSurge fallback then fallback
      else let best2 = largest (\<lambda>b best. length best < length b) bodies best in
        if best2 \<noteq> [] then best2 else fallback)"

definition jsonField :: "panel_env \<Rightarrow> bytes \<Rightarrow> bytes option" where
  \<comment> \<open>a raw field: absent or null, a string, or any other JSON text\<close>
  "jsonField E raw =
     (if raw \<noteq> [] \<and> bytes_str raw \<noteq> ''null''
      then Some (case pe_string E raw of Some s \<Rightarrow> str_bytes s | None \<Rightarrow> raw)
      else None)"

definition decodeRet :: "panel_env \<Rightarrow> bytes \<Rightarrow> int \<times> string \<times> string \<times> bytes option" where
  "decodeRet E b =
     (case pe_wrap E b of
        None \<Rightarrow> (0, [], [], None)
      | Some w \<Rightarrow>
          let ret = (case pe_int E (rt_Ret w) of
                       Some i \<Rightarrow> i
                     | None \<Rightarrow> sscanfD (case pe_string E (rt_Ret w) of Some s \<Rightarrow> s | None \<Rightarrow> []));
              cfg = jsonField E (rt_Config w) in
          if cfg = None \<and> rt_Data w \<noteq> [] then
            (case pe_inner E (rt_Data w) of
               None \<Rightarrow> (ret, rt_Msg w, rt_Smart w, None)
             | Some (icfg, ismart) \<Rightarrow>
                 (ret, rt_Msg w, if ismart \<noteq> [] \<and> rt_Smart w = [] then ismart else rt_Smart w,
                  jsonField E icfg))
          else (ret, rt_Msg w, rt_Smart w, cfg))"

section \<open>Forms\<close>

type_synonym form = "(string \<times> string) list"

definition formSet :: "string \<Rightarrow> string \<Rightarrow> form \<Rightarrow> form" where
  "formSet k v f = (k, v) # filter (\<lambda>kv. fst kv \<noteq> k) f"

definition queryEscape :: "string \<Rightarrow> string" where
  \<comment> \<open>\<open>url.QueryEscape\<close>\<close>
  "queryEscape s = concat (map (\<lambda>c. if c = CHR '' '' then ''+'' else urlEscape {} [c]) s)"

definition formEncode :: "form \<Rightarrow> string" where
  "formEncode f =
     joinWith ''&'' (map (\<lambda>(k, v). queryEscape k @ ''='' @ queryEscape v) (sort_key fst f))"

fun addParams :: "string list \<Rightarrow> form \<Rightarrow> form" where
  "addParams [] f = f"
| "addParams (part # ps) f =
     (case Cut part ''='' of (k, v, ok) \<Rightarrow>
        addParams ps (if ok \<and> k \<noteq> [] \<and> k \<noteq> ''clash'' then formSet k v f else f))"

definition surgeForm :: "panel \<Rightarrow> form" where
  "surgeForm c =
     (let f1 = formSet ''access_token'' (pc_Token c) (formSet ''external-proxy-program'' ''true'' []);
          f2 = (if pc_SimpleRules c then formSet ''simplerules'' ''true'' f1 else f1) in
      if pc_OixParams c \<noteq> [] then addParams (splitOn CHR ''&'' (pc_OixParams c)) f2 else f2)"

section \<open>Requests\<close>

definition exchange :: "panel_env \<Rightarrow> http_out \<Rightarrow> panel \<Rightarrow> (panel_err + http_in) \<times> panel" where
  "exchange E req c =
     ((case pe_do E req of Inl e \<Rightarrow> Inl (HttpErr e) | Inr r \<Rightarrow> Inr r), c\<lparr>pc_log := pc_log c @ [req]\<rparr>)"

definition bearer :: "panel \<Rightarrow> string \<times> string" where
  "bearer c = (''Authorization'', ''Bearer '' @ pc_Token c)"

definition postForm :: "panel_env \<Rightarrow> string \<Rightarrow> form \<Rightarrow> panel \<Rightarrow> (panel_err + bytes) \<times> panel" where
  "postForm E path form c =
     ebind (exchange E
         \<lparr>ho_method = ''POST'', ho_url = dedicatedBase c @ path,
          ho_headers = [bearer c, (''Content-Type'', ''application/x-www-form-urlencoded; charset=utf-8''),
            (''Accept'', ''application/json''), (''Accept-Language'', ''en''), (''User-Agent'', anywhereUA)],
          ho_body = formEncode form\<rparr>)
       (\<lambda>resp c.
         (sbind (readLimitedBody (hi_body resp) maxPanelBody) (\<lambda>b.
            if 400 \<le> hi_status resp then Inl (PanelHTTP (hi_status resp) (truncate b 200)) else Inr b), c)) c"

definition Login :: "panel_env \<Rightarrow> panel \<Rightarrow> (panel_err + unit) \<times> panel" where
  "Login E c =
     (case postForm E ''/api/v1/information'' (formSet ''access_token'' (pc_Token c) []) c of
        (Inl e, c) \<Rightarrow> (Inl (LoginErr e), c)
      | (Inr b, c) \<Rightarrow>
          (case decodeRet E b of (ret, msg, _, _) \<Rightarrow>
             (if ret \<noteq> 200 then Inl (AuthFailed ret msg) else Inr (), c)))"

definition panelGet :: "panel_env \<Rightarrow> string \<Rightarrow> panel \<Rightarrow> (panel_err + bytes) \<times> panel" where
  \<comment> \<open>no credentials on the subscription download\<close>
  "panelGet E rawURL =
     ebind (exchange E \<lparr>ho_method = ''GET'', ho_url = rawURL, ho_headers = [(''User-Agent'', anywhereUA)], ho_body = []\<rparr>)
       (\<lambda>resp c.
         (sbind (readLimitedBody (hi_body resp) maxPanelBody) (\<lambda>b.
            if 400 \<le> hi_status resp then Inl (SubHTTP (hi_status resp)) else Inr b), c))"

definition getSigned :: "panel_env \<Rightarrow> string \<Rightarrow> string \<Rightarrow> string \<Rightarrow> panel \<Rightarrow> (panel_err + bytes \<times> (string \<Rightarrow> string)) \<times> panel" where
  "getSigned E path ts pub c =
     (let pr = protoInit (pe_sha256 E) in
      ebind (exchange E
         \<lparr>ho_method = ''GET'', ho_url = dedicatedBase c @ path,
          ho_headers = [bearer c, (''Accept'', ''application/json''), (''Accept-Language'', ''en''),
            (''User-Agent'', anywhereUA), (pr_HdrTS pr, ts), (pr_HdrAge pr, pub),
            (pr_HdrSig pr, SignAnywhere (pe_sha256 E) (pr_AppSecret pr) ts pub)],
          ho_body = []\<rparr>)
       (\<lambda>resp c.
         (sbind (readLimitedBody (hi_body resp) maxPanelBody) (\<lambda>b.
            if 400 \<le> hi_status resp then Inl (AnywhereHTTP (hi_status resp) (truncate b 200))
            else Inr (b, hi_header resp)), c)) c)"

section \<open>The age identity\<close>

definition armorBegin :: string where "armorBegin = ''-----BEGIN AGE ENCRYPTED FILE-----''"

fun identityLine :: "string list \<Rightarrow> string option" where
  \<comment> \<open>the first line that is neither blank nor a comment\<close>
  "identityLine [] = None"
| "identityLine (l # ls) =
     (let t = TrimSpace l in if t = [] \<or> HasPrefix t ''#'' then identityLine ls else Some t)"

definition createAge :: "age \<Rightarrow> string \<Rightarrow> panel_err + ident" where
  "createAge A path =
     (case ag_generate A of
        Inl e \<Rightarrow> Inl (IdentityErr e)
      | Inr i \<Rightarrow>
          (case ag_mkdirAll A (ag_dir A path) of
             Some e \<Rightarrow> Inl (IdentityErr e)
           | None \<Rightarrow>
               let body = ''# created by oixproxy'' @ nl @ ''# public key: '' @ ag_recipient A i @ nl
                          @ ag_string A i @ nl in
               (case ag_write A path body of Some e \<Rightarrow> Inl (IdentityErr e) | None \<Rightarrow> Inr i)))"

definition LoadOrCreateAge :: "age \<Rightarrow> string \<Rightarrow> panel_err + ident" where
  "LoadOrCreateAge A path =
     (if path = [] then Inl IdentityPathEmpty
      else case (case ag_read A path of None \<Rightarrow> None | Some b \<Rightarrow> identityLine (splitOn CHR 0x0A b)) of
             Some line \<Rightarrow> (case ag_parse A line of Inl e \<Rightarrow> Inl (IdentityErr e) | Inr i \<Rightarrow> Inr i)
           | None \<Rightarrow> createAge A path)"

definition DecryptAge :: "age \<Rightarrow> ident \<Rightarrow> bytes \<Rightarrow> nat + bytes" where
  "DecryptAge A i ciphertext = ag_decrypt A i (Contains (bytes_str ciphertext) armorBegin) ciphertext"

definition ensureIdentity :: "panel_env \<Rightarrow> panel \<Rightarrow> (panel_err + unit) \<times> panel" where
  "ensureIdentity E c =
     (if pc_ident c \<noteq> None then (Inr (), c)
      else
        let path = (if pc_IdentityPath c = []
                    then pe_join E (pe_home E) ''.config/oixcloud-external-proxy-program/.identity''
                    else pc_IdentityPath c) in
        case LoadOrCreateAge (pe_age E) path of
          Inl e \<Rightarrow> (Inl e, c)
        | Inr i \<Rightarrow> (Inr (), c\<lparr>pc_ident := Some i, pc_IdentityPath := path\<rparr>))"

definition agePub :: "panel_env \<Rightarrow> panel \<Rightarrow> string" where
  "agePub E c = (case pc_ident c of None \<Rightarrow> [] | Some i \<Rightarrow> ag_recipient (pe_age E) i)"

definition tryDecrypt :: "panel_env \<Rightarrow> ident option \<Rightarrow> bytes \<Rightarrow> bytes option" where
  "tryDecrypt E i b =
     (case i of
        None \<Rightarrow> None
      | Some i \<Rightarrow>
          (case DecryptAge (pe_age E) i b of
             Inl _ \<Rightarrow> None
           | Inr out \<Rightarrow> if out \<noteq> [] then Some out else None))"

definition maybeBase64 :: "panel_env \<Rightarrow> ident option \<Rightarrow> string \<Rightarrow> bytes option" where
  \<comment> \<open>the second half of \<open>maybeDecrypt\<close>: a base64 text of an age file or of a profile\<close>
  "maybeBase64 E i s =
     (let compact = filter (\<lambda>c. \<not> (c = CHR 0x0A \<or> c = CHR 0x0D \<or> c = CHR '' '' \<or> c = CHR 0x09)) s in
      case (case b64_decode compact of None \<Rightarrow> b64_raw_decode compact | Some r \<Rightarrow> Some r) of
        None \<Rightarrow> None
      | Some rs \<Rightarrow>
          if length rs \<le> 16 then None
          else
            let raw = str_bytes rs;
                dec = (if Contains rs ''age-encryption.org/v1'' \<or> Contains rs ''-----BEGIN AGE''
                       then tryDecrypt E i raw else None) in
            case dec of
              Some out \<Rightarrow> Some out
            | None \<Rightarrow> (case Parse (pe_yaml E) raw of Inr _ \<Rightarrow> Some raw | Inl _ \<Rightarrow> None))"

definition maybeDecrypt :: "panel_env \<Rightarrow> ident option \<Rightarrow> bytes \<Rightarrow> bytes" where
  "maybeDecrypt E i b =
     (let s = TrimSpace (bytes_str b) in
      if s = [] then b
      else
        let dec = (if Contains s armorBegin \<or> HasPrefix s ''age-encryption.org/v1''
                   then tryDecrypt E i (str_bytes s) else None) in
        case dec of
          Some out \<Rightarrow> out
        | None \<Rightarrow> (case maybeBase64 E i s of Some out \<Rightarrow> out | None \<Rightarrow> b))"

section \<open>Nodes and template\<close>

fun firstNodes :: "panel_env \<Rightarrow> ident option \<Rightarrow> bytes list \<Rightarrow> node list option" where
  "firstNodes E i [] = None"
| "firstNodes E i (raw # rs) =
     (case Parse (pe_yaml E) (maybeDecrypt E i raw) of Inr ns \<Rightarrow> Some ns | Inl _ \<Rightarrow> firstNodes E i rs)"

definition nodesFromBody :: "panel_env \<Rightarrow> ident option \<Rightarrow> bytes \<Rightarrow> panel_err + node list" where
  "nodesFromBody E i b =
     (case decodeRet E b of
        (ret, msg, _, cfg) \<Rightarrow>
          if ret \<noteq> 0 \<and> ret \<noteq> 200 then Inl (Rejected ret msg)
          else case firstNodes E i ((case cfg of None \<Rightarrow> [] | Some x \<Rightarrow> [x]) @ [b]) of
                 None \<Rightarrow> Inl NoNodes
               | Some ns \<Rightarrow> Inr ns)"

definition sigAccepted :: "panel_env \<Rightarrow> string \<Rightarrow> string \<Rightarrow> bytes \<Rightarrow> bytes option \<Rightarrow> bool" where
  \<comment> \<open>the signature covers the body or the configuration in it\<close>
  "sigAccepted E ts sig b cfg \<longleftrightarrow>
     (let secret = pr_AppSecret (protoInit (pe_sha256 E)) in
      VerifyAnywhere (pe_sha256 E) secret ts (bytes_str b) sig
      \<or> (case cfg of None \<Rightarrow> False | Some x \<Rightarrow> VerifyAnywhere (pe_sha256 E) secret ts (bytes_str x) sig))"

definition fetchAnywhere :: "panel_env \<Rightarrow> panel \<Rightarrow> (panel_err + node list) \<times> panel" where
  "fetchAnywhere E =
     ebind (ensureIdentity E) (\<lambda>_ c.
       let ts = Itoa (pe_now E); pr = protoInit (pe_sha256 E) in
       ebind (getSigned E (pr_Anywhere pr @ ''?mode=premium'') ts (agePub E c)) (\<lambda>(b, hdr) c.
         (case decodeRet E b of
            (_, _, _, cfg) \<Rightarrow>
              let sig = hdr (pr_HdrResp pr) in
              if sig \<noteq> [] \<and> \<not> sigAccepted E ts sig b cfg then Inl SigMismatch
              else nodesFromBody E (pc_ident c) b, c)) c)"

definition dedicatedDownloadURL :: "panel_env \<Rightarrow> panel \<Rightarrow> string \<Rightarrow> string" where
  "dedicatedDownloadURL E c smart =
     (case (case pe_url E smart of
              None \<Rightarrow> None
            | Some u \<Rightarrow> if u_abs u then Some u else pe_url E (dedicatedBase c @ smart)) of
        None \<Rightarrow> []
      | Some u \<Rightarrow>
          let ded = rawQueryParam (u_rawQuery u) ''dedicated_access'' in
          if ded = [] then u_string u (u_rawQuery u)
          else u_string u (''external-proxy-program=true&''
                 @ (if pc_SimpleRules c then ''simplerules=true&'' else [])
                 @ ''dedicated_access='' @ ded))"

fun firstBody :: "panel_env \<Rightarrow> bytes list \<Rightarrow> (node list \<times> bytes) option" where
  "firstBody E [] = None"
| "firstBody E (b # bs) =
     (case Parse (pe_yaml E) b of Inr ns \<Rightarrow> Some (ns, b) | Inl _ \<Rightarrow> firstBody E bs)"

type_synonym tmpl_result = "(panel_err option \<times> node list) \<times> bytes"

definition templateNoURL :: "panel_env \<Rightarrow> bytes list \<Rightarrow> bytes \<Rightarrow> tmpl_result" where
  \<comment> \<open>\<open>smart == ""\<close>; the body itself has not parsed when this is reached\<close>
  "templateNoURL E bodies b =
     (case firstBody E bodies of
        Some (ns, body) \<Rightarrow> ((None, ns), pickTemplate bodies body)
      | None \<Rightarrow>
          (case Parse (pe_yaml E) b of
             Inr ns \<Rightarrow> ((None, ns), b)
           | Inl _ \<Rightarrow> ((Some EmptySubscription, []), pickTemplate bodies b)))"

definition templateEnd :: "panel_env \<Rightarrow> bytes list \<Rightarrow> bytes \<Rightarrow> panel_err option \<Rightarrow> tmpl_result" where
  "templateEnd E bodies b downloadErr =
     (let tmpl = pickTemplate bodies b in
      case Parse (pe_yaml E) tmpl of
        Inr ns \<Rightarrow> ((None, ns), tmpl)
      | Inl _ \<Rightarrow>
          ((Some (case downloadErr of Some e \<Rightarrow> e | None \<Rightarrow> NoTemplateNodes), []), tmpl))"

definition templateDownload :: "panel_env \<Rightarrow> bytes list \<Rightarrow> bytes \<Rightarrow> string \<Rightarrow> panel \<Rightarrow> tmpl_result \<times> panel" where
  "templateDownload E bodies b smart c =
     (let dl = dedicatedDownloadURL E c smart in
      if dl = [] then (templateEnd E bodies b None, c)
      else case panelGet E dl c of
             (Inl e, c) \<Rightarrow> (templateEnd E bodies b (Some (SubDownload e)), c)
           | (Inr body, c) \<Rightarrow>
               (case Parse (pe_yaml E) body of
                  Inr ns \<Rightarrow> (((None, ns), pickTemplate (bodies @ [body]) body), c)
                | Inl e \<Rightarrow> (templateEnd E (bodies @ [body]) b (Some (SubParse e)), c)))"

definition fetchSurgeTemplate :: "panel_env \<Rightarrow> panel \<Rightarrow> tmpl_result \<times> panel" where
  "fetchSurgeTemplate E c =
     (case postForm E ''/api/v1/managed/surge'' (surgeForm c) c of
        (Inl e, c) \<Rightarrow> (((Some e, []), []), c)
      | (Inr b, c) \<Rightarrow>
          (case decodeRet E b of
             (ret, msg, smart, configField) \<Rightarrow>
               if ret \<noteq> 200 then (((Some (Rejected ret msg), []), []), c)
               else
                 let bodies = (case configField of None \<Rightarrow> [] | Some x \<Rightarrow> [maybeDecrypt E (pc_ident c) x]) in
                 case Parse (pe_yaml E) b of
                   Inr ns \<Rightarrow> (((None, ns), pickTemplate bodies b), c)
                 | Inl _ \<Rightarrow>
                     if smart = [] then (templateNoURL E bodies b, c)
                     else templateDownload E bodies b smart c))"

definition chooseNodes ::
  "panel_env \<Rightarrow> panel_err + node list \<Rightarrow> tmpl_result \<Rightarrow> (panel_err + node list) \<times> bytes" where
  \<comment> \<open>the end of \<open>Fetch\<close>\<close>
  "chooseNodes E anywhere t =
     (case t of ((tmplErr, tmplNodes), tmpl) \<Rightarrow>
        let own = (case anywhere of Inr ns \<Rightarrow> ns | Inl _ \<Rightarrow> []);
            anywhereErr = (case anywhere of Inl e \<Rightarrow> Some e | Inr _ \<Rightarrow> None);
            nodes = (if own = [] then tmplNodes else own) in
        (if nodes = [] then
           (if anywhereErr \<noteq> None \<or> tmplErr \<noteq> None then Inl (Joined anywhereErr tmplErr) else Inl NoNodes)
         else Inr (ApplyDNS (y_lower (pe_yaml E)) nodes (ParseDNS (pe_yaml E) tmpl)), tmpl))"

definition Fetch :: "panel_env \<Rightarrow> panel \<Rightarrow> ((panel_err + node list) \<times> bytes) \<times> panel" where
  "Fetch E c =
     (case Login E c of
        (Inl e, c) \<Rightarrow> ((Inl e, []), c)
      | (Inr _, c) \<Rightarrow>
          (case fetchAnywhere E c of
             (anywhere, c) \<Rightarrow>
               (case fetchSurgeTemplate E c of (t, c) \<Rightarrow> (chooseNodes E anywhere t, c))))"

definition FetchDedicatedNodes :: "panel_env \<Rightarrow> panel \<Rightarrow> (panel_err + node list) \<times> panel" where
  "FetchDedicatedNodes E c =
     (case Fetch E c of ((r, tmpl), c) \<Rightarrow> (r, c\<lparr>pc_Template := tmpl\<rparr>))"

definition FetchDedicated :: "panel_env \<Rightarrow> panel \<Rightarrow> (panel_err + bytes) \<times> panel" where
  "FetchDedicated E c =
     (case Fetch E c of
        ((Inl e, tmpl), c) \<Rightarrow> (Inl e, c)
      | ((Inr ns, tmpl), c) \<Rightarrow>
          let c = c\<lparr>pc_Template := tmpl\<rparr> in
          if ns = [] then (Inl NoNodes, c) else (Inr tmpl, c))"

section \<open>What is sent\<close>

definition grows :: "panel \<Rightarrow> panel \<Rightarrow> http_out list \<Rightarrow> bool" where
  \<comment> \<open>\<open>new\<close> was sent and the configuration is the same\<close>
  "grows c c' new \<longleftrightarrow>
     pc_log c' = pc_log c @ new \<and> pc_Base c' = pc_Base c \<and> pc_Token c' = pc_Token c
     \<and> pc_OixParams c' = pc_OixParams c \<and> pc_SimpleRules c' = pc_SimpleRules c"

definition to_panel :: "panel \<Rightarrow> http_out \<Rightarrow> bool" where
  "to_panel c q \<longleftrightarrow> HasPrefix (ho_url q) (dedicatedBase c) \<and> bearer c \<in> set (ho_headers q)"

definition anonymous :: "http_out \<Rightarrow> bool" where
  "anonymous q \<longleftrightarrow> ho_method q = ''GET'' \<and> ho_headers q = [(''User-Agent'', anywhereUA)] \<and> ho_body q = []"

definition loginRequest :: "panel \<Rightarrow> http_out \<Rightarrow> bool" where
  "loginRequest c q \<longleftrightarrow>
     to_panel c q \<and> ho_url q = dedicatedBase c @ ''/api/v1/information''
     \<and> ho_body q = formEncode (formSet ''access_token'' (pc_Token c) [])"

definition discreet :: "panel \<Rightarrow> http_out \<Rightarrow> bool" where
  "discreet c q \<longleftrightarrow>
     to_panel c q \<and> (\<exists>form. ho_body q = [] \<or> ho_body q = formEncode form \<and> ''clash'' \<notin> fst ` set form)
     \<or> anonymous q"

lemma grows_refl: "grows c c []"
  by (simp add: grows_def)

lemma grows_trans: "grows c c1 a \<Longrightarrow> grows c1 c2 b \<Longrightarrow> grows c c2 (a @ b)"
  by (simp add: grows_def)

lemma grows_same:
  assumes "grows c c' new"
  shows "dedicatedBase c' = dedicatedBase c \<and> bearer c' = bearer c \<and> surgeForm c' = surgeForm c
     \<and> to_panel c' = to_panel c \<and> discreet c' = discreet c \<and> loginRequest c' = loginRequest c"
proof -
  have eq: "pc_Base c' = pc_Base c" "pc_Token c' = pc_Token c" "pc_OixParams c' = pc_OixParams c"
    "pc_SimpleRules c' = pc_SimpleRules c" using assms by (simp_all add: grows_def)
  have a: "dedicatedBase c' = dedicatedBase c" by (simp only: dedicatedBase_def eq)
  have b: "bearer c' = bearer c" by (simp only: bearer_def eq)
  have t: "to_panel c' = to_panel c" by (intro ext) (simp only: to_panel_def a b)
  have "surgeForm c' = surgeForm c" by (simp only: surgeForm_def eq)
  moreover have "discreet c' = discreet c" by (intro ext) (simp only: discreet_def t)
  moreover have "loginRequest c' = loginRequest c" by (intro ext) (simp only: loginRequest_def t a eq)
  ultimately show ?thesis using a b t by blast
qed

lemma formSet_clash: "k \<noteq> ''clash'' \<Longrightarrow> ''clash'' \<notin> fst ` set f \<Longrightarrow> ''clash'' \<notin> fst ` set (formSet k v f)"
  by (auto simp: formSet_def)

lemma addParams_clash: "''clash'' \<notin> fst ` set f \<Longrightarrow> ''clash'' \<notin> fst ` set (addParams ps f)"
proof (induction ps arbitrary: f)
  case (Cons part ps)
  obtain k v ok where "Cut part ''='' = (k, v, ok)" by (metis prod_cases3)
  then show ?case using Cons formSet_clash by simp
qed simp

lemma surgeForm_clash: "''clash'' \<notin> fst ` set (surgeForm c)"
  unfolding surgeForm_def Let_def by (simp add: addParams_clash formSet_clash)

lemma exchange_sends: "exchange E q c = (r, c') \<Longrightarrow> grows c c' [q]"
  by (auto simp: exchange_def grows_def)

lemma postForm_sends:
  assumes "postForm E path form c = (r, c')"
  shows "\<exists>q. grows c c' [q] \<and> to_panel c q \<and> ho_url q = dedicatedBase c @ path \<and> ho_body q = formEncode form"
proof -
  let ?q = "\<lparr>ho_method = ''POST'', ho_url = dedicatedBase c @ path,
     ho_headers = [bearer c, (''Content-Type'', ''application/x-www-form-urlencoded; charset=utf-8''),
       (''Accept'', ''application/json''), (''Accept-Language'', ''en''), (''User-Agent'', anywhereUA)],
     ho_body = formEncode form\<rparr>"
  obtain x c1 where x: "exchange E ?q c = (x, c1)" by (cases "exchange E ?q c")
  with assms have "c' = c1" by (auto simp: postForm_def ebind_def split: sum.splits)
  with exchange_sends [OF x] show ?thesis by (intro exI [of _ ?q]) (simp add: to_panel_def)
qed

lemma panelGet_sends: "panelGet E u c = (r, c') \<Longrightarrow> \<exists>q. grows c c' [q] \<and> anonymous q"
proof -
  assume a: "panelGet E u c = (r, c')"
  let ?q = "\<lparr>ho_method = ''GET'', ho_url = u, ho_headers = [(''User-Agent'', anywhereUA)], ho_body = []\<rparr>"
  obtain x c1 where x: "exchange E ?q c = (x, c1)" by (cases "exchange E ?q c")
  with a have "c' = c1" by (auto simp: panelGet_def ebind_def split: sum.splits)
  with exchange_sends [OF x] show ?thesis by (intro exI [of _ ?q]) (simp add: anonymous_def)
qed

lemma getSigned_sends:
  assumes "getSigned E path ts pub c = (r, c')"
  shows "\<exists>q. grows c c' [q] \<and> to_panel c q \<and> ho_body q = []"
proof -
  let ?pr = "protoInit (pe_sha256 E)"
  let ?q = "\<lparr>ho_method = ''GET'', ho_url = dedicatedBase c @ path,
     ho_headers = [bearer c, (''Accept'', ''application/json''), (''Accept-Language'', ''en''),
       (''User-Agent'', anywhereUA), (pr_HdrTS ?pr, ts), (pr_HdrAge ?pr, pub),
       (pr_HdrSig ?pr, SignAnywhere (pe_sha256 E) (pr_AppSecret ?pr) ts pub)],
     ho_body = []\<rparr>"
  obtain x c1 where x: "exchange E ?q c = (x, c1)" by (cases "exchange E ?q c")
  with assms have "c' = c1" by (auto simp: getSigned_def Let_def ebind_def split: sum.splits)
  with exchange_sends [OF x] show ?thesis by (intro exI [of _ ?q]) (simp add: to_panel_def)
qed

lemma Login_sends:
  assumes "Login E c = (r, c')"
  shows "\<exists>q. grows c c' [q] \<and> loginRequest c q"
proof -
  let ?f = "formSet ''access_token'' (pc_Token c) []"
  obtain x c1 where x: "postForm E ''/api/v1/information'' ?f c = (x, c1)"
    by (cases "postForm E ''/api/v1/information'' ?f c")
  with assms have "c' = c1" by (auto simp: Login_def split: sum.splits prod.splits)
  with postForm_sends [OF x] show ?thesis by (auto simp: loginRequest_def)
qed

lemma login_discreet: "loginRequest c q \<Longrightarrow> discreet c q"
  by (auto simp: loginRequest_def discreet_def formSet_def)

lemma ensureIdentity_sends: "ensureIdentity E c = (r, c') \<Longrightarrow> grows c c' []"
  by (auto simp: ensureIdentity_def grows_def Let_def split: if_splits sum.splits)

lemma fetchAnywhere_sends:
  assumes "fetchAnywhere E c = (r, c')"
  shows "\<exists>new. grows c c' new \<and> (\<forall>q \<in> set new. discreet c q)"
proof -
  obtain x c1 where x: "ensureIdentity E c = (x, c1)" by (cases "ensureIdentity E c")
  note g1 = ensureIdentity_sends [OF x]
  show ?thesis
  proof (cases x)
    case (Inl e)
    with assms x g1 show ?thesis by (auto simp: fetchAnywhere_def ebind_def)
  next
    case (Inr u)
    let ?path = "pr_Anywhere (protoInit (pe_sha256 E)) @ ''?mode=premium''"
    obtain y c2 where y: "getSigned E ?path (Itoa (pe_now E)) (agePub E c1) c1 = (y, c2)"
      by (cases "getSigned E ?path (Itoa (pe_now E)) (agePub E c1) c1")
    from getSigned_sends [OF y] obtain q where q: "grows c1 c2 [q]" "to_panel c1 q" "ho_body q = []" by blast
    have "c' = c2" using assms x Inr y by (auto simp: fetchAnywhere_def ebind_def Let_def split: sum.splits prod.splits)
    then have "grows c c' ([] @ [q])" using grows_trans [OF g1 q(1)] by simp
    moreover have "discreet c q" using q grows_same [OF g1] by (auto simp: discreet_def)
    ultimately show ?thesis by auto
  qed
qed

lemma templateDownload_sends:
  assumes "templateDownload E bodies b smart c = (r, c')"
  shows "\<exists>new. grows c c' new \<and> (\<forall>q \<in> set new. discreet c q)"
proof (cases "dedicatedDownloadURL E c smart = []")
  case True
  with assms grows_refl show ?thesis by (auto simp: templateDownload_def Let_def intro!: exI [of _ "[]"])
next
  case False
  obtain x c1 where x: "panelGet E (dedicatedDownloadURL E c smart) c = (x, c1)"
    by (cases "panelGet E (dedicatedDownloadURL E c smart) c")
  with assms False have "c' = c1" by (auto simp: templateDownload_def Let_def split: sum.splits)
  moreover obtain q where "grows c c1 [q]" "anonymous q" using panelGet_sends [OF x] by blast
  ultimately show ?thesis by (intro exI [of _ "[q]"]) (simp add: discreet_def)
qed

lemma fetchSurgeTemplate_sends:
  assumes "fetchSurgeTemplate E c = (r, c')"
  shows "\<exists>new. grows c c' new \<and> (\<forall>q \<in> set new. discreet c q)"
proof -
  obtain x c1 where x: "postForm E ''/api/v1/managed/surge'' (surgeForm c) c = (x, c1)"
    by (cases "postForm E ''/api/v1/managed/surge'' (surgeForm c) c")
  from postForm_sends [OF x] obtain q where
    q: "grows c c1 [q]" "to_panel c q" "ho_body q = formEncode (surgeForm c)" by blast
  then have dq: "discreet c q" using surgeForm_clash [of c] by (auto simp: discreet_def)
  have "\<exists>new. grows c1 c' new \<and> (\<forall>q \<in> set new. discreet c1 q)"
  proof (cases "c' = c1")
    case True
    then show ?thesis using grows_refl by (auto intro!: exI [of _ "[]"])
  next
    case False
    with assms x obtain bodies b smart where "templateDownload E bodies b smart c1 = (r, c')"
      by (auto simp: fetchSurgeTemplate_def Let_def split: sum.splits prod.splits if_splits)
    then show ?thesis by (rule templateDownload_sends)
  qed
  then obtain new where n: "grows c1 c' new" "\<forall>q \<in> set new. discreet c1 q" by blast
  with grows_trans [OF q(1) n(1)] dq grows_same [OF q(1)] show ?thesis by (auto intro!: exI [of _ "q # new"])
qed

lemma Fetch_fact:
  assumes "Fetch E c = (r, c')"
  shows "\<exists>q new. grows c c' (q # new) \<and> loginRequest c q \<and> (\<forall>q \<in> set new. discreet c q)
     \<and> (\<forall>e. fst (Login E c) = Inl e \<longrightarrow> new = [] \<and> fst r = Inl e)"
proof -
  obtain x c1 where x: "Login E c = (x, c1)" by (cases "Login E c")
  from Login_sends [OF x] obtain q where q: "grows c c1 [q]" "loginRequest c q" by blast
  show ?thesis
  proof (cases x)
    case (Inl e)
    with assms x have "r = (Inl e, [])" "c' = c1" by (auto simp: Fetch_def)
    with q x Inl show ?thesis by auto
  next
    case (Inr u)
    obtain a c2 where a: "fetchAnywhere E c1 = (a, c2)" by (cases "fetchAnywhere E c1")
    obtain t c3 where t: "fetchSurgeTemplate E c2 = (t, c3)" by (cases "fetchSurgeTemplate E c2")
    have "c' = c3" using assms x Inr a t by (auto simp: Fetch_def)
    moreover obtain n1 where n1: "grows c1 c2 n1" "\<forall>q \<in> set n1. discreet c1 q"
      using fetchAnywhere_sends [OF a] by blast
    moreover obtain n2 where n2: "grows c2 c3 n2" "\<forall>q \<in> set n2. discreet c2 q"
      using fetchSurgeTemplate_sends [OF t] by blast
    ultimately have "grows c c' (q # n1 @ n2)"
      using grows_trans [OF q(1) grows_trans [OF n1(1) n2(1)]] by simp
    moreover have "\<forall>q \<in> set (n1 @ n2). discreet c q"
      using n1 n2 grows_same [OF q(1)] grows_same [OF n1(1)] by auto
    ultimately show ?thesis using q x Inr by (intro exI [of _ q] exI [of _ "n1 @ n2"]) simp
  qed
qed


section \<open>What is accepted\<close>

lemma firstNodes_wf:
  "firstNodes E i bs = Some ns \<Longrightarrow> \<exists>raw \<in> set bs. Parse (pe_yaml E) (maybeDecrypt E i raw) = Inr ns"
  by (induction bs) (auto split: sum.splits)

lemma firstBody_wf: "firstBody E bs = Some (ns, b) \<Longrightarrow> Parse (pe_yaml E) b = Inr ns"
  by (induction bs) (auto split: sum.splits)

definition profile_ok :: "node list \<Rightarrow> bool" where
  "profile_ok ns \<longleftrightarrow> ns \<noteq> [] \<and> distinct (map n_Name ns) \<and> (\<forall>n \<in> set ns. profile_node n)"

lemma Parse_profile_ok: "Parse Y b = Inr ns \<Longrightarrow> profile_ok ns"
  unfolding profile_ok_def by (rule Parse_fact)

lemma nodesFromBody_wf:
  assumes "nodesFromBody E i b = Inr ns"
  shows "profile_ok ns"
proof -
  obtain ret msg smart cfg where "decodeRet E b = (ret, msg, smart, cfg)" by (metis prod_cases4)
  with assms have "firstNodes E i ((case cfg of None \<Rightarrow> [] | Some x \<Rightarrow> [x]) @ [b]) = Some ns"
    by (simp add: nodesFromBody_def split: if_splits option.splits [where option = "firstNodes _ _ _"])
  then show ?thesis using firstNodes_wf Parse_profile_ok by blast
qed

lemma getSigned_Inr:
  assumes "getSigned E path ts pub c = (Inr (b, hdr), c')"
  shows "\<exists>q resp. grows c c' [q] \<and> to_panel c q \<and> pe_do E q = Inr resp \<and> hdr = hi_header resp
     \<and> hi_status resp < 400 \<and> readLimitedBody (hi_body resp) maxPanelBody = Inr b"
proof -
  let ?pr = "protoInit (pe_sha256 E)"
  let ?q = "\<lparr>ho_method = ''GET'', ho_url = dedicatedBase c @ path,
     ho_headers = [bearer c, (''Accept'', ''application/json''), (''Accept-Language'', ''en''),
       (''User-Agent'', anywhereUA), (pr_HdrTS ?pr, ts), (pr_HdrAge ?pr, pub),
       (pr_HdrSig ?pr, SignAnywhere (pe_sha256 E) (pr_AppSecret ?pr) ts pub)],
     ho_body = []\<rparr>"
  from assms obtain resp where "exchange E ?q c = (Inr resp, c')"
    "sbind (readLimitedBody (hi_body resp) maxPanelBody) (\<lambda>b. if 400 \<le> hi_status resp
       then Inl (AnywhereHTTP (hi_status resp) (truncate b 200)) else Inr (b, hi_header resp)) = Inr (b, hdr)"
    by (auto simp: getSigned_def Let_def ebind_eq_Inr)
  then show ?thesis
    by (intro exI [of _ ?q] exI [of _ resp])
      (auto simp: sbind_eq_Inr exchange_def grows_def to_panel_def split: sum.splits if_splits)
qed

lemma fetchAnywhere_Inr:
  assumes "fetchAnywhere E c = (Inr ns, c')"
  shows "\<exists>c1 b hdr. grows c c1 []
     \<and> getSigned E (pr_Anywhere (protoInit (pe_sha256 E)) @ ''?mode=premium'') (Itoa (pe_now E)) (agePub E c1) c1
       = (Inr (b, hdr), c')
     \<and> nodesFromBody E (pc_ident c') b = Inr ns
     \<and> (let sig = hdr (pr_HdrResp (protoInit (pe_sha256 E))) in
        sig = [] \<or> sigAccepted E (Itoa (pe_now E)) sig b (snd (snd (snd (decodeRet E b)))))"
proof -
  from assms obtain c1 b hdr c2 where i: "ensureIdentity E c = (Inr (), c1)"
    and g: "getSigned E (pr_Anywhere (protoInit (pe_sha256 E)) @ ''?mode=premium'') (Itoa (pe_now E)) (agePub E c1) c1
       = (Inr (b, hdr), c2)"
    and r: "(case decodeRet E b of
            (_, _, _, cfg) \<Rightarrow>
              let sig = hdr (pr_HdrResp (protoInit (pe_sha256 E))) in
              if sig \<noteq> [] \<and> \<not> sigAccepted E (Itoa (pe_now E)) sig b cfg then Inl SigMismatch
              else nodesFromBody E (pc_ident c2) b, c2) = (Inr ns, c')"
    by (auto simp: fetchAnywhere_def ebind_eq_Inr Let_def)
  obtain ret msg smart cfg where d: "decodeRet E b = (ret, msg, smart, cfg)" by (metis prod_cases4)
  from r d have "c' = c2" "nodesFromBody E (pc_ident c2) b = Inr ns"
    "hdr (pr_HdrResp (protoInit (pe_sha256 E))) = []
     \<or> sigAccepted E (Itoa (pe_now E)) (hdr (pr_HdrResp (protoInit (pe_sha256 E)))) b cfg"
    by (auto simp: Let_def split: if_splits)
  with g d ensureIdentity_sends [OF i] show ?thesis by (auto simp: Let_def)
qed

lemma fetchAnywhere_wf: "fetchAnywhere E c = (Inr ns, c') \<Longrightarrow> profile_ok ns"
  using fetchAnywhere_Inr nodesFromBody_wf by blast

lemma template_wf:
  "templateNoURL E bodies b = ((e, ns), tmpl) \<Longrightarrow> ns = [] \<or> profile_ok ns"
  "templateEnd E bodies b x = ((e, ns), tmpl) \<Longrightarrow> ns = [] \<or> profile_ok ns"
  "templateDownload E bodies b smart c = (((e, ns), tmpl), c') \<Longrightarrow> ns = [] \<or> profile_ok ns"
  by (auto simp: templateNoURL_def templateEnd_def templateDownload_def Let_def
      split: option.splits sum.splits prod.splits if_splits dest: Parse_profile_ok firstBody_wf)

lemma fetchSurgeTemplate_wf: "fetchSurgeTemplate E c = (((e, ns), tmpl), c') \<Longrightarrow> ns = [] \<or> profile_ok ns"
  by (auto simp: fetchSurgeTemplate_def Let_def split: sum.splits prod.splits if_splits
      dest: Parse_profile_ok template_wf)

lemma ApplyDNS_names: "map n_Name (ApplyDNS L ns p) = map n_Name ns"
  by (simp add: ApplyDNS_def)

lemma ApplyDNS_ok: "profile_ok ns \<Longrightarrow> profile_ok (ApplyDNS L ns (ParseDNS Y b))"
  using ApplyDNS_wf by (auto simp: profile_ok_def ApplyDNS_names) (auto simp: ApplyDNS_def)

lemma chooseNodes_wf:
  assumes "chooseNodes E a ((e, ns), tmpl) = (Inr ms, t)" and "\<And>xs. a = Inr xs \<Longrightarrow> profile_ok xs"
    and "ns = [] \<or> profile_ok ns"
  shows "profile_ok ms"
  using assms ApplyDNS_ok
  by (auto simp: chooseNodes_def Let_def profile_ok_def [of "[]"] split: sum.splits if_splits)

lemma Fetch_wf:
  assumes "Fetch E c = ((Inr ns, tmpl), c')"
  shows "profile_ok ns"
proof -
  obtain u c1 where x: "Login E c = (Inr u, c1)"
    using assms by (cases "Login E c") (auto simp: Fetch_def split: sum.splits)
  obtain a c2 where a: "fetchAnywhere E c1 = (a, c2)" by (cases "fetchAnywhere E c1")
  obtain e ms t c3 where t: "fetchSurgeTemplate E c2 = (((e, ms), t), c3)" by (metis surj_pair)
  have "chooseNodes E a ((e, ms), t) = (Inr ns, tmpl)" using assms x a t by (auto simp: Fetch_def)
  then show ?thesis
    by (rule chooseNodes_wf) (use fetchAnywhere_wf a fetchSurgeTemplate_wf [OF t] in auto)
qed


section \<open>Examples\<close>

definition exampleAge :: age where
  "exampleAge =
     \<lparr>ag_read = (\<lambda>_. None), ag_parse = (\<lambda>_. Inl 1), ag_generate = Inr 7, ag_recipient = (\<lambda>_. ''age1''),
      ag_string = (\<lambda>_. ''KEY''), ag_mkdirAll = (\<lambda>_. None), ag_write = (\<lambda>_ _. None), ag_dir = id,
      ag_decrypt = (\<lambda>_ _ _. Inl 1)\<rparr>"

definition examplePanel :: panel_env where
  \<comment> \<open>every request is answered with status 200 and \<open>ret\<close> 200; the body parses as a profile\<close>
  "examplePanel =
     \<lparr>pe_do = (\<lambda>_. Inr \<lparr>hi_status = 200, hi_header = (\<lambda>_. []), hi_body = \<lparr>src_data = [], src_end = EOF\<rparr>\<rparr>),
      pe_wrap = (\<lambda>_. Some \<lparr>rt_Ret = [1], rt_Msg = [], rt_Smart = [], rt_Config = [], rt_Data = []\<rparr>),
      pe_int = (\<lambda>_. Some 200), pe_string = (\<lambda>_. None), pe_inner = (\<lambda>_. None), pe_url = (\<lambda>_. None),
      pe_now = 0, pe_home = [], pe_join = (\<lambda>a b. b), pe_sha256 = (\<lambda>_. []), pe_yaml = exampleProfile,
      pe_age = exampleAge\<rparr>"

lemma example_exchange:
  "exchange examplePanel q c
   = (Inr \<lparr>hi_status = 200, hi_header = (\<lambda>_. []), hi_body = \<lparr>src_data = [], src_end = EOF\<rparr>\<rparr>,
      c\<lparr>pc_log := pc_log c @ [q]\<rparr>)"
  by (simp add: exchange_def examplePanel_def)

lemma example_body:
  "readLimitedBody \<lparr>src_data = [], src_end = EOF\<rparr> maxPanelBody = Inr []"
  "decodeRet examplePanel [] = (200, [], [], None)"
  by (simp_all add: readLimitedBody_def decodeRet_def examplePanel_def jsonField_def Let_def)

lemma example_nodes:
  "nodesFromBody examplePanel i [] = Inr [yamlNode exampleProfile exampleNode (obfsOpts exampleNode)]"
proof -
  have "maybeDecrypt examplePanel i [] = []"
    by (simp add: maybeDecrypt_def bytes_str_def TrimSpace_def trimLeft.simps trimRight.simps spaceAt_def
        spaceEnd_def token_none HasPrefix_def HasSuffix_def spaceTokens_def)
  moreover have "pe_yaml examplePanel = exampleProfile" by (simp add: examplePanel_def)
  ultimately show ?thesis by (simp add: nodesFromBody_def example_body example_parse)
qed

lemma example_identity: "\<exists>c'. ensureIdentity examplePanel c = (Inr (), c')"
  by (cases "pc_ident c")
    (simp_all add: ensureIdentity_def examplePanel_def exampleAge_def LoadOrCreateAge_def createAge_def Let_def)

lemma example_anywhere:
  "\<exists>c'. fetchAnywhere examplePanel c = (Inr [yamlNode exampleProfile exampleNode (obfsOpts exampleNode)], c')"
proof -
  obtain c1 where "ensureIdentity examplePanel c = (Inr (), c1)" using example_identity by blast
  then show ?thesis
    by (simp add: fetchAnywhere_def getSigned_def ebind_def Let_def example_exchange example_body example_nodes)
qed



end
