(* ===== verification/Run.thy ===== *)
theory Run
  imports Config Serve Panel
begin

text \<open>
  The command (\<open>internal/run/run.go\<close>): from flags and configuration to a running server. Parsing
  the flags, the environment, files, regular expressions, HTTP and signals are parameters; what
  \<open>Main\<close> prints or returns is an \<open>outcome\<close>.
\<close>

section \<open>Inputs and outcomes\<close>

record flags =
  fl_config :: string
  fl_profile :: string
  fl_listen :: string
  fl_bind :: string
  fl_mode :: string
  fl_map :: bool
  fl_single :: bool
  fl_mapBase :: int
  fl_port :: string
  fl_node :: string
  fl_filter :: string
  fl_health :: string
  fl_help :: bool
  fl_version :: bool
  fl_tray :: bool
  fl_serve :: bool

datatype name_err = NameRequired | NameChars | NameComment | NameReserved

datatype run_err =
    FlagErr nat
  | TrayErr
  | BadConfig string cfg_err
  | DataDirFail cfg_err
  | UnknownMode string
  | ProfileRead nat
  | ProfileErr prof_err
  | NoToken
  | PanelFail panel_err
  | FilterNone
  | NodeNotFound string
  | ListenerName nat name_err
  | DuplicateListener string
  | ListenerPort nat int
  | ListenerNode nat string
  | ServeFail serve_err
  | HealthAddr string
  | Unhealthy "string list"

record run_env =
  rv_flags :: "nat + flags"                      \<comment> \<open>\<open>fs.Parse\<close>\<close>
  rv_env :: env
  rv_panel :: panel_env
  rv_serve :: serve_env
  rv_lower :: "string \<Rightarrow> string"
  rv_regex :: "string \<Rightarrow> nat + regex"
  rv_base :: string                              \<comment> \<open>\<open>filepath.Base(os.Args[0])\<close>\<close>
  rv_exe :: string
  rv_version :: string                           \<comment> \<open>\<open>Version\<close>, set at link time\<close>
  rv_health :: "string \<Rightarrow> nat + nat \<times> source"     \<comment> \<open>\<open>client.Get\<close> of the health URL\<close>

datatype outcome =
    Usage string
  | VersionText string
  | Healthy
  | Serving cfgFile server

section \<open>Names and addresses\<close>

definition policyNameKey :: "(string \<Rightarrow> string) \<Rightarrow> string \<Rightarrow> string" where
  "policyNameKey L name = ToLower L (TrimSpace name)"

definition reserved :: "string list" where
  \<comment> \<open>in lower case, for \<open>EqualFold\<close>\<close>
  "reserved = [''direct'', ''block'', ''proxy'', ''auto - urltest'', ''auto - smart'', ''oixcloud'']"

definition validateListenerName :: "string \<Rightarrow> name_err option" where
  "validateListenerName name =
     (if name = [] then Some NameRequired
      else if list_ex (\<lambda>c. c \<in> set [CHR 0x0D, CHR 0x0A, CHR '','', CHR ''='', backslash, dquote]) name
              \<or> containsControl name
      then Some NameChars
      else if HasPrefix name ''#'' \<or> HasPrefix name '';'' then Some NameComment
      else if list_ex (fold_is name) reserved then Some NameReserved
      else None)"

definition Find :: "node list \<Rightarrow> string \<Rightarrow> node option" where
  "Find nodes name = find (\<lambda>n. n_Name n = name) nodes"

definition splitListen :: "string \<Rightarrow> (string \<times> string) option" where
  "splitListen v0 =
     (let v = TrimSpace v0 in
      if v = [] then None
      else if \<not> Contains v '':'' then (if Atoi v = None then None else Some ([], v))
      else SplitHostPort v)"

definition versionLine :: "run_env \<Rightarrow> string \<Rightarrow> string" where
  "versionLine E name =
     (let v = ev_get (rv_env E) ''OIXCLOUD_HELPER_VERSION'' in
      if v \<noteq> [] then name @ '' '' @ v else name @ '' '' @ rv_version E)"

section \<open>Nodes\<close>

definition panelFor :: "run_env \<Rightarrow> cfgFile \<Rightarrow> panel" where
  \<comment> \<open>the client \<open>loadNodesRaw\<close> sets up\<close>
  "panelFor E cfg =
     (let c0 = newPanel (c_AccessToken cfg);
          c1 = (if c_APIBase cfg \<noteq> [] then c0\<lparr>pc_Base := c_APIBase cfg\<rparr> else c0);
          v = ev_get (rv_env E) ''OIXCLOUD_API_BASE'';
          c2 = (if v \<noteq> [] then c1\<lparr>pc_Base := v\<rparr> else c1);
          c3 = c2\<lparr>pc_OixParams := c_OixParams cfg, pc_SimpleRules := c_SimpleRules cfg\<rparr>
      in if c_DataDir cfg \<noteq> [] then c3\<lparr>pc_IdentityPath := ev_join (rv_env E) (c_DataDir cfg) ''.identity''\<rparr>
         else c3)"

definition loadProfile :: "run_env \<Rightarrow> string \<Rightarrow> run_err + node list" where
  \<comment> \<open>\<open>profile.Load\<close>\<close>
  "loadProfile E path =
     (case ev_read (rv_env E) path of
        Inl e \<Rightarrow> Inl (ProfileRead e)
      | Inr b \<Rightarrow> (case Parse (pe_yaml (rv_panel E)) b of Inl e \<Rightarrow> Inl (ProfileErr e) | Inr ns \<Rightarrow> Inr ns))"

definition loadNodesRaw :: "run_env \<Rightarrow> cfgFile \<Rightarrow> string \<Rightarrow> run_err + node list \<times> bytes" where
  "loadNodesRaw E cfg profilePath =
     (if profilePath \<noteq> [] then sbind (loadProfile E profilePath) (\<lambda>n. Inr (n, []))
      else if c_AccessToken cfg = [] then Inl NoToken
      else case FetchDedicatedNodes (rv_panel E) (panelFor E cfg) of
             (Inl e, _) \<Rightarrow> Inl (PanelFail e)
           | (Inr n, c) \<Rightarrow> Inr (n, pc_Template c))"

definition filterNodes :: "(string \<Rightarrow> nat + regex) \<Rightarrow> node list \<Rightarrow> string \<Rightarrow> run_err + node list" where
  "filterNodes R nodes flt =
     (case Filter R nodes flt of
        Inl e \<Rightarrow> Inl (ProfileErr e)
      | Inr filtered \<Rightarrow>
          if TrimSpace flt \<noteq> [] \<and> filtered = [] then Inl FilterNone else Inr filtered)"

definition LoadNodes :: "run_env \<Rightarrow> cfgFile \<Rightarrow> string \<Rightarrow> run_err + node list \<times> bytes" where
  "LoadNodes E cfg profilePath =
     sbind (loadNodesRaw E cfg profilePath) (\<lambda>(nodes, tmpl).
     sbind (filterNodes (rv_regex E) nodes (c_Filter cfg)) (\<lambda>ns. Inr (ns, tmpl)))"

section \<open>Extra listeners\<close>

definition listenerHost :: "string \<Rightarrow> string \<Rightarrow> string" where
  "listenerHost listen bind =
     (let host = Trim (TrimSpace listen) ''[]'' in
      if host = [] then Trim (TrimSpace bind) ''[]'' else host)"

fun extras ::
  "(string \<Rightarrow> string) \<Rightarrow> node list \<Rightarrow> node list \<Rightarrow> string \<Rightarrow> nat \<Rightarrow> Listener list \<Rightarrow> string set \<Rightarrow> run_err + Extra list" where
  \<comment> \<open>the loop over \<open>cfg.Listeners\<close>; the set is \<open>seenNames\<close>\<close>
  "extras L nodes allNodes bind i [] seen = Inr []"
| "extras L nodes allNodes bind i (l # ls) seen =
     (let name = TrimSpace (ln_Name l); key = policyNameKey L name in
      case validateListenerName name of
        Some e \<Rightarrow> Inl (ListenerName i e)
      | None \<Rightarrow>
          if key \<in> seen then Inl (DuplicateListener name)
          else if ln_Port l < 1 \<or> 65535 < ln_Port l then Inl (ListenerPort i (ln_Port l))
          else if Find allNodes (ln_Node l) = None then Inl (ListenerNode i (ln_Node l))
          else sbind (extras L nodes allNodes bind (Suc i) ls (insert key seen)) (\<lambda>xs.
            case Find nodes (ln_Node l) of
              None \<Rightarrow> Inr xs
            | Some n \<Rightarrow>
                Inr (\<lparr>x_Name = name, x_Node = n,
                      x_Addr = JoinHostPort (listenerHost (ln_Listen l) bind) (Itoa (ln_Port l))\<rparr> # xs)))"

definition extraListeners ::
  "(string \<Rightarrow> string) \<Rightarrow> cfgFile \<Rightarrow> node list \<Rightarrow> node list \<Rightarrow> string \<Rightarrow> string \<Rightarrow> run_err + Extra list" where
  "extraListeners L cfg nodes allNodes template bind =
     (if c_ProxyMode cfg \<noteq> ''map'' then Inr []
      else extras L nodes allNodes bind 0 (c_Listeners cfg)
             (set (map (\<lambda>n. policyNameKey L (n_Name n)) allNodes)
              \<union> set (map (policyNameKey L) (SurgeGroupNames L template))))"

section \<open>Health checks\<close>

definition healthcheckAddrs :: "string \<Rightarrow> run_err + string list" where
  "healthcheckAddrs addr0 =
     (let addr = TrimSpace addr0;
          numeric = (\<lambda>a. case Atoi a of
             None \<Rightarrow> Inl (HealthAddr a)
           | Some p \<Rightarrow> if p < 1 \<or> 65535 < p then Inl (HealthAddr a)
               else Inr [JoinHostPort ''127.0.0.1'' (Itoa p), JoinHostPort ''::1'' (Itoa p)]) in
      case SplitHostPort addr of
        Some (host, port) \<Rightarrow> if host \<noteq> [] then Inr [addr] else numeric port
      | None \<Rightarrow> numeric addr)"

definition checkHealth :: "(string \<Rightarrow> nat + nat \<times> source) \<Rightarrow> string \<Rightarrow> bool" where
  "checkHealth H addr =
     (case H addr of
        Inl _ \<Rightarrow> False
      | Inr (status, body) \<Rightarrow>
          (case readLimitedBody body 64 of
             Inl _ \<Rightarrow> False
           | Inr b \<Rightarrow> status = 200 \<and> TrimSpace (bytes_str b) = ''ok''))"

definition Healthcheck :: "(string \<Rightarrow> nat + nat \<times> source) \<Rightarrow> string \<Rightarrow> run_err + outcome" where
  "Healthcheck H addr =
     sbind (healthcheckAddrs addr) (\<lambda>addrs.
       if list_ex (checkHealth H) addrs then Inr Healthy else Inl (Unhealthy addrs))"

section \<open>Main\<close>

definition loadConfig :: "run_env \<Rightarrow> flags \<Rightarrow> run_err + cfgFile" where
  "loadConfig E f =
     (let path = (if fl_config f = [] \<and> fl_profile f = [] then DefaultPath (rv_env E) else fl_config f) in
      if path \<noteq> [] then
        (case Load (rv_env E) path of Inl e \<Rightarrow> Inl (BadConfig path e) | Inr cfg \<Rightarrow> Inr cfg)
      else
        (case DataDir (rv_env E) of
           Inl e \<Rightarrow> Inl (DataDirFail e)
         | Inr d \<Rightarrow> Inr (Defaults\<lparr>c_DataDir := d\<rparr>)))"

definition applyFlags :: "flags \<Rightarrow> cfgFile \<Rightarrow> run_err + cfgFile" where
  "applyFlags f cfg =
     (let m1 = (if fl_map f then ''map'' else c_ProxyMode cfg);
          m2 = (if fl_single f then ''single'' else m1);
          m3 = (if fl_mode f \<noteq> [] then fl_mode f else m2) in
      if m3 \<noteq> ''map'' \<and> m3 \<noteq> ''single'' then Inl (UnknownMode m3)
      else Inr (cfg\<lparr>c_ProxyMode := m3,
                    c_MapBasePort := (if fl_mapBase f \<noteq> 0 then fl_mapBase f else c_MapBasePort cfg),
                    c_Filter := (if fl_filter f \<noteq> [] then fl_filter f else c_Filter cfg)\<rparr>))"

definition pickNode :: "flags \<Rightarrow> node list \<Rightarrow> run_err + node list" where
  "pickNode f nodes =
     (if fl_node f \<noteq> [] then
        (case Find nodes (fl_node f) of None \<Rightarrow> Inl (NodeNotFound (fl_node f)) | Some n \<Rightarrow> Inr [n])
      else Inr nodes)"

definition bindAndBase :: "flags \<Rightarrow> cfgFile \<Rightarrow> string \<times> int" where
  \<comment> \<open>the effect of \<open>--port\<close> on the bind address and the base port\<close>
  "bindAndBase f cfg =
     (let bindAddr = BindAddr cfg (fl_bind f) in
      case splitListen (fl_port f) of
        Some (host, p) \<Rightarrow>
          (if host \<noteq> [] then host else bindAddr,
           case Atoi p of Some n \<Rightarrow> if n > 0 then n else c_MapBasePort cfg | None \<Rightarrow> c_MapBasePort cfg)
      | None \<Rightarrow>
          (bindAddr, if c_ProxyMode cfg = ''single'' \<and> c_MapBasePort cfg = 7200 then 7100 else c_MapBasePort cfg))"

definition newServer ::
  "run_env \<Rightarrow> flags \<Rightarrow> cfgFile \<Rightarrow> string \<Rightarrow> int \<Rightarrow> node list \<Rightarrow> Extra list \<Rightarrow> bytes \<Rightarrow> server" where
  "newServer E f cfg bindAddr base nodes xs tmpl =
     (let listenAddr = ServeAddr (rv_env E) cfg (fl_listen f);
          (u, p) = AuthFor (rv_lower E) cfg listenAddr in
      \<lparr>sv_Listen = listenAddr, sv_Bind = bindAddr, sv_BasePort = base, sv_User = u, sv_Pass = p,
       sv_Auth = Some (AuthFor (rv_lower E) cfg), sv_NoHTTP = (\<not> fl_serve f), sv_Nodes = nodes,
       sv_Extras = xs, sv_Template = bytes_str tmpl, sv_Dial = False,
       sv_OpenSurgePath = ev_join (rv_env E) (c_DataDir cfg) ''OpenSurge.yaml'', sv_ProcessName = rv_base E,
       sv_ProcessPath = rv_exe E, sv_maps = [], sv_pools = [], sv_poolByName = Map.empty, sv_httpLn = False,
       sv_httpSrv = False, sv_closed = False, sv_listeners = [], sv_shut = {}, sv_allPools = [],
       sv_poolsShut = {}, sv_httpOpen = False\<rparr>)"

definition runServer :: "run_env \<Rightarrow> flags \<Rightarrow> run_err + outcome" where
  \<comment> \<open>\<open>Main\<close> from the configuration on\<close>
  "runServer E f =
     sbind (loadConfig E f) (\<lambda>cfg0.
     sbind (applyFlags f cfg0) (\<lambda>cfg.
     sbind (loadNodesRaw E cfg (fl_profile f)) (\<lambda>(allNodes, tmpl).
     sbind (filterNodes (rv_regex E) allNodes (c_Filter cfg)) (\<lambda>filtered.
     sbind (pickNode f filtered) (\<lambda>picked.
       let (bindAddr, base) = bindAndBase f cfg;
           nodes = (if c_ProxyMode cfg = ''single'' \<and> fl_node f = [] \<and> 1 < length picked
                    then take 1 picked else picked) in
       sbind (extraListeners (rv_lower E) cfg nodes allNodes (bytes_str tmpl) bindAddr) (\<lambda>xs.
         case Start (rv_serve E) (newServer E f cfg bindAddr base nodes xs tmpl) of
           (Inl e, _) \<Rightarrow> Inl (ServeFail e)
         | (Inr _, srv) \<Rightarrow> Inr (Serving cfg srv)))))))"

definition Main :: "run_env \<Rightarrow> run_err + outcome" where
  "Main E =
     (case rv_flags E of
        Inl e \<Rightarrow> Inl (FlagErr e)
      | Inr f \<Rightarrow>
          if fl_help f then Inr (Usage (rv_base E))
          else if fl_version f then Inr (VersionText (versionLine E (rv_base E)))
          else if fl_tray f then Inl TrayErr
          else if fl_health f \<noteq> [] then Healthcheck (rv_health E) (fl_health f)
          else runServer E f)"

definition readyFile :: "run_env \<Rightarrow> server \<Rightarrow> (string \<times> string) option" where
  \<comment> \<open>the file \<open>Main\<close> writes once the server runs, and its text\<close>
  "readyFile E srv =
     (let p = ev_get (rv_env E) ''OIXPROXY_READY_FILE'' in if p \<noteq> [] then Some (p, sv_Listen srv @ nl) else None)"

section \<open>Extra listeners have names of their own\<close>

definition from_listener :: "node list \<Rightarrow> string \<Rightarrow> Listener list \<Rightarrow> Extra \<Rightarrow> bool" where
  "from_listener nodes bind ls x \<longleftrightarrow>
     validateListenerName (x_Name x) = None \<and>
     (\<exists>l \<in> set ls. x_Name x = TrimSpace (ln_Name l) \<and> Find nodes (ln_Node l) = Some (x_Node x)
        \<and> 1 \<le> ln_Port l \<and> ln_Port l \<le> 65535
        \<and> x_Addr x = JoinHostPort (listenerHost (ln_Listen l) bind) (Itoa (ln_Port l)))"

lemma extras_distinct:
  "extras L nodes allNodes bind i ls seen = Inr xs \<Longrightarrow>
     distinct (map (\<lambda>x. policyNameKey L (x_Name x)) xs)
     \<and> (\<forall>x \<in> set xs. policyNameKey L (x_Name x) \<notin> seen \<and> from_listener nodes bind ls x)"
proof (induction ls arbitrary: i seen xs)
  case (Cons l ls)
  let ?name = "TrimSpace (ln_Name l)" and ?key = "policyNameKey L (TrimSpace (ln_Name l))"
  from Cons.prems obtain ys where v: "validateListenerName ?name = None" "?key \<notin> seen"
      "1 \<le> ln_Port l" "ln_Port l \<le> 65535"
    and ys: "extras L nodes allNodes bind (Suc i) ls (insert ?key seen) = Inr ys"
    and xs: "xs = (case Find nodes (ln_Node l) of None \<Rightarrow> ys
       | Some n \<Rightarrow> \<lparr>x_Name = ?name, x_Node = n,
           x_Addr = JoinHostPort (listenerHost (ln_Listen l) bind) (Itoa (ln_Port l))\<rparr> # ys)"
    by (auto simp: Let_def sbind_eq_Inr split: option.splits if_splits)
  note IH = Cons.IH [OF ys]
  have old: "\<forall>x \<in> set ys. policyNameKey L (x_Name x) \<notin> insert ?key seen \<and> from_listener nodes bind (l # ls) x"
    using IH by (auto simp: from_listener_def)
  show ?case
  proof (cases "Find nodes (ln_Node l)")
    case None
    with IH old xs show ?thesis by auto
  next
    case (Some n)
    let ?x = "\<lparr>x_Name = ?name, x_Node = n,
           x_Addr = JoinHostPort (listenerHost (ln_Listen l) bind) (Itoa (ln_Port l))\<rparr>"
    have "from_listener nodes bind (l # ls) ?x" using v Some by (simp add: from_listener_def)
    moreover have "?key \<notin> (\<lambda>x. policyNameKey L (x_Name x)) ` set ys" using old by auto
    ultimately show ?thesis using IH old v(2) xs Some by auto
  qed
qed simp

text \<open>
  C38. The extra listeners of an accepted configuration have policy names of their own: compared
  without case and surrounding space, no two are equal and none is the name of a downloaded
  node (filtered out or not) or of a group in the template; each has a valid name, the selected node
  it asks for, and a port between 1 and 65535. There are none outside map mode.
\<close>

theorem extraListeners_distinct:
  assumes "extraListeners L cfg nodes allNodes template bind = Inr xs"
  shows "distinct (map (\<lambda>x. policyNameKey L (x_Name x)) xs)
    \<and> (\<forall>x \<in> set xs. from_listener nodes bind (c_Listeners cfg) x
         \<and> (\<forall>n \<in> set allNodes. policyNameKey L (x_Name x) \<noteq> policyNameKey L (n_Name n))
         \<and> (\<forall>g \<in> set (SurgeGroupNames L template). policyNameKey L (x_Name x) \<noteq> policyNameKey L g))
    \<and> (c_ProxyMode cfg \<noteq> ''map'' \<longrightarrow> xs = [])"
proof (cases "c_ProxyMode cfg = ''map''")
  case False
  with assms show ?thesis by (simp add: extraListeners_def)
next
  case True
  with assms have "extras L nodes allNodes bind 0 (c_Listeners cfg)
      (set (map (\<lambda>n. policyNameKey L (n_Name n)) allNodes)
       \<union> set (map (policyNameKey L) (SurgeGroupNames L template))) = Inr xs"
    by (simp add: extraListeners_def)
  from extras_distinct [OF this] True show ?thesis by auto
qed

section \<open>The server that Main runs\<close>

lemma newServer_fresh: "fresh (newServer E f cfg bindAddr base nodes xs tmpl)"
  by (simp add: fresh_def newServer_def Let_def split: prod.splits)

lemma newServer_simps [simp]:
  "sv_Auth (newServer E f cfg bindAddr base nodes xs tmpl) = Some (AuthFor (rv_lower E) cfg)"
  "sv_User (newServer E f cfg bindAddr base nodes xs tmpl)
   = fst (AuthFor (rv_lower E) cfg (ServeAddr (rv_env E) cfg (fl_listen f)))"
  "sv_Pass (newServer E f cfg bindAddr base nodes xs tmpl)
   = snd (AuthFor (rv_lower E) cfg (ServeAddr (rv_env E) cfg (fl_listen f)))"
  by (simp_all add: newServer_def Let_def split: prod.splits)

lemma applyFlags_LANAuth: "applyFlags f cfg0 = Inr cfg \<Longrightarrow> c_LANAuth cfg = c_LANAuth cfg0"
  by (auto simp: applyFlags_def Let_def split: if_splits)

lemma loadConfig_LANAuth:
  "loadConfig E f = Inr cfg \<Longrightarrow> c_LANAuth cfg = Some a \<Longrightarrow> validLANAuth (la_Username a) (la_Password a) = Inr ()"
  by (auto simp: loadConfig_def Let_def Defaults_def split: if_splits sum.splits dest: Load_LANAuth)

lemma runServer_Serving:
  assumes "runServer E f = Inr (Serving cfg t)"
  obtains cfg0 bindAddr base nodes xs tmpl where
    "loadConfig E f = Inr cfg0" "applyFlags f cfg0 = Inr cfg"
    "Start (rv_serve E) (newServer E f cfg bindAddr base nodes xs tmpl) = (Inr (), t)"
proof -
  from assms obtain cfg0 where c0: "loadConfig E f = Inr cfg0"
    by (auto simp: runServer_def sbind_eq_Inr)
  note a1 = assms [unfolded runServer_def c0 sbind_simps]
  from a1 obtain cfg' where c1: "applyFlags f cfg0 = Inr cfg'" by (auto simp: sbind_eq_Inr)
  note a2 = a1 [unfolded c1 sbind_simps]
  from a2 obtain ns where c2: "loadNodesRaw E cfg' (fl_profile f) = Inr ns" by (auto simp: sbind_eq_Inr)
  obtain allNodes tmpl where ns: "ns = (allNodes, tmpl)" by (cases ns)
  note a3 = a2 [unfolded c2 ns sbind_simps prod.case]
  from a3 obtain fs where c3: "filterNodes (rv_regex E) allNodes (c_Filter cfg') = Inr fs"
    by (auto simp: sbind_eq_Inr)
  note a4 = a3 [unfolded c3 sbind_simps]
  from a4 obtain ps where c4: "pickNode f fs = Inr ps" by (auto simp: sbind_eq_Inr)
  obtain bindAddr base where b: "bindAndBase f cfg' = (bindAddr, base)" by (cases "bindAndBase f cfg'")
  note a5 = a4 [unfolded c4 sbind_simps b Let_def prod.case]
  from a5 obtain nodes xs where
    "(case Start (rv_serve E) (newServer E f cfg' bindAddr base nodes xs tmpl) of
        (Inl e, _) \<Rightarrow> Inl (ServeFail e) | (Inr _, srv) \<Rightarrow> Inr (Serving cfg' srv)) = Inr (Serving cfg t)"
    unfolding sbind_eq_Inr by blast
  then have "cfg' = cfg" "Start (rv_serve E) (newServer E f cfg bindAddr base nodes xs tmpl) = (Inr (), t)"
    by (auto split: prod.splits sum.splits)
  with c0 c1 that show thesis by blast
qed

lemma Main_Serving:
  assumes "Main E = Inr (Serving cfg t)"
  shows "\<exists>f bindAddr base nodes xs tmpl. rv_flags E = Inr f
     \<and> Start (rv_serve E) (newServer E f cfg bindAddr base nodes xs tmpl) = (Inr (), t)
     \<and> (\<forall>a. c_LANAuth cfg = Some a \<longrightarrow> validLANAuth (la_Username a) (la_Password a) = Inr ())"
proof -
  obtain f where f: "rv_flags E = Inr f" "runServer E f = Inr (Serving cfg t)"
    using assms by (auto simp: Main_def Healthcheck_def sbind_eq_Inr split: sum.splits if_splits)
  from f(2) obtain cfg0 bindAddr base nodes xs tmpl where
    c: "loadConfig E f = Inr cfg0" "applyFlags f cfg0 = Inr cfg"
    and s: "Start (rv_serve E) (newServer E f cfg bindAddr base nodes xs tmpl) = (Inr (), t)"
    by (rule runServer_Serving)
  have "\<forall>a. c_LANAuth cfg = Some a \<longrightarrow> validLANAuth (la_Username a) (la_Password a) = Inr ()"
    using loadConfig_LANAuth [OF c(1)] applyFlags_LANAuth [OF c(2)] by simp
  with f(1) s show ?thesis by blast
qed

lemma Main_listeners:
  assumes "Main E = Inr (Serving cfg t)"
  shows "\<forall>l \<in> set (sv_listeners t). (l_user l, l_pass l) = AuthFor (rv_lower E) cfg (l_addr l)"
    and "rv_flags E = Inr f \<Longrightarrow>
         (sv_User t, sv_Pass t) = AuthFor (rv_lower E) cfg (ServeAddr (rv_env E) cfg (fl_listen f))"
proof -
  from Main_Serving [OF assms] obtain g bindAddr base nodes xs tmpl where g: "rv_flags E = Inr g"
    and st: "Start (rv_serve E) (newServer E g cfg bindAddr base nodes xs tmpl) = (Inr (), t)" by blast
  let ?s = "newServer E g cfg bindAddr base nodes xs tmpl"
  from Start_fact [OF newServer_fresh st] have t: "running t" "same_config (startInit ?s) t" by auto
  have cfg: "sv_Auth t = Some (AuthFor (rv_lower E) cfg)" "sv_User t = sv_User ?s" "sv_Pass t = sv_Pass ?s"
    using t(2) by (simp_all add: same_config_def startInit_def)
  show "\<forall>l \<in> set (sv_listeners t). (l_user l, l_pass l) = AuthFor (rv_lower E) cfg (l_addr l)"
    using t(1) cfg by (auto simp: running_def list_all_iff listener_ok_def creds_def)
  show "rv_flags E = Inr f \<Longrightarrow>
      (sv_User t, sv_Pass t) = AuthFor (rv_lower E) cfg (ServeAddr (rv_env E) cfg (fl_listen f))"
    using g cfg by simp
qed

lemma handle_needs_auth:
  "handle H s q = Ok doc \<Longrightarrow> hg_path q \<noteq> ''/health'' \<Longrightarrow> sv_User s \<noteq> [] \<Longrightarrow>
   BasicAuth (hg_auth q) = (sv_User s, sv_Pass s, True)"
  by (auto simp: handle_def auth_def split: if_splits)

section \<open>An example run\<close>

definition exampleCfg :: cfgFile where
  "exampleCfg = Defaults\<lparr>c_LANAuth := Some \<lparr>la_Username = ''u'', la_Password = ''p''\<rparr>,
     c_ListenAddress := ''0.0.0.0''\<rparr>"

definition exampleOs :: env where
  "exampleOs =
     \<lparr>ev_get = (\<lambda>_. []), ev_home = [], ev_stat = (\<lambda>_. None), ev_mkdirAll = (\<lambda>_. None),
      ev_read = (\<lambda>_. Inr []), ev_json = (\<lambda>_ _. Inr exampleCfg), ev_join = (\<lambda>a b. a @ b), ev_dir = id\<rparr>"

definition exampleFlags :: flags where
  "exampleFlags =
     \<lparr>fl_config = ''c'', fl_profile = ''y'', fl_listen = [], fl_bind = [], fl_mode = [], fl_map = False,
      fl_single = False, fl_mapBase = 0, fl_port = [], fl_node = [], fl_filter = [], fl_health = [],
      fl_help = False, fl_version = False, fl_tray = False, fl_serve = False\<rparr>"

definition exampleRun :: run_env where
  "exampleRun =
     \<lparr>rv_flags = Inr exampleFlags, rv_env = exampleOs, rv_panel = examplePanel,
      rv_serve = exampleEnv, rv_lower = id, rv_regex = (\<lambda>_. Inl 1), rv_base = ''oixproxy'', rv_exe = [],
      rv_version = ''dev'', rv_health = (\<lambda>_. Inl 1)\<rparr>"

lemma TrimSpace_Nil [simp]: "TrimSpace [] = []"
  by (simp add: TrimSpace_def trimLeft.simps trimRight.simps spaceAt_def
        spaceEnd_def token_none HasPrefix_def HasSuffix_def spaceTokens_def)

definition exampleLoaded :: cfgFile where
  "exampleLoaded = exampleCfg\<lparr>c_CustomConf := [], c_DataDir := helperDir\<rparr>"

lemma example_config: "loadConfig exampleRun exampleFlags = Inr exampleLoaded"
  by (simp add: exampleLoaded_def loadConfig_def exampleRun_def exampleFlags_def Load_def exampleOs_def exampleCfg_def Defaults_def fillDefaults_def checkLANAuth_def validLANAuth_def Contains_char DataDir_def firstExistingDir_def helperDir_def Let_def)

lemma example_flags: "applyFlags exampleFlags exampleLoaded = Inr exampleLoaded"
  by (simp add: applyFlags_def exampleFlags_def exampleLoaded_def exampleCfg_def Defaults_def)

abbreviation "hk \<equiv> yamlNode exampleProfile exampleNode (obfsOpts exampleNode)"

lemma example_loadNodes: "loadNodesRaw exampleRun exampleLoaded (fl_profile exampleFlags) = Inr ([hk], [])"
  by (simp add: loadNodesRaw_def loadProfile_def exampleRun_def exampleFlags_def exampleOs_def examplePanel_def example_parse)

lemma example_filter: "filterNodes (rv_regex exampleRun) [hk] (c_Filter exampleLoaded) = Inr [hk]"
  by (simp add: filterNodes_def Filter_def compileFilter_def exampleLoaded_def exampleCfg_def Defaults_def)

lemma example_bind: "bindAndBase exampleFlags exampleLoaded = (''0.0.0.0'', 7200)"
  by (simp add: bindAndBase_def exampleFlags_def splitListen_def BindAddr_def exampleLoaded_def exampleCfg_def Defaults_def Let_def)

lemma example_runServer:
  "runServer exampleRun exampleFlags =
    (case Start exampleEnv (newServer exampleRun exampleFlags exampleLoaded ''0.0.0.0'' 7200 [hk] [] []) of
       (Inl e, _) \<Rightarrow> Inl (ServeFail e) | (Inr _, srv) \<Rightarrow> Inr (Serving exampleLoaded srv))"
proof -
  have "pickNode exampleFlags [hk] = Inr [hk]" "c_ProxyMode exampleLoaded = ''map''" "c_Listeners exampleLoaded = []"
    "rv_serve exampleRun = exampleEnv"
    by (simp_all add: pickNode_def exampleFlags_def exampleLoaded_def exampleCfg_def Defaults_def exampleRun_def)
  then show ?thesis
    unfolding runServer_def example_config sbind_simps example_flags example_loadNodes prod.case example_filter example_bind
      Let_def by (simp add: extraListeners_def)
qed

lemma example_start:
  "\<exists>t. Start exampleEnv (newServer exampleRun exampleFlags exampleLoaded ''0.0.0.0'' 7200 [hk] [] []) = (Inr (), t)
     \<and> (\<exists>l \<in> set (sv_listeners t). l_addr l = JoinHostPort ''0.0.0.0'' (Itoa 7200))"
  by (simp add: Start_def startInit_def newServer_def openListener_def dialerFor_def
        exampleEnv_def ebind_def Let_def creds_def poolKey_def startHTTP_def split: prod.splits)


lemma example_exposed: "\<not> isLoopback id (authHost (JoinHostPort ''0.0.0.0'' (Itoa 7200)))"
proof -
  have "authHost (JoinHostPort ''0.0.0.0'' (Itoa 7200)) = ''0.0.0.0''"
    by (rule authHost_JoinHostPort) (simp_all add: host_ok_def visible_def)
  moreover have "ToLower id ''0.0.0.0'' = ''0.0.0.0''"
    by (simp add: ToLower_def is_ascii_def lower_char_def of_char_def)
  moreover have "ParseIP ''0.0.0.0'' = Some (v4Prefix @ [0, 0, 0, 0])"
  proof -
    have "v4String [0, 0, 0, 0] = ''0.0.0.0''" by (simp add: v4String_def nat_str.simps digit_def char_of_def bit_0)
    with ParseIP_v4String [of "[0, 0, 0, 0]"] show ?thesis by simp
  qed
  moreover have "\<not> IsLoopback (v4Prefix @ [0, 0, 0, 0])" by (simp add: IsLoopback_def To4_def v4Prefix_def)
  moreover have "TrimSpace ''0.0.0.0'' = ''0.0.0.0''" by (rule TrimSpace_visible) (simp_all add: visible_def)
  ultimately show ?thesis by (simp add: isLoopback_def Trim_def inset_def)
qed

definition exampleListeners :: cfgFile where
  "exampleListeners =
     exampleCfg\<lparr>c_Listeners := [\<lparr>ln_Name = '' x'', ln_Type = [], ln_Port = 9000, ln_Node = ''hk'', ln_Listen = []\<rparr>]\<rparr>"

theorem extraListeners_distinct_witness:
  "\<exists>x. extraListeners id exampleListeners [hk] [hk] [] ''0.0.0.0'' = Inr [x] \<and> x_Name x = ''x''
     \<and> from_listener [hk] ''0.0.0.0'' (c_Listeners exampleListeners) x \<and> policyNameKey id ''x'' \<noteq> policyNameKey id ''hk''"
proof -
  have "TrimSpace '' x'' = ''x''" by (simp add: TrimSpace_blank visible_def)
  moreover have "policyNameKey id ''x'' = ''x''" "policyNameKey id ''hk'' = ''hk''"
    by (simp_all add: policyNameKey_def ToLower_def is_ascii_def lower_char_def of_char_def TrimSpace_visible visible_def)
  moreover have "validateListenerName ''x'' = None"
  proof -
    have f: "fold_is (c # t) (w # ws) \<longleftrightarrow> lower_char c = w \<and> fold_is t ws"
      if "w \<noteq> CHR ''k''" "w \<noteq> CHR ''s''" for c t w ws
      using that by (simp add: fold_is.simps)
    have "lower_char CHR ''x'' = CHR ''x''" by (simp add: lower_char_def of_char_def)
    then have "\<not> list_ex (fold_is ''x'') reserved"
      by (simp add: reserved_def f del: fold_is.simps)
    moreover have "\<not> containsControl ''x''" by (simp add: of_char_def)
    moreover have "CHR ''x'' \<notin> set [CHR 0x0D, CHR 0x0A, CHR '','', CHR ''='', backslash, dquote]" by simp
    ultimately show ?thesis by (simp add: validateListenerName_def HasPrefix_def)
  qed
  moreover have "SurgeGroupNames id [] = []" by (simp add: SurgeGroupNames_def groupEntry_def HasPrefix_def)
  moreover have "Find [hk] ''hk'' = Some hk" by (simp add: Find_def)
  ultimately obtain x where x: "extraListeners id exampleListeners [hk] [hk] [] ''0.0.0.0'' = Inr [x]" "x_Name x = ''x''"
    by (simp add: extraListeners_def exampleListeners_def exampleCfg_def Defaults_def Let_def)
  from extraListeners_distinct [OF x(1)] x show ?thesis by auto
qed

end
