(* ===== verification/Spec2Isabelle.thy ===== *)
theory Spec2Isabelle
  imports Snell_Conn Websocket Resolver Dns_Net Pool Udp_Assoc Relay Tfo_Conc Run
begin

text \<open>
  A verification library for oixproxy, a local proxy that carries SOCKS5, HTTP CONNECT and SOCKS5
  UDP over Snell v4 inside ECH-TLS. The model follows the Go sources under \<open>src/\<close> function by
  function and keeps their names where Isabelle allows it.

  \<^bold>\<open>The program.\<close> \<open>run.Main\<close> loads the configuration (\<open>config\<close>), gets nodes from a profile file
  (\<open>profile\<close>) or from the panel (\<open>panel\<close>, with \<open>obf\<close> and the age identity of \<open>identity\<close>),
  filters them, and starts a \<open>serve.Server\<close>: one mixed listener (\<open>inbound\<close>) per node and per extra
  listener, each with a dialer (\<open>dialer.Dial\<close> or a pool), and HTTP endpoints that hand out client
  configurations. A client's request leads to a dial: DNS, TCP (or fast open), ECH-TLS, possibly a
  WebSocket, and on top a Snell stream (\<open>snell\<close>) whose first frame carries the identity prefix.

  \<^bold>\<open>Theories and sources\<close> (all under \<open>internal/\<close>).
  \<^item> \<open>Prelude\<close>, \<open>Go_Std\<close>, \<open>Go_Net\<close>: bytes, state-and-error computations (\<open>ebind\<close>, \<open>sbind\<close>),
    connections as a \<open>source\<close> and a \<open>sink\<close>, and what the program uses of \<open>strings\<close>, \<open>strconv\<close>,
    \<open>encoding/binary\<close> and \<open>net\<close>; the locales \<open>codec\<close> (a decoder undoes an encoder and leaves the rest)
    and \<open>byte_source\<close> (reads hand out what is pending, in order). \<open>codec\<close> is interpreted by the CONNECT
    request, the UDP reply and the WebSocket frame, \<open>byte_source\<close> by the Snell and the WebSocket reader.
  \<^item> \<open>Crypto\<close>: nonces, \<open>identity/v1.go\<close>, \<open>identity/v2.go\<close>, padding. \<open>Snell_Frame\<close>, \<open>Snell_Writer\<close>,
    \<open>Snell_Stream\<close>, \<open>Snell_Conn\<close>: \<open>snell/v4.go\<close> (records \<open>v4reader\<close>, \<open>v4writer\<close>, \<open>conn\<close>).
    \<open>Snell_Udp\<close>: \<open>snell/udp.go\<close>.
  \<^item> \<open>Dns\<close>, \<open>Resolver\<close>, \<open>Dns_Net\<close>: \<open>dialer/dest.go\<close>, \<open>dns.go\<close>, \<open>dnsauth.go\<close>. \<open>Websocket\<close>: \<open>dialer/ws.go\<close>.
    \<open>Transport\<close>: \<open>dialer/ech.go\<close>, \<open>ekm.go\<close>, \<open>packet.go\<close>. \<open>Tfo\<close>, \<open>Tfo_Conc\<close>: \<open>dialer/tfo.go\<close>,
    \<open>keepalive.go\<close>. \<open>Pool\<close>: \<open>dialer/pool.go\<close>.
  \<^item> \<open>Socks\<close>, \<open>Relay\<close>: \<open>inbound/mixed.go\<close>. \<open>Udp_Hub\<close>, \<open>Udp_Assoc\<close>: \<open>inbound/hub.go\<close>, \<open>udp.go\<close>.
  \<^item> \<open>Config\<close>: \<open>config/config.go\<close>. \<open>Profile_Dns\<close>, \<open>Profile\<close>: \<open>profile/\<close>. \<open>Emit\<close>: \<open>serve/emit.go\<close>,
    \<open>opensurge.go\<close>. \<open>Serve\<close>: \<open>serve/serve.go\<close>. \<open>Obf\<close>: \<open>obf/v2.go\<close>. \<open>Panel\<close>: \<open>panel/\<close> and
    \<open>identity/age.go\<close>. \<open>Run\<close>: \<open>run/run.go\<close>. This theory: what spans configuration, server and listener.

  \<^bold>\<open>How code becomes definitions.\<close> A struct is a record, an error a constructor of the component's
  error type, a function that mutates its receiver returns the new state beside its result. Machine
  integers are words where they wrap (bytes, ports, lengths, counters), \<open>int\<close> elsewhere. A connection is
  the bytes that will arrive with the error after them, and the bytes sent with a script of failing or
  short writes. Code that is not in the repository (TLS, AEAD, Argon2, hashes, age, YAML, JSON,
  regular expressions, the HTTP client and parser, the file system, the clock, Unicode tables) is a
  parameter, collected in records such as \<open>prims\<close>, \<open>outside\<close>, \<open>panel_env\<close>, \<open>run_env\<close>; what is
  assumed of it is a named hypothesis (\<open>aead_ok\<close>, \<open>working\<close>, \<open>keeps_dials\<close>). Goroutines are
  step relations: \<open>pool_step\<close> in \<open>Pool\<close>, \<open>hub_step\<close> in \<open>Udp_Hub\<close>, \<open>assoc_step\<close> in
  \<open>Udp_Assoc\<close>, \<open>lookup_step\<close> in \<open>Resolver\<close>, \<open>tfo_step\<close> in \<open>Tfo_Conc\<close>; one step is one critical
  section or one blocking call, and the invariants are proved by rule induction.

  \<^bold>\<open>What the lemmas show.\<close> Snell: frames and streams round-trip, nonces never repeat, frames fill
  TCP segments exactly, writes complete, replies gate the data, half-close and drop are told apart.
  DNS: parsers stay in bounds, answers decide lookups, at most one query per key is in flight.
  WebSocket: reads return the data payloads in order, writes parse back. Transport: no transport
  leaks, the request on the wire is the requested one. Fast open: equivalence with a plain connection,
  and safety under interleaving. Pool: limits, one holder per transport, no use after close, no
  leaks. Inbound: no service without credentials, exact transcripts, both ends of a relay
  half-closed, UDP isolation. Profiles: well-formed nodes, order-free rules, most specific server.
  Output: no proxy definition of a template survives the rewriting, quoting round-trips. Panel: the token goes to
  the panel only, nodes are well-formed. Server and command: all-or-nothing start, authenticated
  endpoints, distinct names, and credentials on every exposed listener.

  \<^bold>\<open>Bounds and termination.\<close> No loop needs fuel: the recursive functions are structural or have a
  measure (bytes left, octets to write), the event loops (\<open>AcceptLoop\<close>, \<open>readLoop\<close>) consume a list of
  events, the retry loop of \<open>Pool\<close> has the three attempts of the code, \<open>tcpKeepAlive\<close> its eight turns.
  The keystream loop of \<open>Obf\<close> ends only because digests are not empty; it is a
  \<open>partial_function (option)\<close> and its termination is a theorem. Blocking without end (a peer that
  sends nothing) is outside: a source always ends, with an error if need be.

  \<^bold>\<open>Not modelled.\<close> Log output; flag parsing, signals and the wording of usage and error texts; the
  HTTP server's path cleaning; TLS itself and the reflection in \<open>connEKM\<close>; classifying errno values as
  retryable (an event of the loops); timers, which are events; \<open>LocalAddr\<close> and \<open>RemoteAddr\<close>;
  \<open>cmd/oixproxy/main.go\<close> and \<open>dialer/export.go\<close>, which only call; tests, scripts and packaging.
\<close>

section \<open>From the command line to the wire\<close>

text \<open>
  C1. Exposed listeners ask for credentials: when \<open>Main\<close> ends up serving and the configuration has
  \<open>lanAuth\<close>, every proxy listener whose address is not loopback serves a client (connects anywhere,
  or returns without error) only if that client sent exactly the configured user name and password,
  as a SOCKS client or in the header of a CONNECT request; and if the config server's address is not
  loopback, every endpoint but \<open>/health\<close> answers only requests with these credentials. The
  credentials are never empty.
\<close>

theorem exposed_needs_credentials:
  assumes main: "Main E = Inr (Serving cfg t)" and lan: "c_LANAuth cfg = Some a"
  shows "la_Username a \<noteq> [] \<and> la_Password a \<noteq> []
    \<and> (\<forall>l \<in> set (sv_listeners t). \<not> isLoopback (rv_lower E) (authHost (l_addr l)) \<longrightarrow>
            (\<forall>I readRequest c r c'. serve I (l_user l) (l_pass l) readRequest c = (r, c') \<and> keeps_dials readRequest
               \<and> ((\<exists>s. r = Inr s) \<or> cl_dials c' \<noteq> cl_dials c) \<longrightarrow>
               (\<exists>v methods rest. src_data (cl_in c) = [v, word_of_nat (length methods)] @ methods
                    @ credentials (la_Username a) (la_Password a) @ rest \<and> 2 \<in> set methods)
               \<or> (\<exists>req c1. readRequest c = (Inr req, c1) \<and> hr_method req = ''CONNECT''
                    \<and> parseBasic (hr_proxyAuth req) = (la_Username a, la_Password a, True))))
    \<and> (\<forall>f H q doc. rv_flags E = Inr f
         \<and> \<not> isLoopback (rv_lower E) (authHost (ServeAddr (rv_env E) cfg (fl_listen f)))
         \<and> handle H t q = Ok doc \<and> hg_path q \<noteq> ''/health'' \<longrightarrow>
         BasicAuth (hg_auth q) = (la_Username a, la_Password a, True))"
proof -
  from Main_Serving [OF main] lan have ne: "la_Username a \<noteq> []" "la_Password a \<noteq> []"
    by (auto simp: validLANAuth_Inr)
  have creds: "AuthFor (rv_lower E) cfg addr = (la_Username a, la_Password a)"
    if "\<not> isLoopback (rv_lower E) (authHost addr)" for addr
    using that lan by (simp add: AuthFor_def)
  have l: "l_user l = la_Username a" "l_pass l = la_Password a"
    if "l \<in> set (sv_listeners t)" "\<not> isLoopback (rv_lower E) (authHost (l_addr l))" for l
    using Main_listeners(1) [OF main] creds [OF that(2)] that(1) by auto
  have h: "sv_User t = la_Username a \<and> sv_Pass t = la_Password a"
    if "rv_flags E = Inr f" "\<not> isLoopback (rv_lower E) (authHost (ServeAddr (rv_env E) cfg (fl_listen f)))" for f
    using Main_listeners(2) [OF main that(1)] creds [OF that(2)] by simp
  show ?thesis
  proof (intro conjI ballI allI impI, goal_cases)
    case 1
    show ?case by (rule ne)
  next
    case 2
    show ?case by (rule ne)
  next
    case (3 k I readRequest c r c')
    then show ?case
      using serve_auth_fact [of I "la_Username a" "la_Password a" readRequest c r c'] l [of k] ne by simp
  next
    case (4 f H q doc)
    then show ?case using handle_needs_auth [of H t q doc] h [of f] ne by simp
  qed
qed

theorem exposed_needs_credentials_witness:
  "\<exists>t l. Main exampleRun = Inr (Serving exampleLoaded t) \<and> l \<in> set (sv_listeners t)
     \<and> (\<forall>I readRequest c r c'. serve I (l_user l) (l_pass l) readRequest c = (r, c') \<and> keeps_dials readRequest
          \<and> ((\<exists>s. r = Inr s) \<or> cl_dials c' \<noteq> cl_dials c) \<longrightarrow>
          (\<exists>v methods rest. src_data (cl_in c) = [v, word_of_nat (length methods)] @ methods
               @ credentials ''u'' ''p'' @ rest \<and> 2 \<in> set methods)
          \<or> (\<exists>req c1. readRequest c = (Inr req, c1) \<and> hr_method req = ''CONNECT''
               \<and> parseBasic (hr_proxyAuth req) = (''u'', ''p'', True)))"
proof -
  obtain t l where t: "Start exampleEnv (newServer exampleRun exampleFlags exampleLoaded ''0.0.0.0'' 7200 [hk] [] []) = (Inr (), t)"
    and l: "l \<in> set (sv_listeners t)" "l_addr l = JoinHostPort ''0.0.0.0'' (Itoa 7200)"
    using example_start by blast
  have m: "Main exampleRun = Inr (Serving exampleLoaded t)"
    using example_runServer t by (simp add: Main_def) (simp add: exampleRun_def exampleFlags_def)
  have lan: "c_LANAuth exampleLoaded = Some \<lparr>la_Username = ''u'', la_Password = ''p''\<rparr>"
    by (simp add: exampleLoaded_def exampleCfg_def)
  have id: "rv_lower exampleRun = id" by (simp add: exampleRun_def)
  show ?thesis
    using exposed_needs_credentials [OF m lan, THEN conjunct2, THEN conjunct2, THEN conjunct1, rule_format, OF l(1)] m l example_exposed
    unfolding id LANAuth.simps by metis
qed

end
